(* ===== verification/Prelude.thy ===== *)
theory Prelude
  imports Main "HOL-Library.Word"
begin

text \<open>
  Shared vocabulary of the development: the machine integers of the Rust
  sources as words of their width, the checked and saturating operations of
  the Rust standard library on them, results as sums with the error on the
  left, and byte strings with their little-endian integer encodings.  The
  lemmas here carry the reasoning from words to natural numbers, where the
  component proofs take place.
\<close>

unbundle bit_operations_syntax

named_theorems wf_simps \<open>unfolding rules for the well-formedness predicates\<close>
named_theorems unat_simps \<open>transfer of word operations to natural numbers\<close>

section \<open>Machine types\<close>

type_synonym u8 = "8 word"
type_synonym u16 = "16 word"
type_synonym u32 = "32 word"
type_synonym u64 = "64 word"
type_synonym u128 = "128 word"

type_synonym bytes = "u8 list"
type_synonym digest = bytes
type_synonym address = bytes

text \<open>A Rust \<open>[u8; 32]\<close> is a byte list of length 32.\<close>

definition wf_digest :: "bytes \<Rightarrow> bool" where
  [wf_simps]: "wf_digest d \<longleftrightarrow> length d = 32"

definition zero_digest :: digest where
  "zero_digest = replicate 32 0"

lemma wf_zero_digest [simp]: "wf_digest zero_digest"
  by (simp add: wf_digest_def zero_digest_def)

section \<open>Results\<close>

text \<open>\<open>Result<T, E>\<close> is \<open>E + T\<close>; \<open>bind_res\<close> is the question-mark operator.\<close>

fun bind_res :: "'e + 'a \<Rightarrow> ('a \<Rightarrow> 'e + 'b) \<Rightarrow> 'e + 'b" where
  "bind_res (Inl e) f = Inl e"
| "bind_res (Inr x) f = f x"

fun map_err :: "('e \<Rightarrow> 'f) \<Rightarrow> 'e + 'a \<Rightarrow> 'f + 'a" where
  "map_err h (Inl e) = Inl (h e)"
| "map_err h (Inr x) = Inr x"

fun ok_or :: "'e \<Rightarrow> 'a option \<Rightarrow> 'e + 'a" where
  "ok_or e None = Inl e"
| "ok_or e (Some x) = Inr x"

fun is_ok :: "'e + 'a \<Rightarrow> bool" where
  "is_ok (Inl e) = False"
| "is_ok (Inr x) = True"

lemma bind_res_Inr_iff [simp]:
  "bind_res r f = Inr y \<longleftrightarrow> (\<exists>x. r = Inr x \<and> f x = Inr y)"
  by (cases r) auto

lemma bind_res_Inl_iff:
  "bind_res r f = Inl e \<longleftrightarrow> r = Inl e \<or> (\<exists>x. r = Inr x \<and> f x = Inl e)"
  by (cases r) auto

lemma map_err_Inr_iff [simp]: "map_err h r = Inr x \<longleftrightarrow> r = Inr x"
  by (cases r) auto

lemma ok_or_Inr_iff [simp]: "ok_or e m = Inr x \<longleftrightarrow> m = Some x"
  by (cases m) auto

lemma ok_or_Inl_iff [simp]: "ok_or e m = Inl e' \<longleftrightarrow> m = None \<and> e' = e"
  by (cases m) auto

lemma is_ok_iff: "is_ok r \<longleftrightarrow> (\<exists>x. r = Inr x)"
  by (cases r) auto

lemma is_ok_bind_res [simp]: "is_ok (bind_res r f) \<longleftrightarrow> (\<exists>x. r = Inr x \<and> is_ok (f x))"
  by (cases r) auto

lemma is_ok_map_err [simp]: "is_ok (map_err h r) = is_ok r"
  by (cases r) auto

lemma bind_res_cong [fundef_cong]:
  "r = r' \<Longrightarrow> (\<And>x. r' = Inr x \<Longrightarrow> f x = g x) \<Longrightarrow> bind_res r f = bind_res r' g"
  by (cases r') auto

text \<open>Slice indexing; out of range is \<open>None\<close>, which stands for a panic or for the \<open>None\<close> of \<open>get\<close>.\<close>

definition slice_get :: "'a list \<Rightarrow> nat \<Rightarrow> 'a option" where
  "slice_get xs i = (if i < length xs then Some (xs ! i) else None)"

text \<open>A \<open>for\<close> loop with an early return, threading a state.\<close>

primrec fold_res :: "('a \<Rightarrow> 's \<Rightarrow> 'e + 's) \<Rightarrow> 'a list \<Rightarrow> 's \<Rightarrow> 'e + 's" where
  "fold_res f [] s = Inr s"
| "fold_res f (x # xs) s = bind_res (f x s) (fold_res f xs)"

lemma fold_res_append:
  "fold_res f (xs @ ys) s = bind_res (fold_res f xs s) (fold_res f ys)"
proof (induction xs arbitrary: s)
  case (Cons x xs)
  then show ?case by (cases "f x s") simp_all
qed simp

lemma fold_res_single: "fold_res f [x] = f x"
proof
  show "fold_res f [x] s = f x s" for s by (cases "f x s") simp_all
qed

lemma fold_res_invariant:
  assumes "fold_res f xs s = Inr t" and "I s"
    and "\<And>x s t. x \<in> set xs \<Longrightarrow> I s \<Longrightarrow> f x s = Inr t \<Longrightarrow> I t"
  shows "I t"
  using assms
proof (induction xs arbitrary: s)
  case (Cons x xs)
  from Cons.prems(1) obtain u where u: "f x s = Inr u" "fold_res f xs u = Inr t" by auto
  have "I u" using Cons.prems(2,3) u(1) by auto
  then show ?case using Cons.IH[OF u(2)] Cons.prems(3) by auto
qed simp

section \<open>Checked and saturating arithmetic\<close>

definition word_max :: "'a::len word" where
  "word_max = - 1"

definition checked_add :: "'a::len word \<Rightarrow> 'a word \<Rightarrow> 'a word option" where
  "checked_add x y = (if unat x + unat y < 2 ^ LENGTH('a) then Some (x + y) else None)"

definition checked_sub :: "'a::len word \<Rightarrow> 'a word \<Rightarrow> 'a word option" where
  "checked_sub x y = (if y \<le> x then Some (x - y) else None)"

definition checked_mul :: "'a::len word \<Rightarrow> 'a word \<Rightarrow> 'a word option" where
  "checked_mul x y = (if unat x * unat y < 2 ^ LENGTH('a) then Some (x * y) else None)"

definition saturating_add :: "'a::len word \<Rightarrow> 'a word \<Rightarrow> 'a word" where
  "saturating_add x y = (if unat x + unat y < 2 ^ LENGTH('a) then x + y else word_max)"

definition saturating_sub :: "'a::len word \<Rightarrow> 'a word \<Rightarrow> 'a word" where
  "saturating_sub x y = (if y \<le> x then x - y else 0)"

definition saturating_mul :: "'a::len word \<Rightarrow> 'a word \<Rightarrow> 'a word" where
  "saturating_mul x y = (if unat x * unat y < 2 ^ LENGTH('a) then x * y else word_max)"

lemma unat_lt_pow [simp]: "unat (x :: 'a::len word) < 2 ^ LENGTH('a)"
  by (rule unsigned_less)

lemma unat_le_pow: "unat (x :: 'a::len word) \<le> 2 ^ LENGTH('a) - 1"
  using unat_lt_pow[of x] by linarith

lemma unat_word_max [unat_simps]: "unat (word_max :: 'a::len word) = 2 ^ LENGTH('a) - 1"
  by (simp add: word_max_def unsigned_minus_1_eq_mask mask_eq_exp_minus_1)

lemma unat_plus_lt [unat_simps]:
  "unat x + unat y < 2 ^ LENGTH('a) \<Longrightarrow> unat (x + y) = unat x + unat (y :: 'a::len word)"
  by (simp add: unat_word_ariths)

lemma unat_times_lt [unat_simps]:
  "unat x * unat y < 2 ^ LENGTH('a) \<Longrightarrow> unat (x * y) = unat x * unat (y :: 'a::len word)"
  by (simp add: unat_word_ariths)

lemma unat_minus_le [unat_simps]:
  "y \<le> x \<Longrightarrow> unat (x - y) = unat x - unat (y :: 'a::len word)"
  by (rule unat_sub)

lemma checked_add_Some_iff:
  fixes x y z :: "'a::len word"
  shows "checked_add x y = Some z \<longleftrightarrow> unat z = unat x + unat y"
proof
  assume "unat z = unat x + unat y"
  then show "checked_add x y = Some z"
    using unat_lt_pow[of z] by (simp add: checked_add_def word_unat_eq_iff unat_simps)
qed (auto simp: checked_add_def unat_simps split: if_splits)

lemma checked_sub_Some_iff:
  fixes x y z :: "'a::len word"
  shows "checked_sub x y = Some z \<longleftrightarrow> unat z + unat y = unat x"
proof
  assume "unat z + unat y = unat x"
  then show "checked_sub x y = Some z"
    by (simp add: checked_sub_def word_unat_eq_iff unat_simps word_le_nat_alt)
qed (auto simp: checked_sub_def unat_simps word_le_nat_alt split: if_splits)

lemma checked_mul_Some_iff:
  fixes x y z :: "'a::len word"
  shows "checked_mul x y = Some z \<longleftrightarrow> unat z = unat x * unat y"
proof
  assume "unat z = unat x * unat y"
  then show "checked_mul x y = Some z"
    using unat_lt_pow[of z] by (simp add: checked_mul_def word_unat_eq_iff unat_simps)
qed (auto simp: checked_mul_def unat_simps split: if_splits)

lemma checked_add_None_iff:
  "checked_add (x :: 'a::len word) y = None \<longleftrightarrow> 2 ^ LENGTH('a) \<le> unat x + unat y"
  by (auto simp: checked_add_def)

lemma checked_sub_None_iff: "checked_sub x y = None \<longleftrightarrow> x < (y :: 'a::len word)"
  by (auto simp: checked_sub_def)

lemma checked_mul_None_iff:
  "checked_mul (x :: 'a::len word) y = None \<longleftrightarrow> 2 ^ LENGTH('a) \<le> unat x * unat y"
  by (auto simp: checked_mul_def)

lemma unat_saturating_add [unat_simps]:
  "unat (saturating_add x y :: 'a::len word) = min (unat x + unat y) (2 ^ LENGTH('a) - 1)"
  by (auto simp: saturating_add_def unat_simps)

lemma unat_saturating_sub [unat_simps]:
  "unat (saturating_sub x y :: 'a::len word) = unat x - unat y"
  by (auto simp: saturating_sub_def unat_simps word_le_nat_alt)

lemma unat_saturating_mul [unat_simps]:
  "unat (saturating_mul x y :: 'a::len word) = min (unat x * unat y) (2 ^ LENGTH('a) - 1)"
  by (auto simp: saturating_mul_def unat_simps)

text \<open>Checked and saturating sums of a list, as \<open>try_fold\<close> and \<open>fold\<close> compute them.\<close>

primrec checked_sum :: "'a::len word \<Rightarrow> 'a word list \<Rightarrow> 'a word option" where
  "checked_sum acc [] = Some acc"
| "checked_sum acc (x # xs) =
    (case checked_add acc x of None \<Rightarrow> None | Some s \<Rightarrow> checked_sum s xs)"

lemma checked_sum_Some_iff:
  "checked_sum acc xs = Some s \<longleftrightarrow> unat s = unat acc + sum_list (map unat xs)"
proof (induction xs arbitrary: acc)
  case Nil
  then show ?case by (auto simp: word_unat_eq_iff)
next
  case (Cons x xs)
  show ?case
  proof (cases "checked_add acc x")
    case None
    then have "2 ^ LENGTH('a) \<le> unat acc + unat x" by (simp add: checked_add_None_iff)
    then have "unat s \<noteq> unat acc + (unat x + sum_list (map unat xs))"
      using unat_lt_pow[of s] by linarith
    then show ?thesis using None by simp
  next
    case (Some t)
    then have "unat t = unat acc + unat x" by (simp add: checked_add_Some_iff)
    then show ?thesis using Some Cons.IH by (simp add: add.assoc)
  qed
qed

lemma checked_sum_fits:
  fixes acc :: "'a::len word"
  assumes "unat acc + sum_list (map unat xs) < 2 ^ LENGTH('a)"
  obtains s where "checked_sum acc xs = Some s" "unat s = unat acc + sum_list (map unat xs)"
proof -
  let ?n = "unat acc + sum_list (map unat xs)"
  have "unat (of_nat ?n :: 'a word) = ?n"
    using take_bit_nat_eq_self[OF assms] by (simp only: unsigned_of_nat of_nat_id)
  then show ?thesis using that by (simp add: checked_sum_Some_iff)
qed

lemma sum_list_bounded:
  "(\<And>x. x \<in> set xs \<Longrightarrow> f x \<le> (b :: nat)) \<Longrightarrow> sum_list (map f xs) \<le> length xs * b"
  by (induction xs) (auto simp: add_mono)

lemma unat_ucast_widen [simp]:
  "LENGTH('a::len) \<le> LENGTH('b::len) \<Longrightarrow> unat (ucast (x :: 'a word) :: 'b word) = unat x"
  by (simp add: unsigned_ucast_eq take_bit_nat_eq_self_iff order_less_le_trans[OF unat_lt_pow])

lemma ucast_widen_inj [simp]:
  "LENGTH('a::len) \<le> LENGTH('b::len) \<Longrightarrow> (ucast x :: 'b word) = ucast y \<longleftrightarrow> x = (y :: 'a word)"
  by (simp add: word_unat_eq_iff)

lemma unat_sum_list_ucast:
  fixes xs :: "u64 list"
  assumes "length xs < 2 ^ 64"
  shows "unat (sum_list (map ucast xs) :: u128) = sum_list (map unat xs)"
  using assms
proof (induction xs)
  case (Cons x xs)
  have "sum_list (map unat xs) \<le> length xs * (2 ^ 64 - 1)"
    using unat_le_pow[where 'a = 64] by (intro sum_list_bounded) simp
  moreover have "length xs * (2 ^ 64 - 1) \<le> 2 ^ 64 * (2 ^ 64 - 1 :: nat)"
    using Cons.prems by (intro mult_le_mono1) simp
  ultimately have "unat x + sum_list (map unat xs) < 2 ^ 128"
    using unat_lt_pow[of x] by simp
  then show ?case using Cons by (simp add: unat_plus_lt)
qed simp

lemma and_push_bit_one_iff: "(w :: 'a::len word) AND push_bit i 1 \<noteq> 0 \<longleftrightarrow> bit w i"
  by (simp add: and_exp_eq_0_iff_not_bit)

lemma find_None_enumerate:
  "find P (enumerate 0 xs) = None \<longleftrightarrow> (\<forall>i < length xs. \<not> P (i, xs ! i))"
  by (auto simp: find_None_iff in_set_enumerate_eq)

lemma unat_push_bit: "unat (push_bit n w) = unat (w :: 'a::len word) * 2 ^ n mod 2 ^ LENGTH('a)"
proof -
  have "unat (push_bit n w) = take_bit LENGTH('a) (push_bit n (unat w))"
    by (rule unsigned_push_bit_eq)
  then show ?thesis by (simp only: push_bit_eq_mult take_bit_eq_mod)
qed

lemma unat_drop_bit: "unat (drop_bit n w) = unat (w :: 'a::len word) div 2 ^ n"
proof -
  have "unat (drop_bit n w) = drop_bit n (take_bit LENGTH('a) (unat w))"
    by (rule unsigned_drop_bit_eq)
  then show ?thesis by (simp only: take_bit_nat_eq_self[OF unat_lt_pow] drop_bit_eq_div)
qed

lemma xor_one_nat: "(i :: nat) XOR 1 = (if even i then Suc i else i - 1)"
  by (simp only: xor_one_eq) auto

lemma unat_of_nat_lt: "n < 2 ^ LENGTH('a) \<Longrightarrow> unat (of_nat n :: 'a::len word) = n"
  using take_bit_nat_eq_self[of n "LENGTH('a)"] by (simp only: unsigned_of_nat of_nat_id)

lemma unat_ucast_mod: "unat (ucast (w :: 'a::len word) :: 'b::len word) = unat w mod 2 ^ LENGTH('b)"
  by (simp add: unsigned_ucast_eq take_bit_eq_mod)

lemma unat_or_disjoint:
  "x AND y = 0 \<Longrightarrow> unat x + unat y < 2 ^ LENGTH('a) \<Longrightarrow> unat (x OR y) = unat x + unat (y :: 'a::len word)"
  by (metis disjunctive_add_eq_or unat_plus_lt)

end
