(* ===== verification/Codec.thy ===== *)
theory Codec
  imports Prelude
begin

text \<open>
  Wire codecs.  Every record of the protocol is written by an encoder that
  appends bytes and read back by a decoder that consumes a prefix of a byte
  slice.  The locale \<open>codec\<close> states the contract of such a pair on the
  well-formed values: decoding inverts encoding, and whatever decodes is the
  encoding of a well-formed value.  Both together make the encoding canonical
  (one byte string per value, one value per byte string) and prefix free.
\<close>

section \<open>Little-endian integers\<close>

primrec to_le :: "nat \<Rightarrow> 'a::len word \<Rightarrow> bytes" where
  "to_le 0 w = []"
| "to_le (Suc n) w = ucast w # to_le n (drop_bit 8 w)"

primrec from_le :: "bytes \<Rightarrow> 'a::len word" where
  "from_le [] = 0"
| "from_le (b # bs) = ucast b OR push_bit 8 (from_le bs)"

lemma length_to_le [simp]: "length (to_le n w) = n"
  by (induction n arbitrary: w) simp_all

lemma bit_from_le:
  "bit (from_le bs :: 'a::len word) i \<longleftrightarrow>
    i < LENGTH('a) \<and> i div 8 < length bs \<and> bit (bs ! (i div 8)) (i mod 8)"
proof (induction bs arbitrary: i)
  case (Cons b bs)
  show ?case
  proof (cases "i < 8")
    case True
    then show ?thesis by (auto simp: bit_simps)
  next
    case False
    then have "i div 8 = Suc ((i - 8) div 8)" "i mod 8 = (i - 8) mod 8"
      by (simp_all add: le_div_geq le_mod_geq)
    then show ?thesis using False Cons.IH[of "i - 8"] bit_imp_le_length[of b i]
      by (auto simp: bit_simps)
  qed
qed simp

lemma bit_to_le:
  "k < n \<Longrightarrow> bit (to_le n (w :: 'a::len word) ! k) i \<longleftrightarrow> i < 8 \<and> bit w (8 * k + i)"
proof (induction n arbitrary: k w)
  case (Suc n)
  then show ?case
    by (cases k) (auto simp: bit_simps ac_simps dest: bit_imp_le_length)
qed simp

lemma from_le_to_le [simp]:
  assumes "LENGTH('a::len) \<le> 8 * n"
  shows "from_le (to_le n (w :: 'a word)) = w"
proof (rule bit_word_eqI)
  fix i assume "i < LENGTH('a)"
  then have "i div 8 < n" using assms by auto
  then show "bit (from_le (to_le n w) :: 'a word) i = bit w i"
    using \<open>i < LENGTH('a)\<close> by (simp add: bit_from_le bit_to_le)
qed

lemma to_le_from_le [simp]:
  assumes "length bs = n" and "8 * n \<le> LENGTH('a::len)"
  shows "to_le n (from_le bs :: 'a word) = bs"
proof (rule nth_equalityI)
  fix k assume k: "k < length (to_le n (from_le bs :: 'a word))"
  show "to_le n (from_le bs :: 'a word) ! k = bs ! k"
  proof (rule bit_word_eqI)
    fix i assume i: "i < LENGTH(8)"
    then have "8 * k + i < LENGTH('a)" using k assms by simp
    then show "bit (to_le n (from_le bs :: 'a word) ! k) i = bit (bs ! k) i"
      using i k assms by (simp add: bit_to_le bit_from_le)
  qed
qed (use assms in simp)

lemma to_le_inject [simp]:
  assumes "LENGTH('a::len) \<le> 8 * n"
  shows "to_le n x = to_le n y \<longleftrightarrow> x = (y :: 'a word)"
proof
  assume "to_le n x = to_le n y"
  then have "(from_le (to_le n x) :: 'a word) = from_le (to_le n y)" by (rule arg_cong)
  then show "x = y" using assms by simp
qed simp

section \<open>The contract of a codec\<close>

locale codec =
  fixes enc :: "'a \<Rightarrow> bytes"
    and dec :: "bytes \<Rightarrow> 'e + 'a \<times> bytes"
    and wf :: "'a \<Rightarrow> bool"
  assumes dec_enc: "wf x \<Longrightarrow> dec (enc x @ rest) = Inr (x, rest)"
    and dec_sound: "dec bs = Inr (x, rest) \<Longrightarrow> wf x \<and> bs = enc x @ rest"
begin

lemma dec_iff: "dec bs = Inr (x, rest) \<longleftrightarrow> wf x \<and> bs = enc x @ rest"
  using dec_enc dec_sound by auto

lemma dec_enc_whole: "wf x \<Longrightarrow> dec (enc x) = Inr (x, [])"
  using dec_enc[of x "[]"] by simp

lemma enc_prefix_free:
  assumes "wf x" "wf y" "enc x @ r = enc y @ s"
  shows "x = y \<and> r = s"
proof -
  have "(Inr (x, r) :: 'e + 'a \<times> bytes) = dec (enc x @ r)"
    by (rule dec_enc[OF assms(1), symmetric])
  also have "\<dots> = dec (enc y @ s)" by (simp only: assms(3))
  also have "\<dots> = Inr (y, s)" by (rule dec_enc[OF assms(2)])
  finally show ?thesis by simp
qed

lemma enc_inj_on: "inj_on enc {x. wf x}"
  by (rule inj_onI) (use enc_prefix_free[of _ _ "[]" "[]"] in auto)

lemma dec_canonical:
  assumes "dec bs = Inr (x, r)" "dec bs' = Inr (x, r)"
  shows "bs = bs'"
  using assms by (simp add: dec_iff)

end

text \<open>A codec whose encodings all have one length.\<close>

locale fixed_codec = codec enc dec wf
  for enc :: "'a \<Rightarrow> bytes" and dec :: "bytes \<Rightarrow> 'e + 'a \<times> bytes" and wf :: "'a \<Rightarrow> bool" +
  fixes wire_size :: nat
  assumes enc_length: "wf x \<Longrightarrow> length (enc x) = wire_size"
begin

lemma dec_consumes: "dec bs = Inr (x, rest) \<Longrightarrow> length bs = wire_size + length rest"
  using enc_length by (auto simp: dec_iff)

lemma dec_short: "length bs < wire_size \<Longrightarrow> \<exists>e. dec bs = Inl e"
  by (metis dec_consumes leD le_add1 obj_sumE prod.collapse)

end

section \<open>Arrays\<close>

text \<open>\<open>for x in &mut xs { *x = decode(src)? }\<close> and its encoder.\<close>

primrec decode_n :: "nat \<Rightarrow> (bytes \<Rightarrow> 'e + 'a \<times> bytes) \<Rightarrow> bytes \<Rightarrow> 'e + 'a list \<times> bytes" where
  "decode_n 0 dec src = Inr ([], src)"
| "decode_n (Suc n) dec src =
    bind_res (dec src) (\<lambda>(x, src).
    bind_res (decode_n n dec src) (\<lambda>(xs, src). Inr (x # xs, src)))"

definition encode_list :: "('a \<Rightarrow> bytes) \<Rightarrow> 'a list \<Rightarrow> bytes" where
  "encode_list enc xs = concat (map enc xs)"

lemma encode_list_simps [simp]:
  "encode_list enc [] = []"
  "encode_list enc (x # xs) = enc x @ encode_list enc xs"
  by (simp_all add: encode_list_def)

lemma length_encode_list:
  "(\<And>x. x \<in> set xs \<Longrightarrow> length (enc x) = m) \<Longrightarrow> length (encode_list enc xs) = length xs * m"
  by (induction xs) auto

context codec
begin

lemma decode_n_iff:
  "decode_n n dec bs = Inr (xs, rest) \<longleftrightarrow>
    length xs = n \<and> list_all wf xs \<and> bs = encode_list enc xs @ rest"
proof (induction n arbitrary: bs xs)
  case 0
  then show ?case by auto
next
  case (Suc n)
  show ?case by (cases xs) (auto simp: Suc dec_iff)
qed

lemma array_codec:
  "codec (encode_list enc) (decode_n n dec) (\<lambda>xs. length xs = n \<and> list_all wf xs)"
  by unfold_locales (auto simp: decode_n_iff)

end

section \<open>Readers of a byte slice\<close>

text \<open>
  \<open>take(src, len)\<close>: split a prefix of the slice off, or fail with the
  truncation error of the crate.
\<close>

definition split_off :: "'e \<Rightarrow> nat \<Rightarrow> bytes \<Rightarrow> 'e + bytes \<times> bytes" where
  "split_off e len src = (if length src < len then Inl e else Inr (take len src, drop len src))"

definition take_le :: "'e \<Rightarrow> nat \<Rightarrow> bytes \<Rightarrow> 'e + 'a::len word \<times> bytes" where
  "take_le e n src = bind_res (split_off e n src) (\<lambda>(head, tail). Inr (from_le head, tail))"

lemma split_off_iff:
  "split_off e len src = Inr (h, t) \<longleftrightarrow> length h = len \<and> src = h @ t"
  by (auto simp: split_off_def)

lemma take_le_iff:
  assumes "LENGTH('a::len) = 8 * n"
  shows "take_le e n src = Inr (w :: 'a word, t) \<longleftrightarrow> src = to_le n w @ t"
  using assms by (auto simp: take_le_def split_off_iff)

lemma split_off_append [simp]: "length h = len \<Longrightarrow> split_off e len (h @ t) = Inr (h, t)"
  by (simp add: split_off_iff)

lemma take_le_append [simp]:
  "LENGTH('a::len) = 8 * n \<Longrightarrow> take_le e n (to_le n (w :: 'a word) @ t) = Inr (w, t)"
  by (simp add: take_le_iff)

lemma fixed_codec_take_le:
  "LENGTH('a::len) = 8 * n \<Longrightarrow> fixed_codec (to_le n) (take_le e n) (\<lambda>_ :: 'a word. True) n"
  by unfold_locales (auto simp: take_le_iff)

lemma fixed_codec_split_off: "fixed_codec (\<lambda>d. d) (split_off e n) (\<lambda>d. length d = n) n"
  by unfold_locales (auto simp: split_off_iff)

end
