(* ===== verification/Poseidon2b.thy ===== *)
theory Poseidon2b
  imports Hardware Codec
begin

text \<open>
  The Poseidon2b hash over \<open>GF(2^128)\<close> (\<open>noid_poseidon2b/src/native\<close> and
  \<open>primitives.rs\<close>): the permutation on the flat basis in its portable form, the
  byte sponge with its 32-byte rate buffer, the two-to-one compression, the
  domain tags and the typed hashes built on them.  The state of a sponge is the
  record \<open>sponge\<close>; its operations are shown to depend only on the sequence of
  bytes absorbed, never on how the callers split it.
\<close>

section \<open>The permutation\<close>

definition STATE_SIZE :: nat where "STATE_SIZE = 4"
definition F_ROUNDS :: nat where "F_ROUNDS = 8"
definition P_ROUNDS :: nat where "P_ROUNDS = 58"
definition N_ROUNDS :: nat where "N_ROUNDS = F_ROUNDS + P_ROUNDS"

definition ROUND_CONSTANTS :: "u128 list list" where
  "ROUND_CONSTANTS = [
    [0, 1, 0, 3, 7, 7, 6, 6, 2, 1, 7, 2, 2, 3, 3, 2, 6, 5, 7, 5, 0, 2,
     2, 3, 1, 5, 2, 6, 1, 4, 1, 0, 3, 7, 2, 0, 1, 2, 4, 1, 0, 0, 2, 5,
     7, 2, 0, 4, 1, 5, 5, 1, 2, 7, 3, 1, 0, 1, 3, 7, 1, 6, 1, 6, 6, 2],
    [3, 3, 0, 6, 7, 1, 1, 2, 7, 3, 7, 5, 7, 1, 7, 3, 6, 1, 7, 5, 5, 5,
     7, 1, 6, 5, 1, 2, 6, 3, 5, 4, 4, 6, 3, 2, 3, 0, 4, 1, 0, 6, 1, 7,
     6, 7, 1, 6, 4, 1, 4, 0, 4, 3, 4, 0, 3, 0, 0, 7, 3, 2, 3, 5, 0, 2],
    [6, 0, 5, 3, 2, 5, 6, 5, 6, 7, 2, 7, 6, 4, 1, 0, 6, 3, 2, 6, 2, 1,
     5, 3, 1, 7, 7, 6, 7, 1, 1, 4, 4, 4, 6, 2, 5, 4, 0, 3, 1, 4, 1, 6,
     1, 6, 7, 7, 6, 2, 7, 3, 3, 3, 0, 2, 6, 4, 0, 0, 0, 3, 1, 4, 1, 5],
    [7, 1, 1, 5, 1, 2, 2, 7, 5, 0, 5, 5, 1, 4, 6, 5, 2, 4, 0, 1, 0, 4,
     6, 4, 3, 7, 3, 2, 4, 0, 1, 6, 3, 3, 2, 6, 3, 4, 6, 3, 2, 3, 5, 1,
     1, 2, 4, 5, 5, 6, 0, 5, 5, 6, 4, 1, 2, 1, 5, 7, 1, 3, 1, 2, 2, 2]]"

definition MDS_FULL :: "u128 list list" where
  "MDS_FULL = [[5, 7, 1, 3], [4, 6, 1, 1], [1, 3, 5, 7], [1, 1, 4, 6]]"

definition MDS_PARTIAL :: "u128 list list" where
  "MDS_PARTIAL = [[0x20, 1, 1, 1], [1, 0x2000, 1, 1], [1, 1, 0x200, 1], [1, 1, 1, 0x800]]"

text \<open>\<open>FlatTables\<close>: the constants in the flat basis, with the flags of the unit entries.\<close>

record flat_tables =
  ft_rc :: "u128 list list"
  ft_mds_full :: "u128 list list"
  ft_mds_partial :: "u128 list list"
  ft_mds_full_is_one :: "bool list list"
  ft_mds_partial_is_one :: "bool list list"

definition the_flat_tables :: flat_tables where
  "the_flat_tables =
    \<lparr> ft_rc = map (map tower_to_flat_u128) ROUND_CONSTANTS,
      ft_mds_full = map (map tower_to_flat_u128) MDS_FULL,
      ft_mds_partial = map (map tower_to_flat_u128) MDS_PARTIAL,
      ft_mds_full_is_one = map (map (\<lambda>c. c = 1)) MDS_FULL,
      ft_mds_partial_is_one = map (map (\<lambda>c. c = 1)) MDS_PARTIAL \<rparr>"

text \<open>One row of \<open>apply_mds_full_flat\<close> and \<open>apply_mds_partial_flat\<close>.\<close>

definition mds_row :: "u128 list \<Rightarrow> bool list \<Rightarrow> u128 list \<Rightarrow> u128" where
  "mds_row row is_one input =
    fold (\<lambda>j out. if is_one ! j then out XOR input ! j
                   else out XOR clmul_gcm (input ! j) (row ! j)) [0..<STATE_SIZE] 0"

definition apply_mds_full_flat :: "u128 list \<Rightarrow> flat_tables \<Rightarrow> u128 list" where
  "apply_mds_full_flat state tables =
    map (\<lambda>i. mds_row (ft_mds_full tables ! i) (ft_mds_full_is_one tables ! i) state) [0..<STATE_SIZE]"

definition apply_mds_partial_flat :: "u128 list \<Rightarrow> flat_tables \<Rightarrow> u128 list" where
  "apply_mds_partial_flat state tables =
    map (\<lambda>i. mds_row (ft_mds_partial tables ! i) (ft_mds_partial_is_one tables ! i) state) [0..<STATE_SIZE]"

definition sbox_x7_flat_u128 :: "u128 \<Rightarrow> u128" where
  "sbox_x7_flat_u128 x =
    (let x2 = square_flat_u128 x;
         x4 = square_flat_u128 x2;
         x6 = clmul_gcm x x2
     in clmul_gcm x6 x4)"

definition permute_round :: "flat_tables \<Rightarrow> nat \<Rightarrow> u128 list \<Rightarrow> u128 list" where
  "permute_round tables r flat =
    (if \<not> (F_ROUNDS div 2 \<le> r \<and> r < F_ROUNDS div 2 + P_ROUNDS)
     then apply_mds_full_flat
            (map (\<lambda>i. sbox_x7_flat_u128 (flat ! i XOR ft_rc tables ! i ! r)) [0..<STATE_SIZE]) tables
     else apply_mds_partial_flat
            (flat[0 := sbox_x7_flat_u128 (flat ! 0 XOR ft_rc tables ! 0 ! r)]) tables)"

definition permute_flat_u128 :: "u128 list \<Rightarrow> u128 list" where
  "permute_flat_u128 flat =
    fold (permute_round the_flat_tables) [0..<N_ROUNDS] (apply_mds_full_flat flat the_flat_tables)"

definition permute_mut :: "u128 list \<Rightarrow> u128 list" where
  "permute_mut state =
    map flat_to_tower_u128 (permute_flat_u128 (map tower_to_flat_u128 state))"

section \<open>Domain tags\<close>

type_synonym domain_tag = bytes

definition ascii :: "string \<Rightarrow> bytes" where
  "ascii s = map of_char s"

definition tag_as_u64 :: "domain_tag \<Rightarrow> u64" where
  "tag_as_u64 tag = from_le (rev tag)"

definition capacity_iv :: "domain_tag \<Rightarrow> u128 \<times> u128" where
  "capacity_iv tag =
    (let label = (ucast (tag_as_u64 tag) :: u128)
     in (push_bit 64 label, label))"

definition TAG_COMMIT :: domain_tag where "TAG_COMMIT = ascii ''COMMIT__''"
definition TAG_ADDRFIX :: domain_tag where "TAG_ADDRFIX = ascii ''ADDRFIX_''"
definition TAG_TX8X2 :: domain_tag where "TAG_TX8X2 = ascii ''TX8X2___''"
definition TAG_TXROOT :: domain_tag where "TAG_TXROOT = ascii ''TXROOT__''"
definition TAG_BLOCKHDR :: domain_tag where "TAG_BLOCKHDR = ascii ''BLOCKHDR''"
definition TAG_POWHDR :: domain_tag where "TAG_POWHDR = ascii ''POWHDR__''"
definition TAG_SEMHDR :: domain_tag where "TAG_SEMHDR = ascii ''SEMHDR__''"
definition TAG_COMPRESS :: domain_tag where "TAG_COMPRESS = ascii ''COMPRESS''"
definition TAG_CLAIMS :: domain_tag where "TAG_CLAIMS = ascii ''CLAIMS__''"
definition TAG_EXSTSLT :: domain_tag where "TAG_EXSTSLT = ascii ''EXSTSLT_''"
definition TAG_EXSTNOD :: domain_tag where "TAG_EXSTNOD = ascii ''EXSTNOD_''"
definition TAG_BYTEHASH :: domain_tag where "TAG_BYTEHASH = ascii ''BYTEHASH''"
section \<open>The sponge\<close>

record sponge =
  sp_state :: "u128 list"
  sp_buffer :: bytes
  sp_filled :: nat

definition sponge_with_iv :: "u128 \<times> u128 \<Rightarrow> sponge" where
  "sponge_with_iv iv =
    \<lparr> sp_state = [0, 0, fst iv, snd iv], sp_buffer = replicate 32 0, sp_filled = 0 \<rparr>"

text \<open>\<open>buf[off..off + src.len()].copy_from_slice(src)\<close>.\<close>

definition copy_into :: "'a list \<Rightarrow> nat \<Rightarrow> 'a list \<Rightarrow> 'a list" where
  "copy_into buf off src = take off buf @ src @ drop (off + length src) buf"

definition permute_buffer :: "sponge \<Rightarrow> sponge" where
  "permute_buffer s =
    (let st = sp_state s;
         st = st[0 := st ! 0 XOR from_le (take 16 (sp_buffer s))];
         st = st[1 := st ! 1 XOR from_le (take 16 (drop 16 (sp_buffer s)))]
     in s\<lparr> sp_state := permute_mut st \<rparr>)"

fun chunks_exact :: "nat \<Rightarrow> 'a list \<Rightarrow> 'a list list" where
  "chunks_exact n xs =
    (if n = 0 \<or> length xs < n then [] else take n xs # chunks_exact n (drop n xs))"

definition chunks_remainder :: "nat \<Rightarrow> 'a list \<Rightarrow> 'a list" where
  "chunks_remainder n xs = drop (length xs div n * n) xs"

declare chunks_exact.simps [simp del]

definition sponge_update :: "sponge \<Rightarrow> bytes \<Rightarrow> sponge" where
  "sponge_update s data =
    (let (s, data) =
       (if sp_filled s \<noteq> 0 then
          let to_copy = min (length data) (32 - sp_filled s);
              s = s\<lparr> sp_buffer := copy_into (sp_buffer s) (sp_filled s) (take to_copy data) \<rparr>;
              data = drop to_copy data;
              s = s\<lparr> sp_filled := sp_filled s + to_copy \<rparr>
          in (if sp_filled s = 32 then (permute_buffer s)\<lparr> sp_filled := 0 \<rparr> else s, data)
        else (s, data));
       s = fold (\<lambda>chunk s. permute_buffer (s\<lparr> sp_buffer := chunk \<rparr>)) (chunks_exact 32 data) s;
       remaining = chunks_remainder 32 data
     in if remaining \<noteq> []
        then s\<lparr> sp_buffer := copy_into (sp_buffer s) 0 remaining, sp_filled := length remaining \<rparr>
        else s)"

definition absorb :: "u128 \<Rightarrow> sponge \<Rightarrow> sponge" where
  "absorb elem s = sponge_update s (to_le 16 elem)"

definition absorb_pair :: "u128 \<Rightarrow> u128 \<Rightarrow> sponge \<Rightarrow> sponge" where
  "absorb_pair a b s = sponge_update s (to_le 16 a @ to_le 16 b)"

text \<open>
  \<open>fill_padding\<close> writes \<open>0x80 0 ... 0 0x01\<close>, with both marks ORed together
  when a single byte is left.
\<close>

definition fill_padding :: "nat \<Rightarrow> bytes" where
  "fill_padding n =
    (let data = replicate n 0;
         data = data[0 := data ! 0 OR 0x80]
     in data[n - 1 := data ! (n - 1) OR 0x01])"

definition squeeze_32 :: "sponge \<Rightarrow> digest" where
  "squeeze_32 s = to_le 16 (sp_state s ! 0) @ to_le 16 (sp_state s ! 1)"

definition sponge_finalize :: "sponge \<Rightarrow> digest" where
  "sponge_finalize s =
    squeeze_32 (permute_buffer
      (s\<lparr> sp_buffer := copy_into (sp_buffer s) (sp_filled s) (fill_padding (32 - sp_filled s)) \<rparr>))"

text \<open>The \<open>debug_assert\<close> of \<open>finalize_no_pad\<close> is not part of a release build.\<close>

definition finalize_no_pad :: "sponge \<Rightarrow> digest" where
  "finalize_no_pad s = squeeze_32 s"

section \<open>Hashes built on the sponge\<close>

definition digest_fields :: "digest \<Rightarrow> u128 \<times> u128" where
  "digest_fields d = (from_le (take 16 d), from_le (drop 16 d))"

definition fields_to_digest :: "u128 \<times> u128 \<Rightarrow> digest" where
  "fields_to_digest f = to_le 16 (fst f) @ to_le 16 (snd f)"

definition compress_with_tag :: "domain_tag \<Rightarrow> digest \<Rightarrow> digest \<Rightarrow> digest" where
  "compress_with_tag tag a b =
    (let (a0, a1) = digest_fields a;
         (b0, b1) = digest_fields b;
         (iv_hi, iv_lo) = capacity_iv tag;
         state = permute_mut [a0, a1, iv_hi, iv_lo];
         state = state[0 := state ! 0 XOR b0];
         state = state[1 := state ! 1 XOR b1];
         state = permute_mut state
     in to_le 16 (state ! 0) @ to_le 16 (state ! 1))"

definition compress :: "digest \<Rightarrow> digest \<Rightarrow> digest" where
  "compress a b = compress_with_tag TAG_COMPRESS a b"

definition poseidon2b_hash_byte_slices :: "bytes \<Rightarrow> bytes list \<Rightarrow> digest" where
  "poseidon2b_hash_byte_slices domain pieces =
    (let s = sponge_with_iv (capacity_iv TAG_BYTEHASH);
         s = sponge_update s (to_le 8 (of_nat (length domain) :: u64));
         s = sponge_update s domain;
         s = sponge_update s (to_le 8 (of_nat (length pieces) :: u64));
         s = fold (\<lambda>piece s.
               sponge_update (sponge_update s (to_le 8 (of_nat (length piece) :: u64))) piece) pieces s
     in sponge_finalize s)"

definition hash_utxo_leaf :: "u128 \<Rightarrow> address \<Rightarrow> digest" where
  "hash_utxo_leaf v owner =
    (let (owner_hi, owner_lo) = digest_fields owner;
         s = sponge_with_iv (capacity_iv TAG_COMMIT)
     in sponge_finalize (absorb owner_lo (absorb owner_hi (absorb v s))))"

definition derive_address :: "bytes \<Rightarrow> address" where
  "derive_address secret =
    (let (a, b) = digest_fields secret
     in finalize_no_pad (absorb_pair a b (sponge_with_iv (capacity_iv TAG_ADDRFIX))))"

definition tx8x2_wrap :: "digest \<Rightarrow> digest" where
  "tx8x2_wrap root =
    (let (r0, r1) = digest_fields root;
         (iv_hi, iv_lo) = capacity_iv TAG_TX8X2;
         state = permute_mut [r0, r1, iv_hi, iv_lo]
     in to_le 16 (state ! 0) @ to_le 16 (state ! 1))"

text \<open>One level of a binary hash tree: adjacent pairs compressed.\<close>

fun pair_level :: "('a \<Rightarrow> 'a \<Rightarrow> 'a) \<Rightarrow> 'a list \<Rightarrow> 'a list" where
  "pair_level h (a # b # xs) = h a b # pair_level h xs"
| "pair_level h xs = []"

definition hash_tx8x2_leaves :: "(u128 \<times> u128) list \<Rightarrow> digest" where
  "hash_tx8x2_leaves leaves =
    tx8x2_wrap (((pair_level compress) ^^ 4) (map fields_to_digest leaves) ! 0)"

section \<open>The sponge absorbs a byte stream\<close>

definition wf_sponge :: "sponge \<Rightarrow> bool" where
  [wf_simps]: "wf_sponge s \<longleftrightarrow>
    length (sp_state s) = 4 \<and> length (sp_buffer s) = 32 \<and> sp_filled s < 32"

text \<open>The reference: one byte at a time, permuting whenever the rate block is full.\<close>

definition sponge_byte :: "u8 \<Rightarrow> sponge \<Rightarrow> sponge" where
  "sponge_byte b s =
    (let s = s\<lparr> sp_buffer := (sp_buffer s)[sp_filled s := b], sp_filled := Suc (sp_filled s) \<rparr>
     in if sp_filled s = 32 then (permute_buffer s)\<lparr> sp_filled := 0 \<rparr> else s)"

lemma length_permute_flat [simp]: "length (permute_flat_u128 st) = 4"
proof -
  have "length (fold (permute_round the_flat_tables) rs st') = 4" if "length st' = 4" for rs st'
    using that
  proof (induction rs arbitrary: st')
    case (Cons r rs)
    then show ?case
      by (simp add: permute_round_def apply_mds_full_flat_def apply_mds_partial_flat_def STATE_SIZE_def)
  qed simp
  then show ?thesis
    by (simp add: permute_flat_u128_def apply_mds_full_flat_def STATE_SIZE_def)
qed

lemma length_permute_mut [simp]: "length (permute_mut st) = 4"
  by (simp add: permute_mut_def)

lemma permute_buffer_fields [simp]:
  "sp_buffer (permute_buffer s) = sp_buffer s"
  "sp_filled (permute_buffer s) = sp_filled s"
  "length (sp_state (permute_buffer s)) = 4"
  by (simp_all add: permute_buffer_def Let_def)

lemma permute_buffer_filled:
  "permute_buffer (s\<lparr> sp_filled := k \<rparr>) = (permute_buffer s)\<lparr> sp_filled := k \<rparr>"
  by (simp add: permute_buffer_def Let_def)

lemma sponge_filled_idem: "sp_filled s = k \<Longrightarrow> s\<lparr> sp_filled := k \<rparr> = s"
  by auto

lemma length_copy_into [simp]:
  "off + length src \<le> length buf \<Longrightarrow> length (copy_into buf off src) = length buf"
  by (simp add: copy_into_def)

lemma copy_into_Nil [simp]: "copy_into buf off [] = buf"
  by (simp add: copy_into_def)

lemma copy_into_Cons:
  "off + length src < length buf \<Longrightarrow>
    copy_into (buf[off := b]) (Suc off) src = copy_into buf off (b # src)"
  by (simp add: copy_into_def take_Suc_conv_app_nth take_update_swap list_update_append)

lemma copy_into_snoc:
  assumes "off + length src < length buf"
  shows "(copy_into buf off src)[off + length src := b] = copy_into buf off (src @ [b])"
proof -
  have "drop (off + length src) buf = buf ! (off + length src) # drop (Suc (off + length src)) buf"
    using assms by (simp add: Cons_nth_drop_Suc)
  then show ?thesis using assms by (simp add: copy_into_def list_update_append)
qed

lemma copy_into_whole: "length src = length buf \<Longrightarrow> copy_into buf 0 src = src"
  by (simp add: copy_into_def)

lemma fold_sponge_byte_short:
  assumes "length (sp_buffer s) = 32" "sp_filled s + length d < 32"
  shows "fold sponge_byte d s =
    s\<lparr> sp_buffer := copy_into (sp_buffer s) (sp_filled s) d, sp_filled := sp_filled s + length d \<rparr>"
  using assms
proof (induction d arbitrary: s)
  case (Cons b d)
  then show ?case by (simp add: sponge_byte_def Let_def copy_into_Cons)
qed simp

lemma fold_sponge_byte_fill:
  assumes "length (sp_buffer s) = 32" "sp_filled s + length d = 32" "d \<noteq> []"
  shows "fold sponge_byte d s =
    (permute_buffer (s\<lparr> sp_buffer := copy_into (sp_buffer s) (sp_filled s) d \<rparr>))\<lparr> sp_filled := 0 \<rparr>"
proof -
  obtain init b where d: "d = init @ [b]" using assms(3) by (cases d rule: rev_cases) auto
  let ?t = "s\<lparr> sp_buffer := copy_into (sp_buffer s) (sp_filled s) init,
                sp_filled := sp_filled s + length init \<rparr>"
  have init: "fold sponge_byte init s = ?t"
    by (rule fold_sponge_byte_short) (use assms d in auto)
  have len: "sp_filled s + length init = 31" using assms(2) d by simp
  have "(copy_into (sp_buffer s) (sp_filled s) init)[31 := b] = copy_into (sp_buffer s) (sp_filled s) d"
    using copy_into_snoc[of "sp_filled s" init "sp_buffer s" b] assms(1) len d by simp
  then show ?thesis
    by (simp add: d init) (simp add: sponge_byte_def Let_def len permute_buffer_filled)
qed

lemma chunks_remainder_simps:
  "length xs < 32 \<Longrightarrow> chunks_remainder 32 xs = xs"
  "32 \<le> length xs \<Longrightarrow> chunks_remainder 32 xs = chunks_remainder 32 (drop 32 xs)"
  by (simp_all add: chunks_remainder_def le_div_geq add.commute)

lemma sponge_blocks_bytewise:
  assumes "length (sp_buffer s) = 32" "sp_filled s = 0"
  shows "(let s = fold (\<lambda>chunk s. permute_buffer (s\<lparr> sp_buffer := chunk \<rparr>)) (chunks_exact 32 data) s;
              remaining = chunks_remainder 32 data
          in if remaining \<noteq> []
             then s\<lparr> sp_buffer := copy_into (sp_buffer s) 0 remaining, sp_filled := length remaining \<rparr>
             else s) = fold sponge_byte data s"
  using assms
proof (induction data arbitrary: s rule: length_induct)
  case (1 data)
  show ?case
  proof (cases "length data < 32")
    case True
    have "fold sponge_byte data s = s\<lparr> sp_buffer := copy_into (sp_buffer s) 0 data, sp_filled := length data \<rparr>"
      using fold_sponge_byte_short[of s data] True 1(2,3) by simp
    then show ?thesis using True 1(2,3)
      by (auto simp: chunks_exact.simps[of 32 data] chunks_remainder_simps)
  next
    case False
    let ?t = "permute_buffer (s\<lparr> sp_buffer := take 32 data \<rparr>)"
    have "data \<noteq> []" using False by auto
    then have "fold sponge_byte (take 32 data) s = ?t\<lparr> sp_filled := 0 \<rparr>"
      using fold_sponge_byte_fill[of s "take 32 data"] False 1(2,3) by (simp add: copy_into_whole)
    also have "\<dots> = ?t" by (rule sponge_filled_idem) (use 1(3) in simp)
    finally have head: "fold sponge_byte (take 32 data) s = ?t" .
    have "fold sponge_byte data s = fold sponge_byte (drop 32 data) (fold sponge_byte (take 32 data) s)"
      by (metis append_take_drop_id fold_append o_apply)
    then have "fold sponge_byte data s = fold sponge_byte (drop 32 data) ?t" by (simp only: head)
    then show ?thesis
      using 1(1)[rule_format, of "drop 32 data" ?t] False 1(2,3)
      by (simp add: chunks_exact.simps[of 32 data] chunks_remainder_simps(2)[of data])
  qed
qed

lemma sponge_update_bytewise:
  assumes "wf_sponge s"
  shows "sponge_update s data = fold sponge_byte data s"
proof (cases "sp_filled s = 0")
  case True
  then show ?thesis
    using sponge_blocks_bytewise[of s data] assms by (simp add: sponge_update_def wf_sponge_def)
next
  case False
  have len: "length (sp_buffer s) = 32" "sp_filled s < 32" using assms by (auto simp: wf_sponge_def)
  show ?thesis
  proof (cases "sp_filled s + length data < 32")
    case True
    then show ?thesis
      using fold_sponge_byte_short[OF len(1) True] False
      by (simp add: sponge_update_def Let_def chunks_exact.simps[of 32 "[]"] chunks_remainder_def)
  next
    case over: False
    let ?n = "32 - sp_filled s"
    let ?t = "(permute_buffer (s\<lparr> sp_buffer := copy_into (sp_buffer s) (sp_filled s) (take ?n data) \<rparr>))\<lparr> sp_filled := 0 \<rparr>"
    have head: "fold sponge_byte (take ?n data) s = ?t"
      by (rule fold_sponge_byte_fill) (use len over in auto)
    have "fold sponge_byte data s = fold sponge_byte (drop ?n data) (fold sponge_byte (take ?n data) s)"
      by (metis append_take_drop_id fold_append o_apply)
    then have split: "fold sponge_byte data s = fold sponge_byte (drop ?n data) ?t" by (simp only: head)
    have m: "min (length data) ?n = ?n" using over by simp
    have "length (sp_buffer ?t) = 32" using len over by simp
    then have "fold sponge_byte (drop ?n data) ?t = sponge_update s data"
      using sponge_blocks_bytewise[of ?t "drop ?n data"] False len over
      by (simp add: sponge_update_def Let_def permute_buffer_filled m)
    then show ?thesis by (simp only: split)
  qed
qed

lemma wf_sponge_byte [simp]: "wf_sponge s \<Longrightarrow> wf_sponge (sponge_byte b s)"
  by (auto simp: wf_sponge_def sponge_byte_def Let_def)

lemma wf_fold_sponge_byte [simp]: "wf_sponge s \<Longrightarrow> wf_sponge (fold sponge_byte d s)"
  by (induction d arbitrary: s) simp_all

lemma wf_sponge_with_iv [simp]: "wf_sponge (sponge_with_iv iv)"
  by (simp add: wf_sponge_def sponge_with_iv_def)

lemma absorb_bytewise:
  "wf_sponge s \<Longrightarrow> absorb x s = fold sponge_byte (to_le 16 x) s"
  "wf_sponge s \<Longrightarrow> absorb_pair x y s = fold sponge_byte (to_le 16 x @ to_le 16 y) s"
  by (simp_all add: absorb_def absorb_pair_def sponge_update_bytewise)

text \<open>The hash of a byte string under a domain tag, in reference form.\<close>

definition sponge_hash :: "domain_tag \<Rightarrow> bytes \<Rightarrow> digest" where
  "sponge_hash tag bs = sponge_finalize (fold sponge_byte bs (sponge_with_iv (capacity_iv tag)))"

lemma length_squeeze_32 [simp]: "length (squeeze_32 s) = 32"
  by (simp add: squeeze_32_def)

lemma length_sponge_finalize [simp]: "length (sponge_finalize s) = 32"
  by (simp add: sponge_finalize_def)

lemma length_compress_with_tag [simp]: "length (compress_with_tag tag a b) = 32"
  by (simp add: compress_with_tag_def Let_def split: prod.split)

lemma fields_to_digest_inverse [simp]:
  "length d = 32 \<Longrightarrow> fields_to_digest (digest_fields d) = d"
  by (simp add: fields_to_digest_def digest_fields_def)

lemma digest_fields_inverse [simp]: "digest_fields (fields_to_digest f) = f"
  by (simp add: fields_to_digest_def digest_fields_def)

end
