(* ===== verification/Tx.thy ===== *)
theory Tx
  imports Poseidon2b
begin

text \<open>
  The one transaction form of the chain, \<open>Tx8x2\<close>: eight possible spends and two
  possible outputs selected by a validity bitmap (\<open>noid_tx/src/types.rs\<close>), the
  canonical-body checks shared by every consumer (\<open>public_logic.rs\<close>), the leaves
  of the transaction id (\<open>body_hash.rs\<close>), the claims commitment
  (\<open>claims.rs\<close>) and the owner authorization statement (\<open>owner_auth.rs\<close>).  The
  checks are shown to accept exactly the canonical bodies: dead lanes zero, live
  slots pairwise distinct, and inputs equal to outputs plus fee over the naturals.
\<close>

section \<open>Types\<close>

definition TX_INPUTS :: nat where "TX_INPUTS = 8"
definition TX_OUTPUTS :: nat where "TX_OUTPUTS = 2"
definition TX_VALIDITY_MASK :: u16 where "TX_VALIDITY_MASK = 0x3FF"

definition output_bitmap_bit :: "nat \<Rightarrow> u16" where
  "output_bitmap_bit index = push_bit (TX_INPUTS + index) 1"

definition pack_amount_creation_id :: "u64 \<Rightarrow> u64 \<Rightarrow> u128" where
  "pack_amount_creation_id amount creation_id =
    push_bit 64 (ucast creation_id) OR ucast amount"

definition unpack_amount_creation_id :: "u128 \<Rightarrow> u64 \<times> u64" where
  "unpack_amount_creation_id packed = (ucast packed, ucast (drop_bit 64 packed))"

record tx_input =
  in_slot_index :: u32
  in_amount :: u64
  in_creation_id :: u64

record tx_output =
  out_slot_index :: u32
  out_amount :: u64
  out_owner :: address

definition dummy_input :: tx_input where
  "dummy_input = \<lparr> in_slot_index = 0, in_amount = 0, in_creation_id = 0 \<rparr>"

definition dummy_output :: tx_output where
  "dummy_output = \<lparr> out_slot_index = 0, out_amount = 0, out_owner = zero_digest \<rparr>"

record tx_body =
  epoch_anchor :: digest
  fee :: u64
  input_owner :: address
  inputs :: "tx_input list"
  outputs :: "tx_output list"
  validity_bitmap :: u16
  is_coinbase :: bool

definition is_primary_coinbase_shape :: "tx_body \<Rightarrow> bool" where
  "is_primary_coinbase_shape body \<longleftrightarrow>
    is_coinbase body \<and> validity_bitmap body = output_bitmap_bit 0"

definition is_development_payout_shape :: "tx_body \<Rightarrow> bool" where
  "is_development_payout_shape body \<longleftrightarrow>
    is_coinbase body \<and> validity_bitmap body = output_bitmap_bit 0 OR output_bitmap_bit 1"

definition input_is_live :: "tx_body \<Rightarrow> nat \<Rightarrow> bool" where
  "input_is_live body index \<longleftrightarrow>
    index < TX_INPUTS \<and> validity_bitmap body AND push_bit index 1 \<noteq> 0"

definition output_is_live :: "tx_body \<Rightarrow> nat \<Rightarrow> bool" where
  "output_is_live body index \<longleftrightarrow>
    index < TX_OUTPUTS \<and> validity_bitmap body AND output_bitmap_bit index \<noteq> 0"

definition live_inputs :: "tx_body \<Rightarrow> (nat \<times> tx_input) list" where
  "live_inputs body = filter (\<lambda>(index, _). input_is_live body index) (enumerate 0 (inputs body))"

definition live_outputs :: "tx_body \<Rightarrow> (nat \<times> tx_output) list" where
  "live_outputs body = filter (\<lambda>(index, _). output_is_live body index) (enumerate 0 (outputs body))"

definition count_ones :: "'a::len word \<Rightarrow> nat" where
  "count_ones w = length (filter (bit w) [0..<LENGTH('a)])"

definition live_input_count :: "tx_body \<Rightarrow> nat" where
  "live_input_count body = count_ones (validity_bitmap body AND 0x00ff)"

definition live_output_count :: "tx_body \<Rightarrow> nat" where
  "live_output_count body = count_ones (drop_bit TX_INPUTS (validity_bitmap body) AND 0x0003)"

section \<open>Canonical-body checks\<close>

datatype public_logic_error =
    Coinbase
  | BitmapHighBits u16
  | DeadInputNotZero nat
  | DeadOutputNotZero nat
  | NoLiveInputs
  | CoinbaseInputOwner
  | CoinbaseBitmap u16
  | DuplicateInputSlot u32
  | DuplicateOutputSlot u32
  | InputOutputSlotOverlap u32
  | InputSumOverflow
  | OutputSumOverflow
  | OutputPlusFeeOverflow
  | BalanceMismatch u128 u128 u64

text \<open>The two loops of \<open>unique_slots\<close>; the hash sets are sets of slots.\<close>

primrec unique_input_slots :: "(nat \<times> tx_input) list \<Rightarrow> u32 set \<Rightarrow> public_logic_error + u32 set" where
  "unique_input_slots [] seen = Inr seen"
| "unique_input_slots (x # xs) seen =
    (let slot = in_slot_index (snd x)
     in if slot \<in> seen then Inl (DuplicateInputSlot slot)
        else unique_input_slots xs (insert slot seen))"

primrec unique_output_slots ::
  "(nat \<times> tx_output) list \<Rightarrow> u32 set \<Rightarrow> u32 set \<Rightarrow> public_logic_error + unit" where
  "unique_output_slots [] ins seen = Inr ()"
| "unique_output_slots (x # xs) ins seen =
    (let slot = out_slot_index (snd x)
     in if slot \<in> seen then Inl (DuplicateOutputSlot slot)
        else if slot \<in> ins then Inl (InputOutputSlotOverlap slot)
        else unique_output_slots xs ins (insert slot seen))"

definition unique_slots :: "tx_body \<Rightarrow> public_logic_error + unit" where
  "unique_slots body =
    bind_res (unique_input_slots (live_inputs body) {}) (\<lambda>ins.
    unique_output_slots (live_outputs body) ins {})"

definition sums :: "tx_body \<Rightarrow> public_logic_error + (u8 \<times> u8 \<times> u128 \<times> u128)" where
  "sums body =
    bind_res (ok_or InputSumOverflow
      (checked_sum 0 (map (\<lambda>x. ucast (in_amount (snd x))) (live_inputs body)))) (\<lambda>input_sum.
    bind_res (ok_or OutputSumOverflow
      (checked_sum 0 (map (\<lambda>x. ucast (out_amount (snd x))) (live_outputs body)))) (\<lambda>output_sum.
    Inr (of_nat (live_input_count body), of_nat (live_output_count body), input_sum, output_sum)))"

definition validate_body_semantics_no_hash :: "tx_body \<Rightarrow> public_logic_error + unit" where
  "validate_body_semantics_no_hash body =
    (if validity_bitmap body AND NOT TX_VALIDITY_MASK \<noteq> 0
     then Inl (BitmapHighBits (validity_bitmap body))
     else
     case find (\<lambda>(index, i). \<not> input_is_live body index \<and> i \<noteq> dummy_input)
            (enumerate 0 (inputs body)) of
       Some (index, _) \<Rightarrow> Inl (DeadInputNotZero index)
     | None \<Rightarrow>
     case find (\<lambda>(index, o'). \<not> output_is_live body index \<and> o' \<noteq> dummy_output)
            (enumerate 0 (outputs body)) of
       Some (index, _) \<Rightarrow> Inl (DeadOutputNotZero index)
     | None \<Rightarrow>
     if is_coinbase body then
       if input_owner body \<noteq> zero_digest then Inl CoinbaseInputOwner
       else
         let primary = output_bitmap_bit 0;
             development = output_bitmap_bit 0 OR output_bitmap_bit 1
         in if \<not> (validity_bitmap body = primary \<or> validity_bitmap body = development) \<or> fee body \<noteq> 0
            then Inl (CoinbaseBitmap (validity_bitmap body))
            else unique_slots body
     else if live_input_count body = 0 then Inl NoLiveInputs
     else
       bind_res (unique_slots body) (\<lambda>_.
       bind_res (sums body) (\<lambda>(_, _, input_sum, output_sum).
       bind_res (ok_or OutputPlusFeeOverflow (checked_add output_sum (ucast (fee body)))) (\<lambda>expected.
       if input_sum \<noteq> expected then Inl (BalanceMismatch input_sum output_sum (fee body))
       else Inr ()))))"

section \<open>Transaction id, claims commitment and owner authorization\<close>

text \<open>
  The sixteen leaves \<open>L0..L15\<close>: anchor, fee, input owner, eight inputs, two
  data/owner pairs of the outputs, flags.
\<close>

definition body_hash_leaves :: "tx_body \<Rightarrow> (u128 \<times> u128) list" where
  "body_hash_leaves body =
    [digest_fields (epoch_anchor body), (ucast (fee body), 0), digest_fields (input_owner body)] @
    map (\<lambda>i. (ucast (in_slot_index i), pack_amount_creation_id (in_amount i) (in_creation_id i)))
      (inputs body) @
    concat (map (\<lambda>o'. [(ucast (out_slot_index o'), ucast (out_amount o')),
                        digest_fields (out_owner o')]) (outputs body)) @
    [(ucast (validity_bitmap body), of_bool (is_coinbase body))]"

definition hash_tx_body :: "tx_body \<Rightarrow> digest" where
  "hash_tx_body body = hash_tx8x2_leaves (body_hash_leaves body)"

definition txid :: "tx_body \<Rightarrow> digest" where
  "txid body = hash_tx_body body"

definition compute_claims_commitment :: "tx_body \<Rightarrow> digest" where
  "compute_claims_commitment body =
    (let s = sponge_with_iv (capacity_iv TAG_CLAIMS);
         s = absorb (ucast (validity_bitmap body)) s;
         (input_owner_hi, input_owner_lo) = digest_fields (input_owner body);
         s = absorb_pair input_owner_hi input_owner_lo s;
         s = fold (\<lambda>(index, i) s.
               absorb (pack_amount_creation_id (in_amount i) (in_creation_id i))
                 (absorb_pair (of_nat index) (ucast (in_slot_index i)) s)) (live_inputs body) s;
         s = fold (\<lambda>(index, o') s.
               let (owner_hi, owner_lo) = digest_fields (out_owner o')
               in absorb_pair owner_hi owner_lo
                    (absorb (ucast (out_amount o'))
                      (absorb_pair (of_nat (TX_INPUTS + index)) (ucast (out_slot_index o')) s)))
               (live_outputs body) s
     in sponge_finalize s)"

record public_logic_facts =
  tx_body_hash :: digest
  fee_u64 :: u64
  n_live_inputs :: u8
  n_live_outputs :: u8
  input_sum :: u128
  output_sum :: u128

definition validate_public_tx_logic :: "tx_body \<Rightarrow> public_logic_error + public_logic_facts" where
  "validate_public_tx_logic body =
    (if is_coinbase body then Inl Coinbase
     else
       bind_res (validate_body_semantics_no_hash body) (\<lambda>_.
       bind_res (sums body) (\<lambda>(n_in, n_out, in_sum, out_sum).
       Inr \<lparr> tx_body_hash = txid body, fee_u64 = fee body, n_live_inputs = n_in,
             n_live_outputs = n_out, input_sum = in_sum, output_sum = out_sum \<rparr>)))"

record canonical_owner_auth_statement =
  auth_tx_body_hash :: digest
  auth_input_owner :: address

datatype owner_auth_error = PublicLogic public_logic_error

definition canonical_owner_auth ::
  "tx_body \<Rightarrow> owner_auth_error + canonical_owner_auth_statement" where
  "canonical_owner_auth body =
    bind_res (map_err PublicLogic (validate_public_tx_logic body)) (\<lambda>facts.
    Inr \<lparr> auth_tx_body_hash = tx_body_hash facts, auth_input_owner = input_owner body \<rparr>)"

section \<open>What the checks accept\<close>

definition wf_output :: "tx_output \<Rightarrow> bool" where
  [wf_simps]: "wf_output o' \<longleftrightarrow> wf_digest (out_owner o')"

definition wf_body :: "tx_body \<Rightarrow> bool" where
  [wf_simps]: "wf_body body \<longleftrightarrow>
    wf_digest (epoch_anchor body) \<and> wf_digest (input_owner body) \<and>
    length (inputs body) = TX_INPUTS \<and>
    length (outputs body) = TX_OUTPUTS \<and> list_all wf_output (outputs body)"

definition live_input_slots :: "tx_body \<Rightarrow> u32 list" where
  "live_input_slots body = map (\<lambda>x. in_slot_index (snd x)) (live_inputs body)"

definition live_output_slots :: "tx_body \<Rightarrow> u32 list" where
  "live_output_slots body = map (\<lambda>x. out_slot_index (snd x)) (live_outputs body)"

definition input_total :: "tx_body \<Rightarrow> nat" where
  "input_total body = sum_list (map (\<lambda>x. unat (in_amount (snd x))) (live_inputs body))"

definition output_total :: "tx_body \<Rightarrow> nat" where
  "output_total body = sum_list (map (\<lambda>x. unat (out_amount (snd x))) (live_outputs body))"

text \<open>The specification of a canonical body.\<close>

definition dead_lanes_zero :: "tx_body \<Rightarrow> bool" where
  "dead_lanes_zero body \<longleftrightarrow>
    (\<forall>i < TX_INPUTS. \<not> input_is_live body i \<longrightarrow> inputs body ! i = dummy_input) \<and>
    (\<forall>i < TX_OUTPUTS. \<not> output_is_live body i \<longrightarrow> outputs body ! i = dummy_output)"

definition canonical_mint :: "tx_body \<Rightarrow> bool" where
  "canonical_mint body \<longleftrightarrow>
    input_owner body = zero_digest \<and> live_inputs body = [] \<and> output_is_live body 0 \<and> fee body = 0"

definition canonical_spend :: "tx_body \<Rightarrow> bool" where
  "canonical_spend body \<longleftrightarrow>
    live_inputs body \<noteq> [] \<and> input_total body = output_total body + unat (fee body)"

definition canonical_body :: "tx_body \<Rightarrow> bool" where
  "canonical_body body \<longleftrightarrow>
    (\<forall>i. bit (validity_bitmap body) i \<longrightarrow> i < TX_INPUTS + TX_OUTPUTS) \<and>
    dead_lanes_zero body \<and>
    distinct (live_input_slots body @ live_output_slots body) \<and>
    (if is_coinbase body then canonical_mint body else canonical_spend body)"

lemma input_is_live_iff: "input_is_live body i \<longleftrightarrow> i < 8 \<and> bit (validity_bitmap body) i"
  by (simp only: input_is_live_def and_push_bit_one_iff TX_INPUTS_def)

lemma output_is_live_iff: "output_is_live body i \<longleftrightarrow> i < 2 \<and> bit (validity_bitmap body) (8 + i)"
  by (simp only: output_is_live_def output_bitmap_bit_def and_push_bit_one_iff TX_INPUTS_def TX_OUTPUTS_def)

lemma high_bits_clear_iff:
  "(bm :: u16) AND NOT TX_VALIDITY_MASK = 0 \<longleftrightarrow> (\<forall>i. bit bm i \<longrightarrow> i < 10)"
proof -
  have mask: "TX_VALIDITY_MASK = mask 10" by (simp add: TX_VALIDITY_MASK_def mask_eq_exp_minus_1)
  have "bm AND NOT (mask 10) = 0 \<longleftrightarrow> (\<forall>i < 16. bit bm i \<longrightarrow> i < 10)"
    unfolding bit_eq_iff by (auto simp: bit_simps)
  then show ?thesis
    unfolding mask using bit_imp_le_length[of bm] by fastforce
qed

lemma bit_output_bitmap_bit:
  "bit (output_bitmap_bit k) i \<longleftrightarrow> i = 8 + k \<and> k < 8"
  unfolding output_bitmap_bit_def TX_INPUTS_def
  by (auto simp: bit_push_bit_iff bit_1_iff simp del: push_bit_numeral push_bit_of_1 push_bit_numeral_minus_1)

lemma mint_bitmap_iff:
  assumes "\<forall>i. bit (bm :: u16) i \<longrightarrow> i < 10"
  shows "bm = output_bitmap_bit 0 \<or> bm = output_bitmap_bit 0 OR output_bitmap_bit 1 \<longleftrightarrow>
    (\<forall>i < 8. \<not> bit bm i) \<and> bit bm 8"
proof
  assume low: "(\<forall>i < 8. \<not> bit bm i) \<and> bit bm 8"
  define nine where "nine = bit bm 9"
  have bits: "bit bm i \<longleftrightarrow> i = 8 \<or> (i = 9 \<and> nine)" for i
  proof (cases "i < 10")
    case True
    then have "i < 8 \<or> i = 8 \<or> i = 9" by linarith
    then show ?thesis using low nine_def by auto
  qed (use assms in auto)
  have "bm = (if nine then output_bitmap_bit 0 OR output_bitmap_bit 1 else output_bitmap_bit 0)"
    by (intro bit_word_eqI) (auto simp: bits bit_or_iff bit_output_bitmap_bit)
  then show "bm = output_bitmap_bit 0 \<or> bm = output_bitmap_bit 0 OR output_bitmap_bit 1"
    by (auto split: if_splits)
qed (auto simp: bit_or_iff bit_output_bitmap_bit)

lemma count_ones_eq_0_iff: "count_ones (w :: 'a::len word) = 0 \<longleftrightarrow> w = 0"
  by (auto simp: count_ones_def filter_empty_conv intro!: bit_word_eqI)

lemma live_inputs_Nil_iff:
  "length (inputs body) = 8 \<Longrightarrow> live_inputs body = [] \<longleftrightarrow> (\<forall>i < 8. \<not> bit (validity_bitmap body) i)"
  by (auto simp: live_inputs_def filter_empty_conv in_set_enumerate_eq input_is_live_iff)

lemma live_input_count_0_iff:
  "live_input_count body = 0 \<longleftrightarrow> (\<forall>i < 8. \<not> bit (validity_bitmap body) i)"
proof -
  have mask: "(0x00ff :: u16) = mask 8" by (simp add: mask_eq_exp_minus_1)
  show ?thesis
    unfolding live_input_count_def count_ones_eq_0_iff mask
    by (subst bit_eq_iff) (auto simp: bit_simps, metis less_trans numeral_less_iff
        semiring_norm(76) semiring_norm(78) semiring_norm(79))
qed

lemma unique_input_slots_iff:
  "unique_input_slots xs seen = Inr s \<longleftrightarrow>
    distinct (map (\<lambda>x. in_slot_index (snd x)) xs) \<and>
    set (map (\<lambda>x. in_slot_index (snd x)) xs) \<inter> seen = {} \<and>
    s = set (map (\<lambda>x. in_slot_index (snd x)) xs) \<union> seen"
  by (induction xs arbitrary: seen) (auto simp: Let_def simp del: split_paired_All split_paired_Ex)

lemma unique_output_slots_iff:
  "unique_output_slots xs ins seen = Inr () \<longleftrightarrow>
    distinct (map (\<lambda>x. out_slot_index (snd x)) xs) \<and>
    set (map (\<lambda>x. out_slot_index (snd x)) xs) \<inter> (seen \<union> ins) = {}"
  by (induction xs arbitrary: seen) (auto simp: Let_def simp del: split_paired_All split_paired_Ex)

lemma unique_slots_iff:
  "unique_slots body = Inr () \<longleftrightarrow> distinct (live_input_slots body @ live_output_slots body)"
  unfolding unique_slots_def live_input_slots_def live_output_slots_def
  by (simp add: unique_input_slots_iff unique_output_slots_iff Int_commute conj_ac)

lemma length_live_inputs: "length (live_inputs body) \<le> length (inputs body)"
  unfolding live_inputs_def by (metis length_enumerate length_filter_le)

lemma length_live_outputs: "length (live_outputs body) \<le> length (outputs body)"
  unfolding live_outputs_def by (metis length_enumerate length_filter_le)

lemma u64_le: "unat (x :: u64) \<le> 2 ^ 64 - 1"
  using unat_le_pow[of x] by simp

lemma input_total_bound: "length (inputs body) = 8 \<Longrightarrow> input_total body \<le> 8 * (2 ^ 64 - 1)"
  unfolding input_total_def
  by (rule order_trans[OF sum_list_bounded[where b = "2 ^ 64 - 1"]])
    (use length_live_inputs[of body] u64_le in auto)

lemma output_total_bound: "length (outputs body) = 2 \<Longrightarrow> output_total body \<le> 2 * (2 ^ 64 - 1)"
  unfolding output_total_def
  by (rule order_trans[OF sum_list_bounded[where b = "2 ^ 64 - 1"]])
    (use length_live_outputs[of body] u64_le in auto)

text \<open>On the fixed arity the sums never overflow.\<close>

lemma sums_total:
  assumes "wf_body body"
  obtains ni no si so where "sums body = Inr (ni, no, si, so)"
    "unat si = input_total body" "unat so = output_total body"
proof -
  let ?ins = "map (\<lambda>x. ucast (in_amount (snd x)) :: u128) (live_inputs body)"
  let ?outs = "map (\<lambda>x. ucast (out_amount (snd x)) :: u128) (live_outputs body)"
  have ins: "sum_list (map unat ?ins) = input_total body"
    and outs: "sum_list (map unat ?outs) = output_total body"
    by (simp_all add: input_total_def output_total_def o_def)
  have bounds: "input_total body < 2 ^ 128" "output_total body < 2 ^ 128"
    using input_total_bound[of body] output_total_bound[of body] assms
    by (auto simp: wf_body_def TX_INPUTS_def TX_OUTPUTS_def intro: le_less_trans)
  have "unat (0 :: u128) + sum_list (map unat ?ins) < 2 ^ LENGTH(128)"
    using bounds ins by simp
  then obtain si where si: "checked_sum 0 ?ins = Some si"
      "unat si = unat (0 :: u128) + sum_list (map unat ?ins)"
    by (rule checked_sum_fits)
  have "unat (0 :: u128) + sum_list (map unat ?outs) < 2 ^ LENGTH(128)"
    using bounds outs by simp
  then obtain so where so: "checked_sum 0 ?outs = Some so"
      "unat so = unat (0 :: u128) + sum_list (map unat ?outs)"
    by (rule checked_sum_fits)
  have "unat si = input_total body" "unat so = output_total body"
    by (simp_all only: si(2) so(2) ins outs unat_0 add_0)
  moreover have "sums body = Inr (of_nat (live_input_count body), of_nat (live_output_count body), si, so)"
    by (simp only: sums_def si(1) so(1) ok_or.simps bind_res.simps)
  ultimately show ?thesis using that by blast
qed

lemma spend_balance_iff:
  assumes "wf_body body"
  shows "bind_res (sums body) (\<lambda>(_, _, si, so).
      bind_res (ok_or OutputPlusFeeOverflow (checked_add so (ucast (fee body)))) (\<lambda>expected.
      if si \<noteq> expected then Inl (BalanceMismatch si so (fee body)) else Inr ())) = Inr () \<longleftrightarrow>
    input_total body = output_total body + unat (fee body)"
proof -
  obtain ni no si so where s: "sums body = Inr (ni, no, si, so)"
    "unat si = input_total body" "unat so = output_total body"
    using sums_total[OF assms] .
  have "checked_add so (ucast (fee body)) = Some e \<longleftrightarrow> unat e = output_total body + unat (fee body)" for e
    by (simp add: checked_add_Some_iff s)
  then show ?thesis
    using s by (auto split: if_splits)
qed

lemma dead_lanes_zero_find:
  assumes "wf_body body"
  shows "dead_lanes_zero body \<longleftrightarrow>
    find (\<lambda>(index, i). \<not> input_is_live body index \<and> i \<noteq> dummy_input) (enumerate 0 (inputs body)) = None \<and>
    find (\<lambda>(index, o'). \<not> output_is_live body index \<and> o' \<noteq> dummy_output) (enumerate 0 (outputs body)) = None"
  using assms by (auto simp: find_None_enumerate dead_lanes_zero_def wf_body_def)

lemma canonical_mint_iff:
  assumes "wf_body body" "\<forall>i. bit (validity_bitmap body) i \<longrightarrow> i < 10"
  shows "canonical_mint body \<longleftrightarrow> input_owner body = zero_digest \<and> fee body = 0 \<and>
    (validity_bitmap body = output_bitmap_bit 0 \<or>
     validity_bitmap body = output_bitmap_bit 0 OR output_bitmap_bit 1)"
proof -
  have "live_inputs body = [] \<longleftrightarrow> (\<forall>i < 8. \<not> bit (validity_bitmap body) i)"
    by (rule live_inputs_Nil_iff) (use assms in \<open>simp add: wf_body_def TX_INPUTS_def\<close>)
  then show ?thesis
    unfolding canonical_mint_def mint_bitmap_iff[OF assms(2)] output_is_live_iff by auto
qed

lemma bind_res_unit_iff:
  "bind_res r (\<lambda>_. k) = Inr y \<longleftrightarrow> r = Inr () \<and> k = Inr y"
  by (cases r) auto

lemma validate_canonical_body_iff:
  assumes "wf_body body"
  shows "validate_body_semantics_no_hash body = Inr () \<longleftrightarrow> canonical_body body"
proof (cases "validity_bitmap body AND NOT TX_VALIDITY_MASK \<noteq> 0 \<or> \<not> dead_lanes_zero body")
  case True
  then have "validate_body_semantics_no_hash body \<noteq> Inr ()"
    using dead_lanes_zero_find[OF assms]
    by (auto simp: validate_body_semantics_no_hash_def split: option.splits)
  moreover have "\<not> canonical_body body"
    using True high_bits_clear_iff[of "validity_bitmap body"]
    by (auto simp: canonical_body_def TX_INPUTS_def TX_OUTPUTS_def)
  ultimately show ?thesis by simp
next
  case False
  then have high: "\<forall>i. bit (validity_bitmap body) i \<longrightarrow> i < 10"
    using high_bits_clear_iff[of "validity_bitmap body"] by simp
  have spec: "canonical_body body \<longleftrightarrow> unique_slots body = Inr () \<and>
      (if is_coinbase body then canonical_mint body else canonical_spend body)"
    using False high by (simp add: canonical_body_def unique_slots_iff TX_INPUTS_def TX_OUTPUTS_def)
  have spend: "canonical_spend body \<longleftrightarrow> live_input_count body \<noteq> 0 \<and>
      input_total body = output_total body + unat (fee body)"
    using assms live_inputs_Nil_iff[of body] live_input_count_0_iff[of body]
    by (auto simp: canonical_spend_def wf_body_def TX_INPUTS_def)
  note no_dead = dead_lanes_zero_find[OF assms, THEN iffD1]
  show ?thesis
  proof (cases "is_coinbase body")
    case True
    have "validate_body_semantics_no_hash body = Inr () \<longleftrightarrow>
        input_owner body = zero_digest \<and> fee body = 0 \<and>
        (validity_bitmap body = output_bitmap_bit 0 \<or>
         validity_bitmap body = output_bitmap_bit 0 OR output_bitmap_bit 1) \<and> unique_slots body = Inr ()"
      using no_dead False True by (simp add: validate_body_semantics_no_hash_def Let_def)
    then show ?thesis
      unfolding spec canonical_mint_iff[OF assms high] using True by auto
  next
    case spending: False
    have "validate_body_semantics_no_hash body = Inr () \<longleftrightarrow> live_input_count body \<noteq> 0 \<and>
        unique_slots body = Inr () \<and> input_total body = output_total body + unat (fee body)"
      using no_dead False spending
      by (simp add: validate_body_semantics_no_hash_def bind_res_unit_iff spend_balance_iff[OF assms]
          del: bind_res_Inr_iff)
    then show ?thesis unfolding spec spend using spending by auto
  qed
qed

text \<open>
  C10: the body validation of the transaction layer accepts exactly the canonical
  bodies.  A well-formed body passes \<open>validate_body_semantics_no_hash\<close> if and
  only if no bitmap bit beyond the ten lanes is set, every dead lane is the zero
  record, the live input and output slots are pairwise distinct, and it is either
  a mint (no live input, zero owner and fee, first output live) or a spend with
  at least one live input whose amounts sum, over the naturals, to the outputs
  plus the fee.
\<close>

theorem validate_body_iff_canonical:
  "wf_body body \<Longrightarrow> validate_body_semantics_no_hash body = Inr () \<longleftrightarrow> canonical_body body"
  by (rule validate_canonical_body_iff)

definition example_spend :: tx_body where
  "example_spend =
    \<lparr> epoch_anchor = replicate 32 3, fee = 100, input_owner = replicate 32 1,
      inputs = \<lparr> in_slot_index = 5, in_amount = 1000, in_creation_id = 7 \<rparr> #
        [dummy_input, dummy_input, dummy_input, dummy_input, dummy_input, dummy_input, dummy_input],
      outputs = [\<lparr> out_slot_index = 9, out_amount = 900, out_owner = replicate 32 2 \<rparr>, dummy_output],
      validity_bitmap = 0x101, is_coinbase = False \<rparr>"

lemma wf_example_spend: "wf_body example_spend"
  by (simp add: example_spend_def wf_simps dummy_output_def TX_INPUTS_def TX_OUTPUTS_def zero_digest_def)

lemma live_example_spend:
  "live_inputs example_spend = [(0, \<lparr> in_slot_index = 5, in_amount = 1000, in_creation_id = 7 \<rparr>)]"
  "live_outputs example_spend =
    [(0, \<lparr> out_slot_index = 9, out_amount = 900, out_owner = replicate 32 2 \<rparr>)]"
  by (simp_all add: live_inputs_def live_outputs_def input_is_live_iff output_is_live_iff example_spend_def)

lemma canonical_example_spend: "canonical_body example_spend"
proof -
  have "\<forall>i. bit (validity_bitmap example_spend) i \<longrightarrow> i < 10"
    unfolding high_bits_clear_iff[symmetric] by (simp add: example_spend_def TX_VALIDITY_MASK_def)
  moreover have "dead_lanes_zero example_spend"
    by (simp add: dead_lanes_zero_def example_spend_def TX_INPUTS_def TX_OUTPUTS_def input_is_live_iff
        output_is_live_iff eval_nat_numeral All_less_Suc2 All_less_Suc)
  ultimately show ?thesis
    by (simp add: canonical_body_def live_example_spend live_input_slots_def live_output_slots_def
        canonical_spend_def input_total_def output_total_def TX_INPUTS_def TX_OUTPUTS_def)
      (simp add: example_spend_def)
qed

theorem validate_body_iff_canonical_witness:
  "wf_body example_spend \<and> validate_body_semantics_no_hash example_spend = Inr ()"
  using validate_body_iff_canonical[OF wf_example_spend] wf_example_spend canonical_example_spend
  by simp

end
