(* ===== verification/TxWire.thy ===== *)
theory TxWire
  imports Tx
begin

text \<open>
  The exact wire encoding of \<open>Tx8x2\<close> (\<open>noid_tx/src/wire.rs\<close>): fixed-size
  little-endian records, a one-byte boolean that must be 0 or 1, and a decoder
  that re-validates the body and refuses trailing bytes.  Inputs, outputs and
  bodies are interpretations of the codec contract, so a body has one encoding
  and every accepted byte string is the encoding of the body it yields.
\<close>

definition TX_INPUT_WIRE_SIZE :: nat where "TX_INPUT_WIRE_SIZE = 4 + 8 + 8"
definition TX_OUTPUT_WIRE_SIZE :: nat where "TX_OUTPUT_WIRE_SIZE = 4 + 8 + 32"
definition TX_BODY_WIRE_SIZE :: nat where
  "TX_BODY_WIRE_SIZE =
    32 + 8 + 32 + TX_INPUTS * TX_INPUT_WIRE_SIZE + TX_OUTPUTS * TX_OUTPUT_WIRE_SIZE + 2 + 1"

datatype wire_error =
    Truncated
  | TrailingBytes
  | InvalidBool
  | BadMarker
  | NonCanonicalBody
  | LengthOverflow

definition take_bool :: "bytes \<Rightarrow> wire_error + bool \<times> bytes" where
  "take_bool src =
    bind_res (split_off Truncated 1 src) (\<lambda>(head, tail).
    if hd head = 0 then Inr (False, tail)
    else if hd head = 1 then Inr (True, tail)
    else Inl InvalidBool)"

definition put_bool :: "bool \<Rightarrow> bytes" where
  "put_bool b = [of_bool b]"

section \<open>Inputs and outputs\<close>

definition input_encode :: "tx_input \<Rightarrow> bytes" where
  "input_encode i = to_le 4 (in_slot_index i) @ to_le 8 (in_amount i) @ to_le 8 (in_creation_id i)"

definition input_decode :: "bytes \<Rightarrow> wire_error + tx_input \<times> bytes" where
  "input_decode src =
    bind_res (take_le Truncated 4 src) (\<lambda>(slot, src).
    bind_res (take_le Truncated 8 src) (\<lambda>(amount, src).
    bind_res (take_le Truncated 8 src) (\<lambda>(creation_id, src).
    Inr (\<lparr> in_slot_index = slot, in_amount = amount, in_creation_id = creation_id \<rparr>, src))))"

definition output_encode :: "tx_output \<Rightarrow> bytes" where
  "output_encode o' = to_le 4 (out_slot_index o') @ to_le 8 (out_amount o') @ out_owner o'"

definition output_decode :: "bytes \<Rightarrow> wire_error + tx_output \<times> bytes" where
  "output_decode src =
    bind_res (take_le Truncated 4 src) (\<lambda>(slot, src).
    bind_res (take_le Truncated 8 src) (\<lambda>(amount, src).
    bind_res (split_off Truncated 32 src) (\<lambda>(owner, src).
    Inr (\<lparr> out_slot_index = slot, out_amount = amount, out_owner = owner \<rparr>, src))))"

section \<open>Bodies\<close>

text \<open>
  \<open>TxBody::encode\<close> asserts that the body is canonical before writing; the
  assertion failure is the value \<open>None\<close>.
\<close>

definition body_wire_bytes :: "tx_body \<Rightarrow> bytes" where
  "body_wire_bytes body =
    epoch_anchor body @ to_le 8 (fee body) @ input_owner body @
    encode_list input_encode (inputs body) @
    encode_list output_encode (outputs body) @
    to_le 2 (validity_bitmap body) @ put_bool (is_coinbase body)"

definition body_encode :: "tx_body \<Rightarrow> bytes option" where
  "body_encode body =
    (if is_ok (validate_body_semantics_no_hash body) then Some (body_wire_bytes body) else None)"

definition body_decode :: "bytes \<Rightarrow> wire_error + tx_body \<times> bytes" where
  "body_decode src =
    bind_res (split_off Truncated 32 src) (\<lambda>(anchor, src).
    bind_res (take_le Truncated 8 src) (\<lambda>(fee', src).
    bind_res (split_off Truncated 32 src) (\<lambda>(owner, src).
    bind_res (decode_n TX_INPUTS input_decode src) (\<lambda>(ins, src).
    bind_res (decode_n TX_OUTPUTS output_decode src) (\<lambda>(outs, src).
    bind_res (take_le Truncated 2 src) (\<lambda>(bitmap, src).
    bind_res (take_bool src) (\<lambda>(coinbase, src).
    let body = \<lparr> epoch_anchor = anchor, fee = fee', input_owner = owner, inputs = ins,
                 outputs = outs, validity_bitmap = bitmap, is_coinbase = coinbase \<rparr>
    in bind_res (map_err (\<lambda>_. NonCanonicalBody) (validate_body_semantics_no_hash body)) (\<lambda>_.
       Inr (body, src)))))))))"

definition body_from_bytes :: "bytes \<Rightarrow> wire_error + tx_body" where
  "body_from_bytes bs =
    bind_res (body_decode bs) (\<lambda>(body, src).
    if src \<noteq> [] then Inl TrailingBytes else Inr body)"

section \<open>The codecs\<close>

lemma take_bool_iff: "take_bool src = Inr (b, t) \<longleftrightarrow> src = put_bool b @ t"
  by (cases src) (auto simp: take_bool_def put_bool_def split_off_def)

interpretation input_codec: fixed_codec input_encode input_decode "\<lambda>_. True" TX_INPUT_WIRE_SIZE
  by unfold_locales
    (auto simp: input_encode_def input_decode_def TX_INPUT_WIRE_SIZE_def take_le_iff)

interpretation output_codec: fixed_codec output_encode output_decode wf_output TX_OUTPUT_WIRE_SIZE
  by unfold_locales
    (auto simp: output_encode_def output_decode_def TX_OUTPUT_WIRE_SIZE_def take_le_iff split_off_iff wf_simps)

definition valid_body :: "tx_body \<Rightarrow> bool" where
  "valid_body body \<longleftrightarrow> wf_body body \<and> validate_body_semantics_no_hash body = Inr ()"

lemma body_decode_iff:
  "body_decode bs = Inr (body, rest) \<longleftrightarrow> valid_body body \<and> bs = body_wire_bytes body @ rest"
proof
  assume "body_decode bs = Inr (body, rest)"
  then show "valid_body body \<and> bs = body_wire_bytes body @ rest"
    by (auto simp: body_decode_def valid_body_def body_wire_bytes_def Let_def wf_simps split_off_iff
        take_le_iff take_bool_iff input_codec.decode_n_iff output_codec.decode_n_iff)
next
  assume v: "valid_body body \<and> bs = body_wire_bytes body @ rest"
  have ins: "decode_n TX_INPUTS input_decode (encode_list input_encode (inputs body) @ r) = Inr (inputs body, r)"
    and outs: "decode_n TX_OUTPUTS output_decode (encode_list output_encode (outputs body) @ r) = Inr (outputs body, r)"
    for r using v by (auto simp: input_codec.decode_n_iff output_codec.decode_n_iff valid_body_def wf_body_def list_all_iff)
  have flag: "take_bool (put_bool b @ r) = Inr (b, r)" for b r by (simp add: take_bool_iff)
  have eta: "\<lparr> epoch_anchor = epoch_anchor body, fee = fee body, input_owner = input_owner body,
      inputs = inputs body, outputs = outputs body, validity_bitmap = validity_bitmap body,
      is_coinbase = is_coinbase body \<rparr> = body" by simp
  show "body_decode bs = Inr (body, rest)"
    using v by (simp add: body_decode_def valid_body_def body_wire_bytes_def wf_simps ins outs flag Let_def eta)
qed

interpretation body_codec: fixed_codec body_wire_bytes body_decode valid_body TX_BODY_WIRE_SIZE
proof unfold_locales
  fix body assume v: "valid_body body"
  have "length (encode_list input_encode (inputs body)) = TX_INPUTS * TX_INPUT_WIRE_SIZE"
    "length (encode_list output_encode (outputs body)) = TX_OUTPUTS * TX_OUTPUT_WIRE_SIZE"
    using v length_encode_list[of "inputs body" input_encode TX_INPUT_WIRE_SIZE]
      length_encode_list[of "outputs body" output_encode TX_OUTPUT_WIRE_SIZE]
      input_codec.enc_length output_codec.enc_length
    by (auto simp: valid_body_def wf_body_def list_all_iff)
  then show "length (body_wire_bytes body) = TX_BODY_WIRE_SIZE"
    using v by (simp add: body_wire_bytes_def TX_BODY_WIRE_SIZE_def valid_body_def wf_simps put_bool_def)
qed (auto simp: body_decode_iff)

text \<open>
  C13: the transaction wire format is canonical.  A byte string is accepted by
  \<open>TxBody::from_bytes\<close> as a body exactly when the body is well formed and the
  string is what \<open>TxBody::encode\<close> writes for it (which panics on a body that
  fails validation); so parsing and printing are mutually inverse and no two
  byte strings denote one transaction.
\<close>

theorem body_from_bytes_iff:
  "body_from_bytes bs = Inr body \<longleftrightarrow> wf_body body \<and> body_encode body = Some bs"
  by (auto simp: body_from_bytes_def body_decode_iff body_encode_def valid_body_def is_ok_iff split: if_splits)

text \<open>Every accepted encoding has the fixed wire size.\<close>

lemma body_from_bytes_size:
  "body_from_bytes bs = Inr body \<Longrightarrow> length bs = 323"
  using body_codec.enc_length[of body]
  by (auto simp: body_from_bytes_def body_decode_iff TX_BODY_WIRE_SIZE_def TX_INPUT_WIRE_SIZE_def
      TX_OUTPUT_WIRE_SIZE_def TX_INPUTS_def TX_OUTPUTS_def split: if_splits)

end
