(* ===== verification/StateTree.thy ===== *)
theory StateTree
  imports Tx
begin

text \<open>
  The exact UTXO commitment: slot values (\<open>fri_state.rs\<close>), their leaf and node
  hashes (\<open>exact_state_hash.rs\<close>) and the streaming builder that folds a sorted
  sequence of live leaves into the root with a stack of pending subtrees
  (\<open>StreamingSparseRoot\<close> of \<open>state.rs\<close>).  The reference is \<open>node_of\<close>, the dense
  binary tree over a leaf function; the streaming builder, which never
  materialises an empty leaf, is shown to compute its root.  Depths and positions
  are natural numbers: every position is at most \<open>2 ^ depth\<close> with a depth below 64.
\<close>

section \<open>Slots\<close>

record slot_value =
  sv_value :: u128
  sv_owner_hi :: u128
  sv_owner_lo :: u128

definition EMPTY :: slot_value where
  "EMPTY = \<lparr> sv_value = 0, sv_owner_hi = 0, sv_owner_lo = 0 \<rparr>"

definition slot_is_empty :: "slot_value \<Rightarrow> bool" where
  "slot_is_empty s \<longleftrightarrow> s = EMPTY"

definition from_parts :: "u64 \<Rightarrow> u64 \<Rightarrow> u128 \<Rightarrow> u128 \<Rightarrow> slot_value" where
  "from_parts amount creation_id owner_hi owner_lo =
    \<lparr> sv_value = pack_amount_creation_id amount creation_id,
      sv_owner_hi = owner_hi, sv_owner_lo = owner_lo \<rparr>"

definition with_owner_fields :: "u64 \<Rightarrow> u64 \<Rightarrow> u128 \<times> u128 \<Rightarrow> slot_value" where
  "with_owner_fields amount creation_id owner = from_parts amount creation_id (fst owner) (snd owner)"

definition slot_amount :: "slot_value \<Rightarrow> u64" where
  "slot_amount s = fst (unpack_amount_creation_id (sv_value s))"

definition slot_creation_id :: "slot_value \<Rightarrow> u64" where
  "slot_creation_id s = snd (unpack_amount_creation_id (sv_value s))"

section \<open>Hashes\<close>

definition slot_leaf_hash :: "slot_value \<Rightarrow> digest" where
  "slot_leaf_hash slot =
    sponge_finalize (absorb_pair (sv_owner_hi slot) (sv_owner_lo slot)
      (absorb (sv_value slot) (sponge_with_iv (capacity_iv TAG_EXSTSLT))))"

definition state_node_hash :: "digest \<Rightarrow> digest \<Rightarrow> digest" where
  "state_node_hash left right = compress_with_tag TAG_EXSTNOD left right"

primrec zero_slot_roots :: "nat \<Rightarrow> digest list" where
  "zero_slot_roots 0 = [slot_leaf_hash EMPTY]"
| "zero_slot_roots (Suc depth) =
    (let roots = zero_slot_roots depth; z = roots ! depth in roots @ [state_node_hash z z])"

section \<open>The reference tree\<close>

text \<open>The node of index \<open>i\<close> at level \<open>l\<close> over the leaves \<open>f\<close>.\<close>

primrec node_of :: "(nat \<Rightarrow> digest) \<Rightarrow> nat \<Rightarrow> nat \<Rightarrow> digest" where
  "node_of f 0 i = f i"
| "node_of f (Suc l) i = state_node_hash (node_of f l (2 * i)) (node_of f l (Suc (2 * i)))"

abbreviation empty_leaf :: digest where
  "empty_leaf \<equiv> slot_leaf_hash EMPTY"

lemma length_zero_slot_roots [simp]: "length (zero_slot_roots d) = Suc d"
  by (induction d) (simp_all add: Let_def)

lemma node_of_cong:
  "(\<And>k. i * 2 ^ l \<le> k \<Longrightarrow> k < Suc i * 2 ^ l \<Longrightarrow> f k = g k) \<Longrightarrow> node_of f l i = node_of g l i"
proof (induction l arbitrary: i)
  case (Suc l)
  have "node_of f l (2 * i) = node_of g l (2 * i)"
    by (rule Suc.IH) (rule Suc.prems, simp_all add: algebra_simps)
  moreover have "node_of f l (Suc (2 * i)) = node_of g l (Suc (2 * i))"
    by (rule Suc.IH) (rule Suc.prems, simp_all add: algebra_simps)
  ultimately show ?case by simp
qed simp

lemma zero_slot_roots_nth:
  "l \<le> d \<Longrightarrow> zero_slot_roots d ! l = node_of (\<lambda>_. empty_leaf) l i"
proof (induction d arbitrary: l i)
  case (Suc d)
  show ?case
  proof (cases "l = Suc d")
    case True
    then show ?thesis
      using Suc.IH[of d "2 * i"] Suc.IH[of d "Suc (2 * i)"] by (simp add: Let_def nth_append)
  next
    case False
    then show ?thesis using Suc.prems Suc.IH[of l i] by (simp add: Let_def nth_append)
  qed
qed simp

lemma node_of_empty:
  assumes "\<And>k. i * 2 ^ l \<le> k \<Longrightarrow> k < Suc i * 2 ^ l \<Longrightarrow> f k = empty_leaf" "l \<le> d"
  shows "node_of f l i = zero_slot_roots d ! l"
  using node_of_cong[of i l f "\<lambda>_. empty_leaf"] assms zero_slot_roots_nth[OF assms(2), of i] by simp

section \<open>The streaming builder\<close>

datatype sparse_merkle_error =
    InvalidDepth u32
  | EmptyIndices
  | LeafCountMismatch nat nat
  | UnsortedIndices
  | DuplicateIndex u32
  | IndexOutOfRange u32 u32
  | ProofLengthMismatch nat nat
  | FrontierCapacityExceeded nat nat
  | PaddedProofLengthMismatch nat nat
  | NonCanonicalPadding nat
  | CacheDepthMismatch u32 u32

datatype exact_state_read_error =
    EvictedSegment u16
  | SegmentRootMismatch u16
  | ReadSparseMerkle sparse_merkle_error

datatype apply_exact_transition_error =
    AtSlotOutOfRange
  | AtHeaderLogSlotsMismatch
  | AtExactStateRead exact_state_read_error
  | AtCachedRootMismatch
  | AtCirculatingSupplyInvariant

text \<open>\<open>1u64.checked_shl(depth)\<close>, \<open>u64::trailing_zeros\<close> and \<open>63 - u64::leading_zeros\<close> (of a non-zero value).\<close>

definition checked_shl_one :: "nat \<Rightarrow> nat option" where
  "checked_shl_one depth = (if depth < 64 then Some (2 ^ depth) else None)"

fun trailing_zeros :: "nat \<Rightarrow> nat" where
  "trailing_zeros n = (if n = 0 then 64 else if odd n then 0 else Suc (trailing_zeros (n div 2)))"

declare trailing_zeros.simps [simp del]

fun ilog2 :: "nat \<Rightarrow> nat" where
  "ilog2 n = (if n \<le> 1 then 0 else Suc (ilog2 (n div 2)))"

declare ilog2.simps [simp del]

text \<open>The stack is a list whose head is the last element of the vector.\<close>

record streaming_sparse_root =
  sr_depth :: nat
  sr_position :: nat
  sr_zero_roots :: "digest list"
  sr_stack :: "(nat \<times> digest) list"

definition streaming_new :: "nat \<Rightarrow> apply_exact_transition_error + streaming_sparse_root" where
  "streaming_new depth =
    bind_res (ok_or AtHeaderLogSlotsMismatch (checked_shl_one depth)) (\<lambda>_.
      Inr \<lparr> sr_depth = depth, sr_position = 0, sr_zero_roots = zero_slot_roots depth, sr_stack = [] \<rparr>)"

fun append_block :: "(nat \<times> digest) list \<Rightarrow> nat \<Rightarrow> digest \<Rightarrow> (nat \<times> digest) list" where
  "append_block [] level hash = [(level, hash)]"
| "append_block ((pending_level, left) # stack) level hash =
    (if pending_level = level then append_block stack (level + 1) (state_node_hash left hash)
     else (level, hash) # (pending_level, left) # stack)"

function fill_zero_loop :: "nat \<Rightarrow> digest list \<Rightarrow> nat \<Rightarrow> nat \<Rightarrow> (nat \<times> digest) list \<Rightarrow> nat \<times> (nat \<times> digest) list" where
  "fill_zero_loop depth zero_roots end' position stack =
    (if position < end' then
       let by_remaining = ilog2 (end' - position);
           by_alignment = (if position = 0 then depth else min (trailing_zeros position) depth);
           level = min by_remaining by_alignment
       in fill_zero_loop depth zero_roots end' (position + 2 ^ level)
            (append_block stack level (zero_roots ! level))
     else (position, stack))"
  by pat_completeness auto
termination
  by (relation "measure (\<lambda>(depth, zero_roots, end', position, stack). end' - position)")
    (auto intro!: diff_less_mono2)

declare fill_zero_loop.simps [simp del]

definition fill_zero_gap :: "nat \<Rightarrow> streaming_sparse_root \<Rightarrow> apply_exact_transition_error + streaming_sparse_root" where
  "fill_zero_gap end' s =
    bind_res (ok_or AtHeaderLogSlotsMismatch (checked_shl_one (sr_depth s))) (\<lambda>limit.
      if end' < sr_position s \<or> end' > limit then Inl AtSlotOutOfRange
      else let (position, stack) = fill_zero_loop (sr_depth s) (sr_zero_roots s) end' (sr_position s) (sr_stack s)
           in Inr (s\<lparr> sr_position := position, sr_stack := stack \<rparr>))"

definition push_leaf :: "u32 \<Rightarrow> digest \<Rightarrow> streaming_sparse_root \<Rightarrow> apply_exact_transition_error + streaming_sparse_root" where
  "push_leaf index hash s =
    (let index = unat index
     in bind_res (fill_zero_gap index s) (\<lambda>s.
       Inr (s\<lparr> sr_position := index + 1, sr_stack := append_block (sr_stack s) 0 hash \<rparr>)))"

definition streaming_finish :: "streaming_sparse_root \<Rightarrow> apply_exact_transition_error + digest" where
  "streaming_finish s =
    bind_res (ok_or AtHeaderLogSlotsMismatch (checked_shl_one (sr_depth s))) (\<lambda>limit.
    bind_res (fill_zero_gap limit s) (\<lambda>s.
      case sr_stack s of
        [(level, root)] \<Rightarrow> if level = sr_depth s then Inr root else Inl AtHeaderLogSlotsMismatch
      | _ \<Rightarrow> Inl AtHeaderLogSlotsMismatch))"

section \<open>Roots of segment columns\<close>

record segment_columns =
  col_values :: "u128 list"
  col_owners_hi :: "u128 list"
  col_owners_lo :: "u128 list"

definition new_zero :: "nat \<Rightarrow> segment_columns" where
  "new_zero n = \<lparr> col_values = replicate n 0, col_owners_hi = replicate n 0,
     col_owners_lo = replicate n 0 \<rparr>"

text \<open>Indexing past the end of a column panics in the code.  The columns of a state that represents a ledger
  have the full length of a segment, so every read of the engine is in range.\<close>

definition column_slot :: "segment_columns \<Rightarrow> nat \<Rightarrow> slot_value" where
  "column_slot columns local =
    \<lparr> sv_value = col_values columns ! local, sv_owner_hi = col_owners_hi columns ! local,
      sv_owner_lo = col_owners_lo columns ! local \<rparr>"

text \<open>The value of one local slot under pending updates.\<close>

definition updated_slot :: "segment_columns option \<Rightarrow> (u32 \<rightharpoonup> slot_value) \<Rightarrow> nat \<Rightarrow> slot_value" where
  "updated_slot columns updates local =
    (case updates (of_nat local) of
       Some v \<Rightarrow> v
     | None \<Rightarrow> (case columns of
         None \<Rightarrow> EMPTY
       | Some cols \<Rightarrow> if local \<ge> length (col_values cols) then EMPTY else column_slot cols local))"

definition stream_slot :: "(nat \<Rightarrow> slot_value) \<Rightarrow> nat \<Rightarrow> streaming_sparse_root
    \<Rightarrow> apply_exact_transition_error + streaming_sparse_root" where
  "stream_slot slot_at local stream =
    (if \<not> slot_is_empty (slot_at local) then push_leaf (of_nat local) (slot_leaf_hash (slot_at local)) stream
     else Inr stream)"

text \<open>Both routines end in \<open>expect\<close>; a panic is \<open>None\<close>.\<close>

definition stream_slots :: "nat \<Rightarrow> (nat \<Rightarrow> slot_value) \<Rightarrow> digest option" where
  "stream_slots depth slot_at =
    (case bind_res (bind_res (streaming_new depth) (fold_res (stream_slot slot_at) [0..<2 ^ depth])) streaming_finish of
       Inl _ \<Rightarrow> None | Inr root \<Rightarrow> Some root)"

definition exact_segment_root_with_updates :: "nat \<Rightarrow> segment_columns option \<Rightarrow> (u32 \<rightharpoonup> slot_value) \<Rightarrow> digest option" where
  "exact_segment_root_with_updates effective_log_seg columns updates =
    stream_slots effective_log_seg (updated_slot columns updates)"

definition exact_segment_root_from_columns :: "nat \<Rightarrow> segment_columns \<Rightarrow> digest option" where
  "exact_segment_root_from_columns effective_log_seg columns =
    exact_segment_root_with_updates effective_log_seg (Some columns) Map.empty"

definition exact_local_subtree_root :: "segment_columns option \<Rightarrow> nat \<Rightarrow> nat \<Rightarrow> digest option" where
  "exact_local_subtree_root columns local_start level =
    (case columns of
       None \<Rightarrow> Some (zero_slot_roots level ! level)
     | Some cols \<Rightarrow> stream_slots level (\<lambda>offset. column_slot cols (local_start + offset)))"

section \<open>Correctness of the streaming builder\<close>

lemma trailing_zeros_dvd: "n \<noteq> 0 \<Longrightarrow> 2 ^ trailing_zeros n dvd n"
proof (induction n rule: trailing_zeros.induct)
  case (1 n)
  show ?case
  proof (cases "odd n")
    case False
    then have "2 ^ trailing_zeros (n div 2) dvd n div 2" using 1 by auto
    then have "2 ^ Suc (trailing_zeros (n div 2)) dvd 2 * (n div 2)"
      unfolding power_Suc by (rule mult_dvd_mono[OF dvd_refl])
    moreover have "2 * (n div 2) = n" using False by simp
    ultimately show ?thesis using False 1(2) by (simp only: trailing_zeros.simps[of n] if_False)
  qed (simp add: trailing_zeros.simps[of n])
qed

lemma ilog2_le: "0 < n \<Longrightarrow> 2 ^ ilog2 n \<le> n"
proof (induction n rule: ilog2.induct)
  case (1 n)
  show ?case
  proof (cases "n \<le> 1")
    case False
    then have "2 ^ ilog2 (n div 2) \<le> n div 2" using 1(1) by auto
    then show ?thesis using False by (simp add: ilog2.simps[of n])
  qed (use 1 in \<open>simp add: ilog2.simps[of n]\<close>)
qed

text \<open>A stack covers the leaves below a position like the digits of a binary
  counter: levels grow towards the bottom and every entry is a node of the tree.\<close>

fun covers :: "(nat \<Rightarrow> digest) \<Rightarrow> nat \<Rightarrow> (nat \<times> digest) list \<Rightarrow> bool" where
  "covers f pos [] \<longleftrightarrow> pos = 0"
| "covers f pos ((l, h) # stack) \<longleftrightarrow>
    2 ^ l \<le> pos \<and> 2 ^ Suc l dvd pos - 2 ^ l \<and> h = node_of f l ((pos - 2 ^ l) div 2 ^ l) \<and>
    covers f (pos - 2 ^ l) stack"

lemma covers_top_level:
  assumes "covers f pos ((l, h) # stack)" "2 ^ level dvd pos"
  shows "level \<le> l"
proof (rule ccontr)
  assume "\<not> level \<le> l"
  then have "2 ^ Suc l dvd (2 :: nat) ^ level" by (intro le_imp_power_dvd) simp
  then have "2 ^ Suc l dvd pos" using assms(2) by (rule dvd_trans)
  moreover have "2 ^ Suc l dvd pos - 2 ^ l" "2 ^ l \<le> pos" using assms(1) by auto
  ultimately have "2 ^ Suc l dvd (2 :: nat) ^ l" using dvd_diff_nat[of "2 ^ Suc l" pos "pos - 2 ^ l"] by simp
  then show False using power_dvd_imp_le[of "2 :: nat" "Suc l" l] by simp
qed

lemma covers_append_block:
  assumes "covers f pos stack" "2 ^ level dvd pos" "h = node_of f level (pos div 2 ^ level)"
  shows "covers f (pos + 2 ^ level) (append_block stack level h)"
  using assms
proof (induction stack level h arbitrary: pos rule: append_block.induct)
  case (2 pl left stack level h)
  show ?case
  proof (cases "pl = level")
    case True
    obtain q where q: "pos - 2 ^ level = 2 ^ Suc level * q" using 2(2) True by (auto simp: dvd_def)
    have le: "2 ^ level \<le> pos" and left: "left = node_of f level (2 * q)"
      using 2(2) True q by (auto simp: mult.assoc)
    have "pos = 2 ^ level * Suc (2 * q)" using q le by (simp add: algebra_simps)
    then have "pos div 2 ^ level = Suc (2 * q)" by simp
    then have h: "state_node_hash left h = node_of f (Suc level) q" using left 2(4) by simp
    have "covers f (pos - 2 ^ level + 2 ^ Suc level) (append_block stack (level + 1) (state_node_hash left h))"
      using 2(1)[OF True, of "pos - 2 ^ level"] 2(2) True q h by simp
    then show ?thesis using True le by (simp add: algebra_simps)
  next
    case False
    have "level < pl" using covers_top_level[OF 2(2,3)] False by simp
    then have "2 ^ Suc level dvd (2 :: nat) ^ pl" by (intro le_imp_power_dvd) simp
    moreover have "2 ^ Suc pl dvd pos - 2 ^ pl" "2 ^ pl \<le> pos" using 2(2) by auto
    moreover have "2 ^ pl dvd (2 :: nat) ^ Suc pl" by (intro le_imp_power_dvd) simp
    ultimately have "2 ^ pl dvd pos"
      using dvd_add[of "2 ^ pl" "pos - 2 ^ pl" "2 ^ pl"] dvd_trans by fastforce
    then have "2 ^ Suc level dvd pos"
      using \<open>2 ^ Suc level dvd 2 ^ pl\<close> dvd_trans by blast
    then show ?thesis using False 2(2,4) by simp
  qed
qed simp

lemma covers_full:
  assumes "covers f (2 ^ d) stack"
  shows "stack = [(d, node_of f d 0)]"
proof (cases stack)
  case Nil
  then show ?thesis using assms by simp
next
  case (Cons e rest)
  obtain l h where e: "e = (l, h)" by (cases e)
  have c: "covers f (2 ^ d) ((l, h) # rest)" using assms Cons e by simp
  have "d \<le> l" by (rule covers_top_level[OF c]) simp
  moreover have "l \<le> d" using c by (simp add: power_increasing_iff)
  ultimately have "l = d" by simp
  then have "h = node_of f d 0" "covers f 0 rest" using c by simp_all
  moreover have "rest = []" using \<open>covers f 0 rest\<close> by (cases rest) auto
  ultimately show ?thesis using Cons e \<open>l = d\<close> by simp
qed

lemma fill_zero_loop_covers:
  assumes "covers f pos stack" "pos \<le> e" "\<And>k. pos \<le> k \<Longrightarrow> k < e \<Longrightarrow> f k = empty_leaf"
  shows "\<exists>stack'. fill_zero_loop d (zero_slot_roots d) e pos stack = (e, stack') \<and> covers f e stack'"
  using assms
proof (induction d "zero_slot_roots d" e pos stack rule: fill_zero_loop.induct)
  case (1 d e pos stack)
  show ?case
  proof (cases "pos < e")
    case False
    then show ?thesis using 1 by (simp add: fill_zero_loop.simps)
  next
    case True
    define lev where "lev = min (ilog2 (e - pos)) (if pos = 0 then d else min (trailing_zeros pos) d)"
    have lev_d: "lev \<le> d" by (auto simp: lev_def)
    have "(2 :: nat) ^ lev \<le> 2 ^ ilog2 (e - pos)" by (simp add: lev_def power_increasing)
    then have room: "pos + 2 ^ lev \<le> e" using ilog2_le[of "e - pos"] True by linarith
    have dv: "2 ^ lev dvd pos"
    proof (cases "pos = 0")
      case False
      then have "2 ^ lev dvd (2 :: nat) ^ trailing_zeros pos" by (intro le_imp_power_dvd) (simp add: lev_def)
      then show ?thesis using trailing_zeros_dvd[OF False] dvd_trans by blast
    qed simp
    have "node_of f lev (pos div 2 ^ lev) = zero_slot_roots d ! lev"
      using lev_d dv room 1(4) by (intro node_of_empty) (auto simp: algebra_simps)
    then have cov: "covers f (pos + 2 ^ lev) (append_block stack lev (zero_slot_roots d ! lev))"
      using covers_append_block[OF 1(2) dv] by simp
    have "\<exists>stack'. fill_zero_loop d (zero_slot_roots d) e (pos + 2 ^ lev) (append_block stack lev (zero_slot_roots d ! lev)) =
        (e, stack') \<and> covers f e stack'"
      using 1(1)[OF True refl refl lev_def cov room] 1(4) by simp
    then show ?thesis using True by (subst fill_zero_loop.simps) (simp add: Let_def flip: lev_def)
  qed
qed

text \<open>The stream state after the leaves below its position.\<close>

definition stream_at :: "nat \<Rightarrow> (nat \<Rightarrow> digest) \<Rightarrow> streaming_sparse_root \<Rightarrow> nat \<Rightarrow> bool" where
  "stream_at d f s pos \<longleftrightarrow> sr_depth s = d \<and> sr_zero_roots s = zero_slot_roots d \<and>
    sr_position s \<le> pos \<and> covers f (sr_position s) (sr_stack s) \<and>
    (\<forall>k. sr_position s \<le> k \<and> k < pos \<longrightarrow> f k = empty_leaf)"

lemma fill_zero_gap_stream:
  assumes "stream_at d f s pos" "pos \<le> 2 ^ d" "d < 64"
  shows "\<exists>s'. fill_zero_gap pos s = Inr s' \<and> sr_depth s' = d \<and> sr_zero_roots s' = zero_slot_roots d \<and>
    covers f pos (sr_stack s')"
  using fill_zero_loop_covers[of f "sr_position s" "sr_stack s" pos d] assms
  by (fastforce simp: stream_at_def fill_zero_gap_def checked_shl_one_def)

lemma push_leaf_stream:
  assumes "stream_at d f s (unat i)" "unat i < 2 ^ d" "d < 64"
  shows "\<exists>s'. push_leaf i (f (unat i)) s = Inr s' \<and> stream_at d f s' (Suc (unat i))"
proof -
  obtain s' where s': "fill_zero_gap (unat i) s = Inr s'" "sr_depth s' = d"
    "sr_zero_roots s' = zero_slot_roots d" "covers f (unat i) (sr_stack s')"
    using fill_zero_gap_stream[OF assms(1) _ assms(3)] assms(2) by auto
  have "covers f (unat i + 2 ^ 0) (append_block (sr_stack s') 0 (f (unat i)))"
    by (rule covers_append_block[OF s'(4)]) simp_all
  then show ?thesis using s' by (auto simp: push_leaf_def stream_at_def Let_def)
qed

lemma streaming_finish_stream:
  assumes "stream_at d f s (2 ^ d)" "d < 64"
  shows "streaming_finish s = Inr (node_of f d 0)"
proof -
  obtain s' where s': "fill_zero_gap (2 ^ d) s = Inr s'" "sr_depth s' = d" "covers f (2 ^ d) (sr_stack s')"
    using fill_zero_gap_stream[OF assms(1) _ assms(2)] by auto
  then show ?thesis
    using covers_full[OF s'(3)] assms by (simp add: streaming_finish_def stream_at_def checked_shl_one_def)
qed

lemma stream_slots_prefix:
  assumes "d \<le> 32" "n \<le> 2 ^ d" "f = (\<lambda>k. slot_leaf_hash (slot_at k))"
  shows "\<exists>s. bind_res (streaming_new d) (fold_res (stream_slot slot_at) [0..<n]) = Inr s \<and> stream_at d f s n"
  using assms(2)
proof (induction n)
  case 0
  then show ?case using assms(1) by (simp add: streaming_new_def checked_shl_one_def stream_at_def)
next
  case (Suc n)
  then obtain s where s: "bind_res (streaming_new d) (fold_res (stream_slot slot_at) [0..<n]) = Inr s"
    "stream_at d f s n" by auto
  have "(2 :: nat) ^ d \<le> 2 ^ 32" using assms(1) by (rule power_increasing) simp
  then have un: "unat (of_nat n :: u32) = n" using Suc.prems by (simp add: unsigned_of_nat take_bit_nat_eq_self)
  have "\<exists>s'. stream_slot slot_at n s = Inr s' \<and> stream_at d f s' (Suc n)"
  proof (cases "slot_is_empty (slot_at n)")
    case True
    then have "f n = empty_leaf" using assms(3) by (simp add: slot_is_empty_def)
    then show ?thesis using True s(2) by (auto simp: stream_slot_def stream_at_def less_Suc_eq)
  next
    case False
    then show ?thesis
      using push_leaf_stream[of d f s "of_nat n"] s(2) un Suc.prems assms by (simp add: stream_slot_def)
  qed
  moreover have "bind_res (streaming_new d) (fold_res (stream_slot slot_at) [0..<Suc n]) =
      bind_res (bind_res (streaming_new d) (fold_res (stream_slot slot_at) [0..<n])) (stream_slot slot_at n)"
    by (cases "streaming_new d") (simp_all add: fold_res_append fold_res_single)
  ultimately show ?case using s(1) by simp
qed

lemma stream_slots_root:
  assumes "d \<le> 32"
  shows "stream_slots d slot_at = Some (node_of (\<lambda>k. slot_leaf_hash (slot_at k)) d 0)"
proof -
  obtain s where "bind_res (streaming_new d) (fold_res (stream_slot slot_at) [0..<2 ^ d]) = Inr s"
    "stream_at d (\<lambda>k. slot_leaf_hash (slot_at k)) s (2 ^ d)"
    using stream_slots_prefix[OF assms order_refl refl] by blast
  then show ?thesis using streaming_finish_stream assms by (simp add: stream_slots_def del: bind_res_Inr_iff)
qed

lemma node_of_shift: "node_of (\<lambda>k. f (c * 2 ^ l + k)) l i = node_of f l (c + i)"
proof (induction l arbitrary: c i)
  case (Suc l)
  have "c * 2 ^ Suc l = 2 * c * 2 ^ l" by simp
  then show ?case using Suc[of "2 * c"] by (simp only: node_of.simps) (simp add: algebra_simps)
qed simp

lemma exact_local_subtree_root_node:
  assumes "level \<le> 32"
  shows "exact_local_subtree_root (Some cols) (i * 2 ^ level) level =
    Some (node_of (\<lambda>k. slot_leaf_hash (column_slot cols k)) level i)"
  using node_of_shift[of "\<lambda>k. slot_leaf_hash (column_slot cols k)" i level 0] assms
  by (simp add: exact_local_subtree_root_def stream_slots_root)

text \<open>
  C30: the streaming builder computes the dense root.  For every depth up to 32,
  every column contents and every set of pending updates, folding the non-empty
  slots in order, with gaps filled by maximal canonical-zero subtrees, never fails
  and yields exactly the root of the full binary tree over all slot leaves.
\<close>

theorem exact_segment_root_correct:
  assumes "d \<le> 32"
  shows "exact_segment_root_with_updates d columns updates =
    Some (node_of (\<lambda>k. slot_leaf_hash (updated_slot columns updates k)) d 0)"
  using stream_slots_root[OF assms] by (simp add: exact_segment_root_with_updates_def)

theorem exact_segment_root_correct_witness:
  "exact_segment_root_with_updates 1 None [1 \<mapsto> from_parts 5 1 2 3] =
    Some (state_node_hash empty_leaf (slot_leaf_hash (from_parts 5 1 2 3)))"
  using exact_segment_root_correct[of 1 None "[1 \<mapsto> from_parts 5 1 2 3]"]
  by (simp add: updated_slot_def)

end
