(* ===== verification/SparseMerkle.thy ===== *)
theory SparseMerkle
  imports StateTree
begin

text \<open>
  Sparse Merkle caches and canonical multiproofs (\<open>noid_chain/src/sparse_merkle.rs\<close>).
  A \<open>BTreeMap\<close> whose order is observed is an association list with strictly
  increasing keys, one that is only read and written by key a map; levels and node
  indices are natural numbers, since depths are at most 32.  Failing \<open>expect\<close>s are
  \<open>None\<close>.  The cache is shown to hold the nodes of the reference tree, and a
  multiproof to determine the root of the partial tree it spans: built proofs
  verify, before and after an update of the touched leaves, and a proof that
  verifies with other leaves exhibits a collision.
\<close>

section \<open>Ordered maps\<close>

fun bt_insert :: "nat \<Rightarrow> 'v \<Rightarrow> (nat \<times> 'v) list \<Rightarrow> (nat \<times> 'v) list" where
  "bt_insert k v [] = [(k, v)]"
| "bt_insert k v ((k', v') # m) =
    (if k < k' then (k, v) # (k', v') # m
     else if k = k' then (k, v) # m
     else (k', v') # bt_insert k v m)"

text \<open>\<open>for &pos in known.keys() { let base = pos & !1; if !processed.insert(base) { continue; } .. }\<close>.\<close>

definition for_parents :: "nat list \<Rightarrow> (nat \<Rightarrow> 's \<Rightarrow> 's) \<Rightarrow> 's \<Rightarrow> 's" where
  "for_parents keys body s =
    snd (fold (\<lambda>pos (processed, s).
      let base = 2 * (pos div 2)
      in if base \<in> processed then (processed, s) else (insert base processed, body base s))
      keys ({}, s))"

section \<open>Argument checks\<close>

definition validate_depth :: "u32 \<Rightarrow> sparse_merkle_error + unit" where
  "validate_depth depth = (if depth > 32 then Inl (InvalidDepth depth) else Inr ())"

definition validate_index :: "u32 \<Rightarrow> u32 \<Rightarrow> sparse_merkle_error + unit" where
  "validate_index index depth =
    bind_res (validate_depth depth) (\<lambda>_.
      if unat index \<ge> 2 ^ unat depth then Inl (IndexOutOfRange index depth) else Inr ())"

fun validate_index_loop :: "u32 \<Rightarrow> u32 list \<Rightarrow> u32 option \<Rightarrow> (nat \<times> unit) list \<Rightarrow> sparse_merkle_error + (nat \<times> unit) list" where
  "validate_index_loop depth [] prev out = Inr out"
| "validate_index_loop depth (index # indices) prev out =
    bind_res (validate_index index depth) (\<lambda>_.
    bind_res (case prev of
        Some prev \<Rightarrow> if index < prev then Inl UnsortedIndices
          else if index = prev then Inl (DuplicateIndex index) else Inr ()
      | None \<Rightarrow> Inr ()) (\<lambda>_.
      validate_index_loop depth indices (Some index) (bt_insert (unat index) () out)))"

definition validate_indices :: "u32 list \<Rightarrow> u32 \<Rightarrow> sparse_merkle_error + nat list" where
  "validate_indices indices depth =
    bind_res (validate_depth depth) (\<lambda>_.
      if indices = [] then Inl EmptyIndices
      else bind_res (validate_index_loop depth indices None []) (\<lambda>out. Inr (map fst out)))"

section \<open>The node cache\<close>

record sparse_merkle_cache =
  sc_depth :: u32
  sc_zero_roots :: "digest list"
  sc_nodes :: "nat \<times> nat \<rightharpoonup> digest"

definition cache_new :: "u32 \<Rightarrow> sparse_merkle_error + sparse_merkle_cache" where
  "cache_new depth =
    bind_res (validate_depth depth) (\<lambda>_.
      Inr \<lparr> sc_depth = depth, sc_zero_roots = zero_slot_roots (unat depth), sc_nodes = Map.empty \<rparr>)"

definition node_hash :: "sparse_merkle_cache \<Rightarrow> nat \<Rightarrow> nat \<Rightarrow> digest" where
  "node_hash c level index =
    (case sc_nodes c (level, index) of Some h \<Rightarrow> h | None \<Rightarrow> sc_zero_roots c ! level)"

definition cache_root :: "sparse_merkle_cache \<Rightarrow> digest" where
  "cache_root c = node_hash c (unat (sc_depth c)) 0"

definition set_node :: "nat \<Rightarrow> nat \<Rightarrow> digest \<Rightarrow> sparse_merkle_cache \<Rightarrow> sparse_merkle_cache" where
  "set_node level index hash c =
    (if hash = sc_zero_roots c ! level then c\<lparr> sc_nodes := (sc_nodes c)((level, index) := None) \<rparr>
     else c\<lparr> sc_nodes := (sc_nodes c)((level, index) \<mapsto> hash) \<rparr>)"

definition set_leaf_step :: "nat \<Rightarrow> sparse_merkle_cache \<times> nat \<times> digest \<Rightarrow> sparse_merkle_cache \<times> nat \<times> digest" where
  "set_leaf_step level = (\<lambda>(c, idx, hash).
    let sibling_idx = idx XOR 1;
        base = 2 * (idx div 2);
        (left, right) = (if idx = base then (hash, node_hash c level sibling_idx)
                         else (node_hash c level sibling_idx, hash));
        hash = state_node_hash left right;
        idx = base div 2
    in (set_node (level + 1) idx hash c, idx, hash))"

definition set_leaf :: "u32 \<Rightarrow> digest \<Rightarrow> sparse_merkle_cache \<Rightarrow> sparse_merkle_error + sparse_merkle_cache" where
  "set_leaf index leaf c =
    bind_res (validate_index index (sc_depth c)) (\<lambda>_.
      Inr (fst (fold set_leaf_step [0..<unat (sc_depth c)] (set_node 0 (unat index) leaf c, unat index, leaf))))"

definition from_leaves :: "u32 \<Rightarrow> (u32 \<times> digest) list \<Rightarrow> sparse_merkle_error + sparse_merkle_cache" where
  "from_leaves depth leaves =
    bind_res (cache_new depth) (fold_res (\<lambda>(index, leaf). set_leaf index leaf) leaves)"

section \<open>Frontiers\<close>

definition count_level :: "nat list \<Rightarrow> nat \<Rightarrow> (nat \<times> unit) list \<times> nat" where
  "count_level known count =
    for_parents known (\<lambda>base (next, count).
      (bt_insert (base div 2) () next,
       if (base \<in> set known) \<noteq> (base + 1 \<in> set known) then count + 1 else count)) ([], count)"

definition expected_sibling_count :: "u32 list \<Rightarrow> u32 \<Rightarrow> sparse_merkle_error + nat" where
  "expected_sibling_count indices depth =
    bind_res (validate_indices indices depth) (\<lambda>known.
      Inr (snd (fold (\<lambda>_ (known, count). apfst (map fst) (count_level known count))
        [0..<unat depth] (known, 0))))"

type_synonym frontier_sibling_position = "nat \<times> nat"

definition position_level :: "nat \<Rightarrow> nat list \<Rightarrow> frontier_sibling_position list
    \<Rightarrow> (nat \<times> unit) list \<times> frontier_sibling_position list" where
  "position_level level known positions =
    for_parents known (\<lambda>base (next, positions).
      (bt_insert (base div 2) () next,
       case (base \<in> set known, base + 1 \<in> set known) of
         (True, False) \<Rightarrow> positions @ [(level, base + 1)]
       | (False, True) \<Rightarrow> positions @ [(level, base)]
       | _ \<Rightarrow> positions)) ([], positions)"

definition frontier_sibling_positions :: "u32 list \<Rightarrow> u32 \<Rightarrow> sparse_merkle_error + frontier_sibling_position list" where
  "frontier_sibling_positions indices depth =
    bind_res (validate_indices indices depth) (\<lambda>known.
      Inr (snd (fold (\<lambda>level (known, positions). apfst (map fst) (position_level level known positions))
        [0..<unat depth] (known, []))))"

section \<open>Reconstruction\<close>

definition reconstruct_level :: "digest list \<Rightarrow> (nat \<times> digest) list \<Rightarrow> nat \<Rightarrow> (nat \<times> digest) list \<times> nat" where
  "reconstruct_level siblings known cursor =
    for_parents (map fst known) (\<lambda>base (next, cursor).
      let (parent, cursor) =
        (case (map_of known base, map_of known (base + 1)) of
           (Some left, Some right) \<Rightarrow> (state_node_hash left right, cursor)
         | (Some left, None) \<Rightarrow> (state_node_hash left (siblings ! cursor), cursor + 1)
         | (None, Some right) \<Rightarrow> (state_node_hash (siblings ! cursor) right, cursor + 1)
         | (None, None) \<Rightarrow> ([], cursor))
      in (bt_insert (base div 2) parent next, cursor)) ([], cursor)"

definition collect_leaves :: "u32 list \<Rightarrow> 'v list \<Rightarrow> (nat \<times> 'v) list" where
  "collect_leaves indices leaves =
    fold (\<lambda>(index, leaf). bt_insert (unat index) leaf) (zip indices leaves) []"

definition reconstruct_root :: "u32 list \<Rightarrow> digest list \<Rightarrow> digest list \<Rightarrow> u32 \<Rightarrow> sparse_merkle_error + digest" where
  "reconstruct_root indices leaves siblings depth =
    (if length indices \<noteq> length leaves then Inl (LeafCountMismatch (length indices) (length leaves))
     else bind_res (expected_sibling_count indices depth) (\<lambda>expected.
       if length siblings \<noteq> expected then Inl (ProofLengthMismatch expected (length siblings))
       else
         let (known, cursor) = fold (\<lambda>_ (known, cursor). reconstruct_level siblings known cursor)
               [0..<unat depth] (collect_leaves indices leaves, 0)
         in case known of
              (k, root) # _ \<Rightarrow> if k = 0 then Inr root else Inl (InvalidDepth depth)
            | [] \<Rightarrow> Inl (InvalidDepth depth)))"

definition build_multiproof :: "sparse_merkle_cache \<Rightarrow> u32 list \<Rightarrow> u32 \<Rightarrow> sparse_merkle_error + digest list" where
  "build_multiproof cache indices depth =
    (if sc_depth cache \<noteq> depth then Inl (CacheDepthMismatch (sc_depth cache) depth)
     else bind_res (frontier_sibling_positions indices depth) (\<lambda>positions.
       Inr (map (\<lambda>(level, node_index). node_hash cache level node_index) positions)))"

definition STRUCTURAL_FRONTIER_PAD :: digest where
  "STRUCTURAL_FRONTIER_PAD = replicate 32 0"

definition pad_frontier_siblings :: "u32 list \<Rightarrow> digest list \<Rightarrow> u32 \<Rightarrow> nat \<Rightarrow> sparse_merkle_error + digest list" where
  "pad_frontier_siblings indices siblings depth capacity =
    bind_res (expected_sibling_count indices depth) (\<lambda>required.
      if length siblings \<noteq> required then Inl (ProofLengthMismatch required (length siblings))
      else if required > capacity then Inl (FrontierCapacityExceeded required capacity)
      else Inr (siblings @ replicate (capacity - length siblings) STRUCTURAL_FRONTIER_PAD))"

definition unpad_frontier_siblings :: "u32 list \<Rightarrow> digest list \<Rightarrow> u32 \<Rightarrow> nat \<Rightarrow> sparse_merkle_error + digest list" where
  "unpad_frontier_siblings indices padded depth capacity =
    (if length padded \<noteq> capacity then Inl (PaddedProofLengthMismatch capacity (length padded))
     else bind_res (expected_sibling_count indices depth) (\<lambda>required.
       if required > capacity then Inl (FrontierCapacityExceeded required capacity)
       else case find (\<lambda>(_, digest). digest \<noteq> STRUCTURAL_FRONTIER_PAD) (enumerate 0 (drop required padded)) of
              Some (offset, _) \<Rightarrow> Inl (NonCanonicalPadding (required + offset))
            | None \<Rightarrow> Inr (take required padded)))"

section \<open>Ordered traversal\<close>

abbreviation ascending :: "nat list \<Rightarrow> bool" where
  "ascending \<equiv> sorted_wrt (<)"

lemma ascending_unique: "ascending xs \<Longrightarrow> xs = sorted_list_of_set (set xs)"
  by (simp add: strict_sorted_iff sorted_list_of_set.idem_if_sorted_distinct)

lemma bt_insert_last: "(\<And>k'. k' \<in> fst ` set m \<Longrightarrow> k' < k) \<Longrightarrow> bt_insert k v m = m @ [(k, v)]"
  by (induction k v m rule: bt_insert.induct) force+

text \<open>The parents of a set of positions, in increasing order.\<close>

definition parents :: "nat set \<Rightarrow> nat list" where
  "parents K = sorted_list_of_set ((\<lambda>k. k div 2) ` K)"

lemma ascending_parents [simp]: "ascending (parents K)"
  by (simp add: parents_def)

lemma set_parents [simp]: "finite K \<Longrightarrow> set (parents K) = (\<lambda>k. k div 2) ` K"
  by (simp add: parents_def)

fun fresh :: "nat set \<Rightarrow> nat list \<Rightarrow> nat list" where
  "fresh S [] = []"
| "fresh S (b # bs) = (if b \<in> S then fresh S bs else b # fresh (insert b S) bs)"

lemma set_fresh: "set (fresh S bs) = set bs - S"
  by (induction S bs rule: fresh.induct) auto

lemma ascending_fresh: "sorted bs \<Longrightarrow> ascending (fresh S bs)"
  by (induction S bs rule: fresh.induct) (auto simp: set_fresh order.strict_iff_order)

lemma for_parents_fresh:
  "fold (\<lambda>pos (processed, s). let base = 2 * (pos div 2)
      in if base \<in> processed then (processed, s) else (insert base processed, body base s)) keys (S, s)
   = (S \<union> set (map (\<lambda>k. 2 * (k div 2)) keys), fold body (fresh S (map (\<lambda>k. 2 * (k div 2)) keys)) s)"
  by (induction keys arbitrary: S s) (auto simp: Let_def)

lemma for_parents_eq:
  assumes "ascending keys"
  shows "for_parents keys body s = fold body (map ((*) 2) (parents (set keys))) s"
proof -
  let ?bs = "map (\<lambda>k. 2 * (k div 2)) keys"
  have "sorted ?bs"
    using assms by (auto simp: sorted_wrt_map strict_sorted_iff div_le_mono elim!: sorted_wrt_mono_rel[rotated])
  then have "fresh {} ?bs = sorted_list_of_set (set ?bs)"
    using ascending_unique[OF ascending_fresh, of ?bs "{}"] by (simp add: set_fresh)
  also have "\<dots> = map ((*) 2) (parents (set keys))"
    using ascending_unique[of "map ((*) 2) (parents (set keys))"]
    by (simp add: sorted_wrt_map image_image)
  finally show ?thesis unfolding for_parents_def for_parents_fresh by simp
qed

text \<open>A pass that inserts one value per parent builds the map of the next level.\<close>

lemma for_parents_insert:
  assumes "ascending keys"
    and "\<And>xs p ys. parents (set keys) = xs @ p # ys \<Longrightarrow> val (2 * p) (fold (\<lambda>p. upd (2 * p)) xs s) = g p"
  shows "for_parents keys (\<lambda>base (next, s). (bt_insert (base div 2) (val base s) next, upd base s)) ([], s) =
    (map (\<lambda>p. (p, g p)) (parents (set keys)), fold (\<lambda>p. upd (2 * p)) (parents (set keys)) s)"
proof -
  have "fold (\<lambda>base (next, s). (bt_insert (base div 2) (val base s) next, upd base s)) (map ((*) 2) xs) ([], s) =
      (map (\<lambda>p. (p, g p)) xs, fold (\<lambda>p. upd (2 * p)) xs s)"
    if "parents (set keys) = xs @ ys" for xs ys
    using that
  proof (induction xs arbitrary: ys rule: rev_induct)
    case (snoc p xs)
    have "ascending (xs @ p # ys)" using snoc.prems ascending_parents[of "set keys"] by simp
    then have "bt_insert p (g p) (map (\<lambda>p. (p, g p)) xs) = map (\<lambda>p. (p, g p)) xs @ [(p, g p)]"
      by (intro bt_insert_last) (auto simp: sorted_wrt_append)
    then show ?case using snoc.IH[of "p # ys"] snoc.prems assms(2)[of xs p ys] by simp
  qed simp
  from this[of "parents (set keys)" "[]"] show ?thesis by (simp add: for_parents_eq[OF assms(1)])
qed

section \<open>Index validation\<close>

lemma validate_index_iff: "validate_index i d = Inr u \<longleftrightarrow> d \<le> 32 \<and> unat i < 2 ^ unat d"
  by (auto simp: validate_index_def validate_depth_def)

lemma validate_index_loop_iff:
  assumes "\<And>k. k \<in> fst ` set out \<Longrightarrow> \<exists>p. prev = Some p \<and> k \<le> unat p"
  shows "validate_index_loop d indices prev out = Inr out' \<longleftrightarrow>
    (\<forall>i \<in> set indices. d \<le> 32 \<and> unat i < 2 ^ unat d) \<and>
    sorted_wrt (<) ((case prev of None \<Rightarrow> [] | Some p \<Rightarrow> [p]) @ indices) \<and>
    out' = out @ map (\<lambda>i. (unat i, ())) indices"
  using assms
proof (induction d indices prev out rule: validate_index_loop.induct)
  case (1 d prev out)
  then show ?case by (cases prev) auto
next
  case (2 d i indices prev out)
  show ?case
  proof (cases "validate_index i d = Inr () \<and> (case prev of Some p \<Rightarrow> p < i | None \<Rightarrow> True)")
    case False
    then show ?thesis by (auto simp: validate_index_iff not_less split: option.splits)
  next
    case True
    then have bi: "bt_insert (unat i) () out = out @ [(unat i, ())]"
      using 2(2) by (intro bt_insert_last) (fastforce simp: word_less_nat_alt split: option.splits)
    have "validate_index_loop d indices (Some i) (bt_insert (unat i) () out) = Inr out' \<longleftrightarrow>
      (\<forall>i \<in> set indices. d \<le> 32 \<and> unat i < 2 ^ unat d) \<and> sorted_wrt (<) (i # indices) \<and>
      out' = bt_insert (unat i) () out @ map (\<lambda>i. (unat i, ())) indices"
    proof (subst 2(1)[of "()" "()"])
      show "validate_index i d = Inr ()" using True by simp
      show "(case prev of Some p \<Rightarrow> if i < p then Inl UnsortedIndices
          else if i = p then Inl (DuplicateIndex i) else Inr () | None \<Rightarrow> Inr ()) = Inr ()"
        using True by (auto split: option.splits)
      show "\<exists>p. Some i = Some p \<and> k \<le> unat p" if "k \<in> fst ` set (bt_insert (unat i) () out)" for k
        using that 2(2) True by (fastforce simp: bi word_less_nat_alt split: option.splits)
    qed simp
    then show ?thesis using True by (auto simp: bi validate_index_iff split: option.splits intro: less_trans)
  qed
qed

lemma validate_indices_iff:
  "validate_indices indices depth = Inr ks \<longleftrightarrow>
    depth \<le> 32 \<and> indices \<noteq> [] \<and> sorted_wrt (<) indices \<and> (\<forall>i \<in> set indices. unat i < 2 ^ unat depth) \<and>
    ks = map unat indices"
  using validate_index_loop_iff[of "[]" None depth indices]
  by (auto simp: validate_indices_def validate_depth_def comp_def)

lemma ascending_map_unat: "sorted_wrt (<) (is :: u32 list) \<Longrightarrow> ascending (map unat is)"
  by (auto simp: sorted_wrt_map word_less_nat_alt elim: sorted_wrt_mono_rel[rotated])

section \<open>The partial tree of a multiproof\<close>

definition keys_at :: "nat set \<Rightarrow> nat \<Rightarrow> nat set" where
  "keys_at K l = (\<lambda>i. i div 2 ^ l) ` K"

lemma keys_at_0 [simp]: "keys_at K 0 = K"
  by (simp add: keys_at_def)

lemma keys_at_Suc: "keys_at K (Suc l) = (\<lambda>k. k div 2) ` keys_at K l"
  by (auto simp: keys_at_def image_image div_mult2_eq mult.commute[of 2])

lemma finite_keys_at [simp]: "finite K \<Longrightarrow> finite (keys_at K l)"
  by (simp add: keys_at_def)

lemma keys_at_top: "K \<noteq> {} \<Longrightarrow> (\<And>i. i \<in> K \<Longrightarrow> i < 2 ^ d) \<Longrightarrow> keys_at K d = {0}"
  by (auto simp: keys_at_def)

text \<open>The children of a parent that are not known, and the frontier of a level.\<close>

definition missing_of :: "nat set \<Rightarrow> nat \<Rightarrow> nat list" where
  "missing_of K p = (if 2 * p \<in> K then [] else [2 * p]) @ (if Suc (2 * p) \<in> K then [] else [Suc (2 * p)])"

definition missing :: "nat set \<Rightarrow> nat list" where
  "missing K = concat (map (missing_of K) (parents K))"

definition frontier :: "nat set \<Rightarrow> nat \<Rightarrow> (nat \<times> nat) list" where
  "frontier K d = concat (map (\<lambda>l. map (Pair l) (missing (keys_at K l))) [0..<d])"

lemma frontier_Suc: "frontier K (Suc d) = frontier K d @ map (Pair d) (missing (keys_at K d))"
  by (simp add: frontier_def)

text \<open>The nodes determined by touched leaves and the sibling hashes at the frontier.\<close>

primrec partial_tree :: "nat set \<Rightarrow> (nat \<Rightarrow> digest) \<Rightarrow> (nat \<times> nat \<Rightarrow> digest) \<Rightarrow> nat \<Rightarrow> nat \<Rightarrow> digest" where
  "partial_tree K leaf sib 0 i = (if i \<in> K then leaf i else sib (0, i))"
| "partial_tree K leaf sib (Suc l) i =
    (if i \<in> keys_at K (Suc l)
     then state_node_hash (partial_tree K leaf sib l (2 * i)) (partial_tree K leaf sib l (Suc (2 * i)))
     else sib (Suc l, i))"

lemma partial_tree_sib: "i \<notin> keys_at K l \<Longrightarrow> partial_tree K leaf sib l i = sib (l, i)"
  by (cases l) simp_all

lemma keys_at_child: "p \<in> keys_at K (Suc l) \<Longrightarrow> 2 * p \<in> keys_at K l \<or> Suc (2 * p) \<in> keys_at K l"
proof -
  assume "p \<in> keys_at K (Suc l)"
  then obtain k where k: "k \<in> keys_at K l" "p = k div 2" by (auto simp: keys_at_Suc)
  have "k = 2 * p \<or> k = Suc (2 * p)" using k(2) by presburger
  then show ?thesis using k(1) by auto
qed

lemma missing_sibling: "finite K \<Longrightarrow> i \<in> set (missing K) \<Longrightarrow> i \<notin> K"
  by (auto simp: missing_def missing_of_def split: if_splits)

lemma distinct_missing: "distinct (missing K)"
proof -
  have "distinct (concat (map (missing_of K) ps))" if "ascending ps" for ps
    using that
  proof (induction ps)
    case (Cons p ps)
    have "set (missing_of K p) \<inter> set (missing_of K q) = {}" if "q \<in> set ps" for q
      using Cons.prems that by (auto simp: missing_of_def split: if_splits; presburger)
    then show ?case using Cons by (auto simp: missing_of_def)
  qed simp
  then show ?thesis by (simp add: missing_def)
qed

lemma distinct_frontier: "distinct (frontier K d)"
proof (induction d)
  case (Suc d)
  moreover have "set (frontier K d) \<inter> Pair d ` S = {}" for S by (auto simp: frontier_def)
  ultimately show ?case by (simp add: frontier_Suc distinct_map distinct_missing inj_on_def)
qed (simp add: frontier_def)

lemma length_frontier: "length (frontier K (Suc d)) = length (frontier K d) + length (missing (keys_at K d))"
  by (simp add: frontier_Suc)

text \<open>Both traversals agree with the frontier.\<close>

lemma keys_list: "finite K \<Longrightarrow> set (sorted_list_of_set K) = K" "ascending (sorted_list_of_set K)"
  by simp_all

lemma map_fst_unit: "map fst (map (\<lambda>p. (p, g p)) ps) = ps"
  by (simp add: comp_def)

lemma parents_next: "finite K \<Longrightarrow> parents (keys_at K l) = sorted_list_of_set (keys_at K (Suc l))"
  by (simp add: parents_def keys_at_Suc)

lemma count_level_eq:
  assumes "finite K"
  shows "apfst (map fst) (count_level (sorted_list_of_set (keys_at K l)) n) =
    (sorted_list_of_set (keys_at K (Suc l)), n + length (missing (keys_at K l)))"
proof -
  let ?K = "keys_at K l"
  let ?upd = "\<lambda>base n. if (base \<in> ?K) \<noteq> (base + 1 \<in> ?K) then n + 1 else n"
  have "fold (\<lambda>p. ?upd (2 * p)) ps n = n + length (concat (map (missing_of ?K) ps))"
    if "set ps \<subseteq> keys_at K (Suc l)" for ps n
    using that
  proof (induction ps arbitrary: n)
    case (Cons p ps)
    then show ?case using keys_at_child[of p K l] by (auto simp: missing_of_def)
  qed simp
  from this[of "parents ?K" n] show ?thesis
    using for_parents_insert[of "sorted_list_of_set ?K" "\<lambda>_ _. ()" ?upd n "\<lambda>_. ()"] assms
    by (simp add: count_level_def missing_def parents_next comp_def)
qed

lemma position_level_eq:
  assumes "finite K"
  shows "apfst (map fst) (position_level l (sorted_list_of_set (keys_at K l)) ps) =
    (sorted_list_of_set (keys_at K (Suc l)), ps @ map (Pair l) (missing (keys_at K l)))"
proof -
  let ?K = "keys_at K l"
  let ?upd = "\<lambda>base ps. case (base \<in> ?K, base + 1 \<in> ?K) of
         (True, False) \<Rightarrow> ps @ [(l, base + 1)] | (False, True) \<Rightarrow> ps @ [(l, base)] | _ \<Rightarrow> ps"
  have "fold (\<lambda>p. ?upd (2 * p)) qs ps = ps @ map (Pair l) (concat (map (missing_of ?K) qs))"
    if "set qs \<subseteq> keys_at K (Suc l)" for qs ps
    using that
  proof (induction qs arbitrary: ps)
    case (Cons p qs)
    then show ?case using keys_at_child[of p K l] by (auto simp: missing_of_def)
  qed simp
  from this[of "parents ?K" ps] show ?thesis
    using for_parents_insert[of "sorted_list_of_set ?K" "\<lambda>_ _. ()" ?upd ps "\<lambda>_. ()"] assms
    by (simp add: position_level_def missing_def parents_next comp_def)
qed

definition valid_indices :: "u32 list \<Rightarrow> u32 \<Rightarrow> bool" where
  "valid_indices indices depth \<longleftrightarrow>
    depth \<le> 32 \<and> indices \<noteq> [] \<and> sorted_wrt (<) indices \<and> (\<forall>i \<in> set indices. unat i < 2 ^ unat depth)"

abbreviation index_set :: "u32 list \<Rightarrow> nat set" where
  "index_set indices \<equiv> unat ` set indices"

lemma valid_indices_keys:
  "valid_indices indices depth \<Longrightarrow> map unat indices = sorted_list_of_set (index_set indices)"
  using ascending_unique[OF ascending_map_unat, of indices] by (simp add: valid_indices_def)

lemma expected_sibling_count_iff:
  "expected_sibling_count indices depth = Inr n \<longleftrightarrow>
    valid_indices indices depth \<and> n = length (frontier (index_set indices) (unat depth))"
proof -
  let ?K = "index_set indices"
  have "fold (\<lambda>_ (known, count). apfst (map fst) (count_level known count)) [0..<d]
      (sorted_list_of_set ?K, 0) = (sorted_list_of_set (keys_at ?K d), length (frontier ?K d))" for d
    by (induction d) (simp_all add: count_level_eq length_frontier, simp add: frontier_def)
  then show ?thesis
    using valid_indices_keys[of indices depth]
    by (auto simp: expected_sibling_count_def validate_indices_iff valid_indices_def)
qed

lemma frontier_sibling_positions_iff:
  "frontier_sibling_positions indices depth = Inr ps \<longleftrightarrow>
    valid_indices indices depth \<and> ps = frontier (index_set indices) (unat depth)"
proof -
  let ?K = "index_set indices"
  have "fold (\<lambda>level (known, positions). apfst (map fst) (position_level level known positions)) [0..<d]
      (sorted_list_of_set ?K, []) = (sorted_list_of_set (keys_at ?K d), frontier ?K d)" for d
    by (induction d) (simp_all add: position_level_eq frontier_Suc, simp add: frontier_def)
  then show ?thesis
    using valid_indices_keys[of indices depth]
    by (auto simp: frontier_sibling_positions_def validate_indices_iff valid_indices_def)
qed

section \<open>Reconstruction computes the root of the partial tree\<close>

lemma map_of_keys:
  "finite K \<Longrightarrow> map_of (map (\<lambda>k. (k, v k)) (sorted_list_of_set K)) i = (if i \<in> K then Some (v i) else None)"
  by (auto simp: map_of_map_restrict restrict_map_def)

lemma reconstruct_level_eq:
  assumes K: "finite K"
    and s: "\<And>j. j < length (missing (keys_at K l)) \<Longrightarrow> siblings ! (c + j) = sib (l, missing (keys_at K l) ! j)"
  shows "reconstruct_level siblings (map (\<lambda>k. (k, partial_tree K leaf sib l k)) (sorted_list_of_set (keys_at K l))) c =
    (map (\<lambda>k. (k, partial_tree K leaf sib (Suc l) k)) (sorted_list_of_set (keys_at K (Suc l))),
     c + length (missing (keys_at K l)))"
proof -
  let ?K = "keys_at K l" and ?v = "partial_tree K leaf sib l"
  let ?get = "\<lambda>i. if i \<in> ?K then Some (?v i) else None"
  let ?case = "\<lambda>base cursor. case (?get base, ?get (base + 1)) of
           (Some left, Some right) \<Rightarrow> (state_node_hash left right, cursor)
         | (Some left, None) \<Rightarrow> (state_node_hash left (siblings ! cursor), cursor + 1)
         | (None, Some right) \<Rightarrow> (state_node_hash (siblings ! cursor) right, cursor + 1)
         | (None, None) \<Rightarrow> ([], cursor)"
  have upd: "fold (\<lambda>p. (\<lambda>base c. snd (?case base c)) (2 * p)) ps c = c + length (concat (map (missing_of ?K) ps))"
    if "set ps \<subseteq> keys_at K (Suc l)" for ps c
    using that
  proof (induction ps arbitrary: c)
    case (Cons p ps)
    then show ?case using keys_at_child[of p K l] by (auto simp: missing_of_def)
  qed simp
  have val: "fst (?case (2 * p) (fold (\<lambda>p. (\<lambda>base c. snd (?case base c)) (2 * p)) xs c)) =
      partial_tree K leaf sib (Suc l) p" if "parents ?K = xs @ p # ys" for xs p ys
  proof -
    have mem: "set (xs @ p # ys) = keys_at K (Suc l)" using that K set_parents[of ?K] by (simp add: keys_at_Suc)
    have "missing ?K = concat (map (missing_of ?K) xs) @ missing_of ?K p @ concat (map (missing_of ?K) ys)"
      using that by (simp add: missing_def)
    then have sib: "siblings ! (c + length (concat (map (missing_of ?K) xs))) = sib (l, m)"
      if "missing_of ?K p = [m]" for m
      using s[of "length (concat (map (missing_of ?K) xs))"] that by (simp add: nth_append)
    have "2 * p \<in> ?K \<or> Suc (2 * p) \<in> ?K" using keys_at_child[of p K l] mem by auto
    then have "fst (?case (2 * p) (c + length (concat (map (missing_of ?K) xs)))) =
        state_node_hash (?v (2 * p)) (?v (Suc (2 * p)))"
      using sib[of "2 * p"] sib[of "Suc (2 * p)"] by (auto simp: missing_of_def partial_tree_sib)
    moreover have "fold (\<lambda>p. (\<lambda>base c. snd (?case base c)) (2 * p)) xs c = c + length (concat (map (missing_of ?K) xs))"
      by (rule upd) (use mem in auto)
    moreover have "p \<in> keys_at K (Suc l)" using mem by auto
    ultimately show ?thesis by (simp only: partial_tree.simps if_True)
  qed
  have body: "(\<lambda>base (next, cursor). let (parent, cursor) = ?case base cursor in (bt_insert (base div 2) parent next, cursor)) =
      (\<lambda>base (next, cursor). (bt_insert (base div 2) (fst (?case base cursor)) next, snd (?case base cursor)))"
    by (intro ext) (simp add: case_prod_beta Let_def)
  show ?thesis
    using for_parents_insert[of "sorted_list_of_set ?K" "\<lambda>base c. fst (?case base c)" "\<lambda>base c. snd (?case base c)" c
        "partial_tree K leaf sib (Suc l)"] K val upd[of "parents ?K" c]
    unfolding reconstruct_level_def map_of_keys[OF finite_keys_at[OF K]] map_fst_unit body
    by (simp add: parents_next missing_def del: partial_tree.simps)
qed

definition proof_sibling :: "u32 list \<Rightarrow> u32 \<Rightarrow> digest list \<Rightarrow> nat \<times> nat \<Rightarrow> digest" where
  "proof_sibling indices depth siblings pos =
    the (map_of (zip (frontier (index_set indices) (unat depth)) siblings) pos)"

definition proof_leaf :: "u32 list \<Rightarrow> digest list \<Rightarrow> nat \<Rightarrow> digest" where
  "proof_leaf indices leaves i = the (map_of (zip (map unat indices) leaves) i)"

definition proof_node :: "u32 list \<Rightarrow> u32 \<Rightarrow> digest list \<Rightarrow> digest list \<Rightarrow> nat \<Rightarrow> nat \<Rightarrow> digest" where
  "proof_node indices depth leaves siblings =
    partial_tree (index_set indices) (proof_leaf indices leaves) (proof_sibling indices depth siblings)"

lemma proof_sibling_nth:
  assumes "length siblings = length (frontier (index_set indices) (unat depth))" "n < length siblings"
  shows "proof_sibling indices depth siblings (frontier (index_set indices) (unat depth) ! n) = siblings ! n"
  using assms by (simp add: proof_sibling_def map_of_zip_nth distinct_frontier)

lemma proof_leaf_nth:
  assumes "sorted_wrt (<) indices" "length leaves = length indices" "n < length leaves"
  shows "proof_leaf indices leaves (unat (indices ! n)) = leaves ! n"
proof -
  have "distinct (map unat indices)"
    using ascending_map_unat[OF assms(1)] by (simp add: strict_sorted_iff)
  then show ?thesis using assms map_of_zip_nth[of "map unat indices" leaves n] by (simp add: proof_leaf_def)
qed

lemma collect_leaves_zip:
  assumes "sorted_wrt (<) indices" "length leaves = length indices"
  shows "collect_leaves indices leaves = zip (map unat indices) leaves"
proof -
  have "fold (\<lambda>(i, leaf). bt_insert (unat i) leaf) (zip ks ls) m = m @ zip (map unat ks) ls"
    if "length ks = length ls" "sorted_wrt (<) ks" "\<forall>k \<in> fst ` set m. \<forall>i \<in> set ks. k < unat i" for ks ls m
    using that
  proof (induction ks ls arbitrary: m rule: list_induct2)
    case (Cons i ks l ls)
    then have "bt_insert (unat i) l m = m @ [(unat i, l)]" by (intro bt_insert_last) auto
    then show ?case using Cons by (auto simp: word_less_nat_alt)
  qed simp
  from this[of indices leaves "[]"] show ?thesis using assms by (simp add: collect_leaves_def)
qed

lemma collect_leaves_eq:
  assumes "valid_indices indices depth" "length leaves = length indices"
  shows "collect_leaves indices leaves =
    map (\<lambda>k. (k, proof_leaf indices leaves k)) (sorted_list_of_set (index_set indices))"
proof -
  have "collect_leaves indices leaves = zip (map unat indices) leaves"
    using assms by (simp add: collect_leaves_zip valid_indices_def)
  also have "\<dots> = map (\<lambda>k. (k, proof_leaf indices leaves k)) (map unat indices)"
    using assms proof_leaf_nth[of indices leaves] by (intro nth_equalityI) (simp_all add: valid_indices_def)
  finally show ?thesis using valid_indices_keys[OF assms(1)] by simp
qed

lemma reconstruct_root_eq:
  assumes "valid_indices indices depth" "length leaves = length indices"
    "length siblings = length (frontier (index_set indices) (unat depth))"
  shows "reconstruct_root indices leaves siblings depth =
    Inr (proof_node indices depth leaves siblings (unat depth) 0)"
proof -
  let ?K = "index_set indices" and ?d = "unat depth"
  let ?pt = "proof_node indices depth leaves siblings"
  have levels: "fold (\<lambda>_ (known, cursor). reconstruct_level siblings known cursor) [0..<n]
      (map (\<lambda>k. (k, proof_leaf indices leaves k)) (sorted_list_of_set ?K), 0) =
      (map (\<lambda>k. (k, ?pt n k)) (sorted_list_of_set (keys_at ?K n)), length (frontier ?K n))" if "n \<le> ?d" for n
    using that
  proof (induction n)
    case 0
    then show ?case by (simp add: proof_node_def frontier_def)
  next
    case (Suc n)
    have pre: "frontier ?K ?d = frontier ?K (Suc n) @ concat (map (\<lambda>l. map (Pair l) (missing (keys_at ?K l))) [Suc n..<?d])"
      using Suc.prems upt_add_eq_append[of 0 "Suc n" "?d - Suc n"]
      by (simp add: frontier_def flip: concat_append map_append del: upt_Suc)
    have "siblings ! (length (frontier ?K n) + j) = proof_sibling indices depth siblings (n, missing (keys_at ?K n) ! j)"
      if "j < length (missing (keys_at ?K n))" for j
      using proof_sibling_nth[OF assms(3), of "length (frontier ?K n) + j"] that assms(3)
      by (simp add: pre frontier_Suc nth_append)
    then show ?case
      using Suc reconstruct_level_eq[of ?K n siblings "length (frontier ?K n)" "proof_sibling indices depth siblings"]
      by (simp add: proof_node_def length_frontier del: partial_tree.simps)
  qed
  have "keys_at ?K ?d = {0}" using assms(1) by (intro keys_at_top) (auto simp: valid_indices_def)
  then show ?thesis
    using assms levels[of ?d] expected_sibling_count_iff[of indices depth "length siblings"]
    by (simp add: reconstruct_root_def collect_leaves_eq[OF assms(1,2)])
qed

section \<open>The cache holds the reference tree\<close>

definition cache_inv :: "sparse_merkle_cache \<Rightarrow> bool" where
  "cache_inv c \<longleftrightarrow> sc_depth c \<le> 32 \<and> sc_zero_roots c = zero_slot_roots (unat (sc_depth c)) \<and>
    (\<forall>l \<le> unat (sc_depth c). \<forall>i. node_hash c l i = node_of (node_hash c 0) l i)"

lemma node_hash_set_node [simp]:
  "node_hash (set_node l i h c) l' i' = (if (l', i') = (l, i) then h else node_hash c l' i')"
  by (simp add: node_hash_def set_node_def split: option.split)

lemma set_node_fields [simp]: "sc_depth (set_node l i h c) = sc_depth c" "sc_zero_roots (set_node l i h c) = sc_zero_roots c"
  by (simp_all add: set_node_def)

lemma node_of_upd_other: "j \<noteq> i div 2 ^ l \<Longrightarrow> node_of (f(i := h)) l j = node_of f l j"
proof (rule node_of_cong)
  fix k assume "j \<noteq> i div 2 ^ l" "j * 2 ^ l \<le> k" "k < Suc j * 2 ^ l"
  moreover have "k div 2 ^ l = j" by (rule div_nat_eqI) (use calculation in \<open>simp_all add: algebra_simps\<close>)
  ultimately show "(f(i := h)) k = f k" by auto
qed

lemma cache_new_inv:
  "cache_new d = Inr c \<Longrightarrow> cache_inv c \<and> sc_depth c = d \<and> node_hash c 0 = (\<lambda>_. empty_leaf)"
proof -
  assume "cache_new d = Inr c"
  then have d: "d \<le> 32" and c: "c = \<lparr> sc_depth = d, sc_zero_roots = zero_slot_roots (unat d), sc_nodes = Map.empty \<rparr>"
    by (auto simp: cache_new_def validate_depth_def split: if_splits)
  have "node_hash c l i = zero_slot_roots (unat d) ! l" for l i by (simp add: c node_hash_def)
  moreover from this[of 0] have "node_hash c 0 = (\<lambda>_. empty_leaf)" using zero_slot_roots_nth[of 0 "unat d" 0] by auto
  ultimately show ?thesis using d c zero_slot_roots_nth[of _ "unat d"] by (auto simp: cache_inv_def)
qed

lemma odd_half: "odd (k :: nat) \<Longrightarrow> Suc (2 * (k div 2)) = k \<and> 2 * (k div 2) \<noteq> k \<and> 2 * (k div 2) = k - 1"
  by presburger

lemma set_leaf_inv:
  assumes "cache_inv c" "unat i < 2 ^ unat (sc_depth c)"
  shows "\<exists>c'. set_leaf i h c = Inr c' \<and> cache_inv c' \<and> sc_depth c' = sc_depth c \<and>
    node_hash c' 0 = (node_hash c 0)(unat i := h)"
proof -
  let ?d = "unat (sc_depth c)" and ?f = "node_hash c 0" and ?i = "unat i"
  define g where "g = ?f(?i := h)"
  have "\<exists>c'. fold set_leaf_step [0..<n] (set_node 0 ?i h c, ?i, h) = (c', ?i div 2 ^ n, node_of g n (?i div 2 ^ n)) \<and>
      sc_depth c' = sc_depth c \<and> sc_zero_roots c' = sc_zero_roots c \<and>
      (\<forall>l j. node_hash c' l j = (if l \<le> n then node_of g l j else node_hash c l j))" if "n \<le> ?d" for n
    using that
  proof (induction n)
    case 0
    then show ?case by (auto simp: g_def)
  next
    case (Suc n)
    then obtain c' where c': "fold set_leaf_step [0..<n] (set_node 0 ?i h c, ?i, h) = (c', ?i div 2 ^ n, node_of g n (?i div 2 ^ n))"
      "sc_depth c' = sc_depth c" "sc_zero_roots c' = sc_zero_roots c"
      "\<And>l j. node_hash c' l j = (if l \<le> n then node_of g l j else node_hash c l j)" by auto
    let ?k = "?i div 2 ^ n"
    have half: "?i div 2 ^ Suc n = ?k div 2" by (metis div_mult2_eq mult.commute power_Suc)
    have st: "set_leaf_step n (c', ?k, node_of g n ?k) =
        (set_node (n + 1) (?k div 2) (node_of g (Suc n) (?k div 2)) c', ?k div 2, node_of g (Suc n) (?k div 2))"
    proof (cases "even ?k")
      case True
      then have "?k XOR 1 = Suc ?k" "2 * (?k div 2) = ?k" by (simp_all only: xor_one_nat if_True) simp_all
      then show ?thesis using c'(4) by (simp add: set_leaf_step_def Let_def)
    next
      case False
      then have "?k XOR 1 = ?k - 1" using xor_one_nat[of ?k] by (simp only: if_False)
      moreover have "Suc (2 * (?k div 2)) = ?k" "2 * (?k div 2) \<noteq> ?k" "2 * (?k div 2) = ?k - 1"
        using odd_half[OF False] by blast+
      ultimately show ?thesis using c'(4) by (simp add: set_leaf_step_def Let_def)
    qed
    have "node_hash c (Suc n) j = node_of g (Suc n) j" if "j \<noteq> ?k div 2" for j
      using assms(1) Suc.prems node_of_upd_other[of j ?i "Suc n" ?f h] that half by (simp add: cache_inv_def g_def del: node_of.simps)
    then show ?case using st c' half
      by (auto simp: le_Suc_eq simp del: node_of.simps)
  qed
  from this[of ?d] obtain c' where c': "fold set_leaf_step [0..<?d] (set_node 0 ?i h c, ?i, h) = (c', ?i div 2 ^ ?d, node_of g ?d (?i div 2 ^ ?d))"
      "sc_depth c' = sc_depth c" "sc_zero_roots c' = sc_zero_roots c"
      "\<And>l j. node_hash c' l j = (if l \<le> ?d then node_of g l j else node_hash c l j)" by auto
  moreover from c'(4)[of 0] have "node_hash c' 0 = g" by auto
  moreover have "validate_index i (sc_depth c) = Inr ()"
    using assms by (simp add: validate_index_iff cache_inv_def)
  ultimately show ?thesis using assms(1) by (auto simp: set_leaf_def cache_inv_def g_def)
qed

lemma set_leaves_inv:
  assumes "cache_inv c" "\<forall>(i, h) \<in> set leaves. unat i < 2 ^ unat (sc_depth c)"
  shows "\<exists>c'. fold_res (\<lambda>(i, h). set_leaf i h) leaves c = Inr c' \<and> cache_inv c' \<and> sc_depth c' = sc_depth c \<and>
    node_hash c' 0 = fold (\<lambda>(i, h) f. f(unat i := h)) leaves (node_hash c 0)"
  using assms
proof (induction leaves arbitrary: c)
  case (Cons x leaves)
  obtain i h where x: "x = (i, h)" by (cases x)
  obtain c1 where c1: "set_leaf i h c = Inr c1" "cache_inv c1" "sc_depth c1 = sc_depth c"
    "node_hash c1 0 = (node_hash c 0)(unat i := h)"
    using set_leaf_inv[OF Cons.prems(1), of i h] Cons.prems(2) x by auto
  show ?case using Cons.IH[OF c1(2)] Cons.prems(2) c1 x by auto
qed simp

lemma cache_root_node: "cache_inv c \<Longrightarrow> cache_root c = node_of (node_hash c 0) (unat (sc_depth c)) 0"
  by (simp add: cache_root_def cache_inv_def)

text \<open>A partial tree whose siblings are nodes of a tree that has the touched leaves is that tree.\<close>

lemma partial_tree_complete:
  assumes "\<And>i. i \<in> K \<Longrightarrow> leaf i = f i"
    and "\<And>l i. l \<le> d \<Longrightarrow> i \<notin> keys_at K l \<Longrightarrow> i div 2 \<in> keys_at K (Suc l) \<Longrightarrow> sib (l, i) = node_of f l i"
  shows "l \<le> d \<Longrightarrow> i \<in> keys_at K l \<or> i div 2 \<in> keys_at K (Suc l) \<Longrightarrow> partial_tree K leaf sib l i = node_of f l i"
proof (induction l arbitrary: i)
  case 0
  then show ?case using assms(1)[of i] assms(2)[of 0 i] by auto
next
  case (Suc l)
  show ?case
  proof (cases "i \<in> keys_at K (Suc l)")
    case True
    then show ?thesis using Suc.IH[of "2 * i"] Suc.IH[of "Suc (2 * i)"] Suc.prems by simp
  next
    case False
    then show ?thesis using assms(2)[of "Suc l" i] Suc.prems by simp
  qed
qed

lemma set_frontier:
  "finite K \<Longrightarrow> l < d \<Longrightarrow> i \<notin> keys_at K l \<Longrightarrow> i div 2 \<in> keys_at K (Suc l) \<Longrightarrow> (l, i) \<in> set (frontier K d)"
proof -
  assume K: "finite K" "l < d" and i: "i \<notin> keys_at K l" "i div 2 \<in> keys_at K (Suc l)"
  have "i = 2 * (i div 2) \<or> i = Suc (2 * (i div 2))" by presburger
  then have "i \<in> set (missing_of (keys_at K l) (i div 2))" using i(1) by (auto simp: missing_of_def)
  then have "i \<in> set (missing (keys_at K l))"
    unfolding missing_def using i(2) K(1) by (auto simp: keys_at_Suc)
  then show ?thesis using K(2) by (auto simp: frontier_def)
qed

lemma node_of_off_path:
  assumes "\<And>k. k \<notin> K \<Longrightarrow> f k = g k" "i \<notin> keys_at K l"
  shows "node_of f l i = node_of g l i"
proof (rule node_of_cong)
  fix k assume "i * 2 ^ l \<le> k" "k < Suc i * 2 ^ l"
  then have "k div 2 ^ l = i" by (intro div_nat_eqI) (simp_all add: algebra_simps)
  then show "f k = g k" using assms by (auto simp: keys_at_def)
qed

lemma reconstruct_complete:
  assumes v: "valid_indices indices depth" and g: "\<And>k. k \<notin> index_set indices \<Longrightarrow> g k = f k"
  shows "reconstruct_root indices (map (\<lambda>i. g (unat i)) indices)
      (map (\<lambda>(l, i). node_of f l i) (frontier (index_set indices) (unat depth))) depth = Inr (node_of g (unat depth) 0)"
proof -
  let ?K = "index_set indices" and ?d = "unat depth"
  let ?ls = "map (\<lambda>i. g (unat i)) indices" and ?ss = "map (\<lambda>(l, i). node_of f l i) (frontier ?K ?d)"
  have top: "keys_at ?K ?d = {0}" using v by (intro keys_at_top) (auto simp: valid_indices_def)
  have leaf: "proof_leaf indices ?ls k = g k" if "k \<in> ?K" for k
    using that proof_leaf_nth[of indices ?ls] v by (auto simp: in_set_conv_nth valid_indices_def)
  have sib: "proof_sibling indices depth ?ss (l, i) = node_of g l i"
    if i: "l < ?d" "i \<notin> keys_at ?K l" "i div 2 \<in> keys_at ?K (Suc l)" for l i
  proof -
    have "(l, i) \<in> set (frontier ?K ?d)" using set_frontier[of ?K l ?d i] i by simp
    then obtain n where "n < length (frontier ?K ?d)" "frontier ?K ?d ! n = (l, i)"
      by (auto simp: in_set_conv_nth)
    then have "proof_sibling indices depth ?ss (l, i) = node_of f l i"
      using proof_sibling_nth[of ?ss indices depth n] by simp
    then show ?thesis using node_of_off_path[of ?K f g i l] g i(2) by auto
  qed
  have "proof_node indices depth ?ls ?ss ?d 0 = node_of g ?d 0"
  proof (cases ?d)
    case 0
    then show ?thesis using leaf[of 0] top by (simp add: proof_node_def)
  next
    case (Suc n)
    then show ?thesis
      using partial_tree_complete[where l = n and i = 0 and d = n and K = ?K] partial_tree_complete[where l = n and i = "Suc 0" and d = n and K = ?K]
        leaf sib top by (simp add: proof_node_def less_Suc_eq_le)
  qed
  then show ?thesis using reconstruct_root_eq[OF v, of ?ls ?ss] by simp
qed

text \<open>
  C31: multiproofs follow updates.  From a cache that holds a tree, a proof of any
  strictly increasing list of slots within the domain is built and verifies
  against the root with the current leaves; after the touched leaves are
  overwritten, the very same sibling hashes verify the new leaves against the new
  root.  One frontier therefore authenticates both sides of a state transition.
\<close>

theorem multiproof_authenticates_update:
  assumes "cache_inv c" "valid_indices indices (sc_depth c)" "length leaves = length indices"
  shows "\<exists>siblings c'. build_multiproof c indices (sc_depth c) = Inr siblings \<and>
    reconstruct_root indices (map (\<lambda>i. node_hash c 0 (unat i)) indices) siblings (sc_depth c) = Inr (cache_root c) \<and>
    fold_res (\<lambda>(i, leaf). set_leaf i leaf) (zip indices leaves) c = Inr c' \<and> cache_inv c' \<and>
    reconstruct_root indices leaves siblings (sc_depth c) = Inr (cache_root c')"
proof -
  let ?f = "node_hash c 0" and ?K = "index_set indices" and ?d = "unat (sc_depth c)"
  let ?ss = "map (\<lambda>(l, i). node_of ?f l i) (frontier ?K ?d)"
  let ?g = "fold (\<lambda>(i, h) f. f(unat i := h)) (zip indices leaves) ?f"
  have "\<forall>(l, i) \<in> set (frontier ?K ?d). l \<le> ?d" by (auto simp: frontier_def)
  then have "map (\<lambda>(l, i). node_hash c l i) (frontier ?K ?d) = ?ss"
    using assms(1) by (auto simp: cache_inv_def)
  then have b: "build_multiproof c indices (sc_depth c) = Inr ?ss"
    using frontier_sibling_positions_iff[of indices "sc_depth c"] assms(2) by (simp add: build_multiproof_def)
  have "\<forall>(i, h) \<in> set (zip indices leaves). unat i < 2 ^ ?d"
    using assms(2) by (auto simp: valid_indices_def dest: set_zip_leftD)
  then obtain c' where c': "fold_res (\<lambda>(i, h). set_leaf i h) (zip indices leaves) c = Inr c'" "cache_inv c'"
    "sc_depth c' = sc_depth c" "node_hash c' 0 = ?g"
    using set_leaves_inv[OF assms(1)] by blast
  have off: "fold (\<lambda>(i, h) f. f(unat i := h)) (zip ks ls) f k = f k" if "k \<notin> index_set ks" for ks ls f and k :: nat
    using that by (induction ks ls arbitrary: f rule: list_induct2') auto
  have on: "map (\<lambda>i. fold (\<lambda>(i, h) f. f(unat i := h)) (zip ks ls) f (unat i)) ks = ls"
    if "length ls = length ks" "distinct ks" for ks :: "u32 list" and ls f
    using that
  proof (induction ls ks arbitrary: f rule: list_induct2)
    case (Cons l ls k ks)
    then have "unat k \<notin> index_set ks" by (auto simp: word_unat_eq_iff[symmetric])
    then show ?case using Cons off[of "unat k" ks ls] by (simp del: fun_upd_apply add: fun_upd_same)
  qed simp
  have "distinct indices" using assms(2) by (auto simp: valid_indices_def strict_sorted_iff)
  then have "reconstruct_root indices leaves ?ss (sc_depth c) = Inr (node_of ?g ?d 0)"
    using reconstruct_complete[OF assms(2), of ?g ?f, OF off] on[OF assms(3)] by simp
  moreover have "reconstruct_root indices (map (\<lambda>i. ?f (unat i)) indices) ?ss (sc_depth c) = Inr (node_of ?f ?d 0)"
    using reconstruct_complete[OF assms(2), of ?f ?f] by simp
  ultimately show ?thesis using b c' cache_root_node[OF assms(1)] cache_root_node[OF c'(2)] by auto
qed

theorem multiproof_authenticates_update_witness:
  "\<exists>c siblings c'. cache_new 2 = Inr c \<and> build_multiproof c [1, 2] 2 = Inr siblings \<and>
    reconstruct_root [1, 2] [empty_leaf, empty_leaf] siblings 2 = Inr (cache_root c) \<and>
    fold_res (\<lambda>(i, leaf). set_leaf i leaf) (zip [1, 2] [zero_digest, empty_leaf]) c = Inr c' \<and> cache_inv c' \<and>
    reconstruct_root [1, 2] [zero_digest, empty_leaf] siblings 2 = Inr (cache_root c')"
proof -
  obtain c where c: "cache_new 2 = Inr c" by (simp add: cache_new_def validate_depth_def)
  note i = cache_new_inv[OF c]
  have v: "valid_indices [1, 2] (sc_depth c)" using i by (simp add: valid_indices_def)
  show ?thesis
    using c multiproof_authenticates_update[OF conjunct1[OF i] v, of "[zero_digest, empty_leaf]"] i by auto
qed

text \<open>Two node functions that agree at the root and hash their children alike agree wherever the
  paths of the touched slots lead, unless a pair of children collides.\<close>

definition path_collision :: "u32 list \<Rightarrow> u32 \<Rightarrow> (nat \<Rightarrow> nat \<Rightarrow> digest) \<Rightarrow> (nat \<Rightarrow> nat \<Rightarrow> digest) \<Rightarrow> bool" where
  "path_collision indices depth v w \<longleftrightarrow>
    (\<exists>l p. l < unat depth \<and> p \<in> keys_at (index_set indices) (Suc l) \<and>
      (v l (2 * p), v l (Suc (2 * p))) \<noteq> (w l (2 * p), w l (Suc (2 * p))) \<and>
      state_node_hash (v l (2 * p)) (v l (Suc (2 * p))) = state_node_hash (w l (2 * p)) (w l (Suc (2 * p))))"

lemma path_agree:
  assumes v: "valid_indices indices depth" and no: "\<not> path_collision indices depth f g"
    and root: "f (unat depth) 0 = g (unat depth) 0"
    and hf: "\<And>l p. p \<in> keys_at (index_set indices) (Suc l) \<Longrightarrow> f (Suc l) p = state_node_hash (f l (2 * p)) (f l (Suc (2 * p)))"
    and hg: "\<And>l p. p \<in> keys_at (index_set indices) (Suc l) \<Longrightarrow> g (Suc l) p = state_node_hash (g l (2 * p)) (g l (Suc (2 * p)))"
    and l: "l < unat depth" and p: "p \<in> keys_at (index_set indices) (Suc l)"
  shows "f l (2 * p) = g l (2 * p) \<and> f l (Suc (2 * p)) = g l (Suc (2 * p))"
proof -
  let ?K = "index_set indices" and ?d = "unat depth"
  have top: "keys_at ?K ?d = {0}" using v by (intro keys_at_top) (auto simp: valid_indices_def)
  have down: "f l (2 * p) = g l (2 * p) \<and> f l (Suc (2 * p)) = g l (Suc (2 * p))"
    if "l < ?d" "p \<in> keys_at ?K (Suc l)" "f (Suc l) p = g (Suc l) p" for l p
    using that no hf[OF that(2)] hg[OF that(2)] unfolding path_collision_def by (metis prod.inject)
  have "\<forall>i \<in> keys_at ?K (?d - n). f (?d - n) i = g (?d - n) i" if "n \<le> ?d" for n
    using that
  proof (induction n)
    case 0
    then show ?case using root top by simp
  next
    case (Suc n)
    define m where "m = ?d - Suc n"
    have m: "?d - n = Suc m" "m < ?d" using Suc.prems by (auto simp: m_def)
    show ?case unfolding m_def[symmetric]
    proof
      fix i assume i: "i \<in> keys_at ?K m"
      then have q: "i div 2 \<in> keys_at ?K (Suc m)" by (auto simp: keys_at_Suc)
      then have "f (Suc m) (i div 2) = g (Suc m) (i div 2)" using Suc m(1) by simp
      note c = down[OF m(2) q this]
      have "i = 2 * (i div 2) \<or> i = Suc (2 * (i div 2))" by presburger
      then show "f m i = g m i" using c by metis
    qed
  qed
  from this[of "?d - Suc l"] l p have "f (Suc l) p = g (Suc l) p" by simp
  from down[OF l p this] show ?thesis .
qed

lemma reconstruct_root_parts:
  assumes "reconstruct_root indices leaves siblings depth = Inr root"
  shows "valid_indices indices depth" "length leaves = length indices"
    "length siblings = length (frontier (index_set indices) (unat depth))"
    "proof_node indices depth leaves siblings (unat depth) 0 = root"
proof -
  show v: "valid_indices indices depth" and len: "length leaves = length indices"
    "length siblings = length (frontier (index_set indices) (unat depth))"
    using assms by (auto simp: reconstruct_root_def expected_sibling_count_iff split: if_splits)
  show "proof_node indices depth leaves siblings (unat depth) 0 = root" using assms reconstruct_root_eq[OF v len] by simp
qed

lemma proof_node_hash:
  "p \<in> keys_at (index_set indices) (Suc l) \<Longrightarrow> proof_node indices depth leaves siblings (Suc l) p =
    state_node_hash (proof_node indices depth leaves siblings l (2 * p)) (proof_node indices depth leaves siblings l (Suc (2 * p)))"
  by (simp add: proof_node_def)

lemma path_agree_leaf:
  assumes v: "valid_indices indices depth" and no: "\<not> path_collision indices depth f g"
    and root: "f (unat depth) 0 = g (unat depth) 0"
    and hf: "\<And>l p. p \<in> keys_at (index_set indices) (Suc l) \<Longrightarrow> f (Suc l) p = state_node_hash (f l (2 * p)) (f l (Suc (2 * p)))"
    and hg: "\<And>l p. p \<in> keys_at (index_set indices) (Suc l) \<Longrightarrow> g (Suc l) p = state_node_hash (g l (2 * p)) (g l (Suc (2 * p)))"
    and i: "i \<in> index_set indices"
  shows "f 0 i = g 0 i"
proof (cases "unat depth = 0")
  case True
  then show ?thesis using v i root by (auto simp: valid_indices_def)
next
  case False
  have "i div 2 \<in> keys_at (index_set indices) (Suc 0)" using i by (auto simp: keys_at_Suc)
  from path_agree[OF v no root hf hg _ this] False
  have "f 0 (2 * (i div 2)) = g 0 (2 * (i div 2)) \<and> f 0 (Suc (2 * (i div 2))) = g 0 (Suc (2 * (i div 2)))" by simp
  moreover have "i = 2 * (i div 2) \<or> i = Suc (2 * (i div 2))" by presburger
  ultimately show ?thesis by metis
qed

lemma proof_leaves_eqI:
  assumes "valid_indices indices depth" "length leaves = length indices" "\<And>i. i \<in> index_set indices \<Longrightarrow> proof_leaf indices leaves i = f i"
  shows "leaves = map (\<lambda>i. f (unat i)) indices"
  using assms proof_leaf_nth[of indices leaves] by (intro nth_equalityI) (auto simp: valid_indices_def)

text \<open>
  C32: multiproofs bind to the tree.  If a proof verifies against the root of a dense tree, then
  its leaves are the leaves of that tree at the touched slots, unless two different pairs of
  children hash to the same node: the pair the verifier hashed and the pair of the tree, at a
  parent on the path of a touched slot.
\<close>

theorem multiproof_binding:
  assumes "reconstruct_root indices leaves siblings depth = Inr (node_of f (unat depth) 0)"
  shows "leaves = map (\<lambda>i. f (unat i)) indices \<or>
    path_collision indices depth (proof_node indices depth leaves siblings) (node_of f)"
proof (rule disjCI)
  assume no: "\<not> path_collision indices depth (proof_node indices depth leaves siblings) (node_of f)"
  note P = reconstruct_root_parts[OF assms]
  have "proof_node indices depth leaves siblings 0 i = node_of f 0 i" if "i \<in> index_set indices" for i
    by (rule path_agree_leaf[OF P(1) no P(4) proof_node_hash _ that]) auto
  then show "leaves = map (\<lambda>i. f (unat i)) indices" by (intro proof_leaves_eqI[OF P(1,2)]) (simp add: proof_node_def)
qed

theorem multiproof_binding_witness:
  "reconstruct_root [1] [zero_digest] [empty_leaf] 1 = Inr (node_of ((\<lambda>_. empty_leaf)(1 := zero_digest)) (unat (1 :: u32)) 0) \<and>
   ([zero_digest] = map (\<lambda>i. ((\<lambda>_. empty_leaf)(1 := zero_digest)) (unat i)) [1 :: u32] \<or>
    path_collision [1] 1 (proof_node [1] 1 [zero_digest] [empty_leaf]) (node_of ((\<lambda>_. empty_leaf)(1 := zero_digest))))"
proof -
  have r: "reconstruct_root [1] [zero_digest] [empty_leaf] 1 =
      Inr (node_of ((\<lambda>_. empty_leaf)(1 := zero_digest)) (unat (1 :: u32)) 0)"
    by (simp add: reconstruct_root_def expected_sibling_count_def validate_indices_def validate_index_def validate_depth_def
        count_level_def for_parents_def collect_leaves_def reconstruct_level_def)
  show ?thesis using r multiproof_binding[OF r] by blast
qed

text \<open>
  C19: two proofs of one root agree.  If two proofs over the same positions and depth, with
  whatever siblings, reconstruct the same root, then their leaves and their siblings are
  equal, unless at a parent on the path of a touched slot the two verifiers hashed different
  pairs of children to the same node.
\<close>

theorem multiproof_unique:
  assumes "reconstruct_root indices leaves siblings depth = Inr root" "reconstruct_root indices leaves' siblings' depth = Inr root"
  shows "leaves = leaves' \<and> siblings = siblings' \<or>
    path_collision indices depth (proof_node indices depth leaves siblings) (proof_node indices depth leaves' siblings')"
proof (rule disjCI)
  let ?f = "proof_node indices depth leaves siblings" and ?g = "proof_node indices depth leaves' siblings'"
  let ?K = "index_set indices" and ?d = "unat depth"
  assume no: "\<not> path_collision indices depth ?f ?g"
  note P = reconstruct_root_parts[OF assms(1)] and Q = reconstruct_root_parts[OF assms(2)]
  have root: "?f ?d 0 = ?g ?d 0" using P(4) Q(4) by simp
  have leaf: "proof_leaf indices leaves i = proof_leaf indices leaves' i" if "i \<in> ?K" for i
    using path_agree_leaf[OF P(1) no root proof_node_hash proof_node_hash that] that by (simp add: proof_node_def)
  have "leaves = map (\<lambda>i. proof_leaf indices leaves' (unat i)) indices" using leaf by (rule proof_leaves_eqI[OF P(1,2)])
  moreover have "leaves' = map (\<lambda>i. proof_leaf indices leaves' (unat i)) indices" by (rule proof_leaves_eqI[OF P(1) Q(2)]) simp
  moreover have "siblings ! n = siblings' ! n" if n: "n < length siblings" for n
  proof -
    obtain l m where lm: "frontier ?K ?d ! n = (l, m)" by fastforce
    then have "(l, m) \<in> set (frontier ?K ?d)" using n P(3) by (metis nth_mem)
    then have l: "l < ?d" and "m \<in> set (missing (keys_at ?K l))" by (auto simp: frontier_def)
    then obtain p where p: "p \<in> keys_at ?K (Suc l)" "m \<notin> keys_at ?K l" "m = 2 * p \<or> m = Suc (2 * p)"
      by (auto simp: missing_def missing_of_def set_parents keys_at_Suc split: if_splits)
    have "?f l m = ?g l m" using path_agree[OF P(1) no root proof_node_hash proof_node_hash l p(1)] p(3) by auto
    then have "proof_sibling indices depth siblings (l, m) = proof_sibling indices depth siblings' (l, m)"
      using p(2) by (simp add: proof_node_def partial_tree_sib)
    then show ?thesis using proof_sibling_nth[OF P(3) n] proof_sibling_nth[OF Q(3), of n] n P(3) Q(3) lm by simp
  qed
  ultimately show "leaves = leaves' \<and> siblings = siblings'" using P(3) Q(3) by (auto intro: nth_equalityI)
qed

theorem multiproof_unique_witness:
  "reconstruct_root [1] [zero_digest] [empty_leaf] 1 = Inr (state_node_hash empty_leaf zero_digest) \<and>
    ([zero_digest] = [zero_digest] \<and> [empty_leaf] = [empty_leaf] \<or>
      path_collision [1] 1 (proof_node [1] 1 [zero_digest] [empty_leaf]) (proof_node [1] 1 [zero_digest] [empty_leaf]))"
proof -
  have r: "reconstruct_root [1] [zero_digest] [empty_leaf] 1 = Inr (state_node_hash empty_leaf zero_digest)"
    by (simp add: reconstruct_root_def expected_sibling_count_def validate_indices_def validate_index_def validate_depth_def
        count_level_def for_parents_def collect_leaves_def reconstruct_level_def)
  show ?thesis using r multiproof_unique[OF r r] by blast
qed

section \<open>Padding\<close>

lemma unpad_frontier_siblings_iff:
  assumes "valid_indices indices depth"
  shows "unpad_frontier_siblings indices padded depth capacity = Inr siblings \<longleftrightarrow>
    pad_frontier_siblings indices siblings depth capacity = Inr padded"
proof -
  let ?n = "length (frontier (index_set indices) (unat depth))"
  have e: "expected_sibling_count indices depth = Inr ?n"
    using assms by (simp add: expected_sibling_count_iff)
  let ?find = "\<lambda>xs. find (\<lambda>(_, digest). digest \<noteq> STRUCTURAL_FRONTIER_PAD) (enumerate 0 xs)"
  have pad: "?find xs = None \<longleftrightarrow> xs = replicate (length xs) STRUCTURAL_FRONTIER_PAD" for xs
    by (simp add: find_None_enumerate list_eq_iff_nth_eq[of xs])
  have "unpad_frontier_siblings indices padded depth capacity = Inr siblings \<longleftrightarrow>
      length padded = capacity \<and> ?n \<le> capacity \<and> siblings = take ?n padded \<and>
      drop ?n padded = replicate (capacity - ?n) STRUCTURAL_FRONTIER_PAD"
    using pad[of "drop ?n padded"]
    by (cases "?find (drop ?n padded)") (auto simp: unpad_frontier_siblings_def e)
  also have "\<dots> \<longleftrightarrow> pad_frontier_siblings indices siblings depth capacity = Inr padded"
    by (auto simp: pad_frontier_siblings_def e) (metis append_take_drop_id)
  finally show ?thesis .
qed

end
