(* ===== verification/U256.thy ===== *)
theory U256
  imports Codec
begin

text \<open>
  The 256-bit little-endian arithmetic of \<open>consensus/difficulty.rs\<close>: byte-array
  comparison, saturating addition, long division, and the 320-bit limb product
  and shifts used to scale a difficulty target.  Each routine is a translation of
  its loop; \<open>le_value\<close> reads a byte or limb array as a natural number, and the
  lemmas say which arithmetic operation on the values the routine performs.
\<close>

section \<open>Arrays as numbers\<close>

primrec le_value :: "'a::len word list \<Rightarrow> nat" where
  "le_value [] = 0"
| "le_value (d # ds) = unat d + 2 ^ LENGTH('a) * le_value ds"

lemma le_value_append:
  "le_value (xs @ ys) = le_value xs + 2 ^ (LENGTH('a) * length xs) * le_value (ys :: 'a::len word list)"
  by (induction xs) (simp_all add: power_add algebra_simps)

lemma le_value_bound: "le_value (xs :: 'a::len word list) < 2 ^ (LENGTH('a) * length xs)"
proof (induction xs)
  case (Cons d ds)
  have "unat d + 2 ^ LENGTH('a) * le_value ds < 2 ^ LENGTH('a) * Suc (le_value ds)"
    by (simp add: add.commute)
  also have "\<dots> \<le> 2 ^ LENGTH('a) * 2 ^ (LENGTH('a) * length ds)"
    using Cons.IH by (intro mult_le_mono2) simp
  finally show ?case by (simp add: power_add)
qed simp

lemma le_value_replicate_0 [simp]: "le_value (replicate n 0) = 0"
  by (induction n) simp_all

lemma le_value_eq_0_iff: "le_value xs = 0 \<longleftrightarrow> (\<forall>x \<in> set xs. x = 0)"
  by (induction xs) (auto simp: unat_eq_zero)

lemma le_value_take_Suc:
  "n < length xs \<Longrightarrow>
    le_value (take (Suc n) xs) = le_value (take n xs) + 2 ^ (LENGTH('a) * n) * unat (xs ! n :: 'a::len word)"
  by (simp add: take_Suc_conv_app_nth le_value_append min_def)

lemma le_value_inj:
  "length xs = length ys \<Longrightarrow> le_value xs = le_value ys \<longleftrightarrow> xs = (ys :: 'a::len word list)"
proof (induction xs ys rule: list_induct2)
  case (Cons x xs y ys)
  have "unat x = unat y \<and> le_value xs = le_value ys"
    if "unat x + 2 ^ LENGTH('a) * le_value xs = unat y + 2 ^ LENGTH('a) * le_value ys"
  proof -
    have "unat x = (unat x + 2 ^ LENGTH('a) * le_value xs) mod 2 ^ LENGTH('a)"
      "unat y = (unat y + 2 ^ LENGTH('a) * le_value ys) mod 2 ^ LENGTH('a)" by simp_all
    then have "unat x = unat y" using that by simp
    then show ?thesis using that by simp
  qed
  then show ?case using Cons.IH by (auto simp: word_unat_eq_iff)
qed simp

lemma unat_from_le:
  "8 * length bs \<le> LENGTH('a::len) \<Longrightarrow> unat (from_le bs :: 'a word) = le_value bs"
proof (induction bs)
  case (Cons b bs)
  let ?r = "from_le bs :: 'a word"
  have len: "8 + 8 * length bs \<le> LENGTH('a)" using Cons.prems by simp
  have "le_value bs * 2 ^ 8 < 2 ^ (8 * length bs) * 2 ^ 8"
    using le_value_bound[of bs] by simp
  also have "\<dots> \<le> 2 ^ LENGTH('a)"
    using len by (metis power_add power_increasing one_le_numeral add.commute)
  finally have fits: "le_value bs * 2 ^ 8 < 2 ^ LENGTH('a)" .
  have disj: "(ucast b :: 'a word) AND push_bit 8 ?r = 0"
    by (rule bit_word_eqI) (auto simp: bit_simps dest: bit_imp_le_length)
  have "(from_le (b # bs) :: 'a word) = ucast b + push_bit 8 ?r"
    using disjunctive_add_eq_or[OF disj] by simp
  moreover have "unat (push_bit 8 ?r) = le_value bs * 2 ^ 8"
    using Cons.IH len fits by (simp only: unat_push_bit) simp
  moreover have "unat (ucast b :: 'a word) = unat b" using len by simp
  moreover have "unat b + le_value bs * 2 ^ 8 < 2 ^ LENGTH('a)"
  proof -
    have "unat b + le_value bs * 2 ^ 8 = le_value (b # bs)" by simp
    also have "\<dots> < 2 ^ (8 * length (b # bs))" using le_value_bound[of "b # bs"] by simp
    also have "\<dots> \<le> 2 ^ LENGTH('a)" using len by (intro power_increasing) auto
    finally show ?thesis .
  qed
  ultimately show ?case by (simp add: unat_simps)
qed simp

lemma le_value_to_le:
  "LENGTH('a::len) = 8 * n \<Longrightarrow> le_value (to_le n (w :: 'a word)) = unat w"
  using unat_from_le[of "to_le n w", where 'a = 'a] by simp

section \<open>Byte-array routines\<close>

type_synonym u256 = bytes

text \<open>\<open>for i in (0..n).rev()\<close> comparing from the most significant byte.\<close>

primrec le256_lt_loop :: "nat \<Rightarrow> u256 \<Rightarrow> u256 \<Rightarrow> bool" where
  "le256_lt_loop 0 a b = False"
| "le256_lt_loop (Suc i) a b =
    (if a ! i < b ! i then True else if a ! i > b ! i then False else le256_lt_loop i a b)"

definition le256_lt :: "u256 \<Rightarrow> u256 \<Rightarrow> bool" where
  "le256_lt a b = le256_lt_loop 32 a b"

definition work_gt :: "u256 \<Rightarrow> u256 \<Rightarrow> bool" where
  "work_gt a b = le256_lt b a"

definition ge256 :: "u256 \<Rightarrow> u256 \<Rightarrow> bool" where
  "ge256 a b = (\<not> le256_lt a b)"

definition is_zero_256 :: "u256 \<Rightarrow> bool" where
  "is_zero_256 a = list_all (\<lambda>byte. byte = 0) a"

fun add_work_loop :: "u256 \<Rightarrow> u256 \<Rightarrow> u16 \<Rightarrow> u256 \<times> u16" where
  "add_work_loop (x # a) (y # b) carry =
    (let sum = ucast x + ucast y + carry;
         (result, carry') = add_work_loop a b (drop_bit 8 sum)
     in (ucast sum # result, carry'))"
| "add_work_loop a b carry = ([], carry)"

definition add_work :: "u256 \<Rightarrow> u256 \<Rightarrow> u256" where
  "add_work a b =
    (let (result, carry) = add_work_loop a b 0
     in if carry \<noteq> 0 then replicate 32 0xFF else result)"

text \<open>The loop of \<open>add_one_saturating\<close>; \<open>None\<close> when every byte carried.\<close>

primrec add_one_loop :: "u256 \<Rightarrow> u256 option" where
  "add_one_loop [] = None"
| "add_one_loop (byte # rest) =
    (if byte \<noteq> 0xFF then Some ((byte + 1) # rest)
     else case add_one_loop rest of None \<Rightarrow> None | Some r \<Rightarrow> Some ((byte + 1) # r))"

definition add_one_saturating :: "u256 \<Rightarrow> u256" where
  "add_one_saturating a = (case add_one_loop a of None \<Rightarrow> replicate 32 0xFF | Some r \<Rightarrow> r)"

primrec shl1_loop :: "u256 \<Rightarrow> u8 \<Rightarrow> u256" where
  "shl1_loop [] carry = []"
| "shl1_loop (byte # rest) carry = (push_bit 1 byte OR carry) # shl1_loop rest (drop_bit 7 byte)"

definition shl1_256 :: "u256 \<Rightarrow> u256" where
  "shl1_256 a = shl1_loop a 0"

fun sub_loop :: "u256 \<Rightarrow> u256 \<Rightarrow> int \<Rightarrow> u256" where
  "sub_loop (x # a) (y # b) borrow =
    (let diff = uint x - uint y - borrow
     in if diff < 0 then of_int (diff + 256) # sub_loop a b 1
        else of_int diff # sub_loop a b 0)"
| "sub_loop a b borrow = a"

definition sub_assign_256 :: "u256 \<Rightarrow> u256 \<Rightarrow> u256" where
  "sub_assign_256 a b = sub_loop a b 0"

definition bit_256 :: "u256 \<Rightarrow> nat \<Rightarrow> bool" where
  "bit_256 a i = (drop_bit (i mod 8) (a ! (i div 8)) AND 1 = 1)"

definition set_bit_256 :: "u256 \<Rightarrow> nat \<Rightarrow> u256" where
  "set_bit_256 a i = a[i div 8 := a ! (i div 8) OR push_bit (i mod 8) 1]"

text \<open>One iteration of the long-division loop on \<open>(quotient, remainder)\<close>.\<close>

definition div_step :: "u256 \<Rightarrow> u256 \<Rightarrow> nat \<Rightarrow> u256 \<times> u256 \<Rightarrow> u256 \<times> u256" where
  "div_step numerator denominator i qr =
    (let (quotient, remainder) = qr;
         remainder = shl1_256 remainder;
         remainder = (if bit_256 numerator i then remainder[0 := remainder ! 0 OR 1] else remainder)
     in if ge256 remainder denominator
        then (set_bit_256 quotient i, sub_assign_256 remainder denominator)
        else (quotient, remainder))"

definition div_u256 :: "u256 \<Rightarrow> u256 \<Rightarrow> u256 option" where
  "div_u256 numerator denominator =
    (if is_zero_256 denominator then None
     else Some (fst (fold (div_step numerator denominator) (rev [0..<256])
                       (replicate 32 0, replicate 32 0))))"

definition block_work :: "u256 \<Rightarrow> u256" where
  "block_work target =
    (if is_zero_256 target then replicate 32 0
     else add_one_saturating (the (div_u256 (replicate 32 0xFF) target)))"

text \<open>\<open>target_leading_zero_bits\<close>: bytes from the most significant, up to the first non-zero one.\<close>

definition leading_zeros_u8 :: "u8 \<Rightarrow> nat" where
  "leading_zeros_u8 b = length (takeWhile (\<lambda>i. \<not> bit b i) (rev [0..<8]))"

primrec leading_zero_loop :: "u8 list \<Rightarrow> nat" where
  "leading_zero_loop [] = 0"
| "leading_zero_loop (byte # rest) =
    leading_zeros_u8 byte + (if byte \<noteq> 0 then 0 else leading_zero_loop rest)"

definition target_leading_zero_bits :: "u256 \<Rightarrow> nat" where
  "target_leading_zero_bits target = leading_zero_loop (rev target)"

section \<open>320-bit limb routines\<close>

definition bytes_to_limbs :: "u256 \<Rightarrow> u64 list" where
  "bytes_to_limbs b =
    [from_le (take 8 b), from_le (take 8 (drop 8 b)), from_le (take 8 (drop 16 b)),
     from_le (take 8 (drop 24 b))]"

definition limbs_to_bytes :: "u64 list \<Rightarrow> u256" where
  "limbs_to_bytes l = to_le 8 (l ! 0) @ to_le 8 (l ! 1) @ to_le 8 (l ! 2) @ to_le 8 (l ! 3)"

primrec mul_loop :: "u64 list \<Rightarrow> u64 \<Rightarrow> u128 \<Rightarrow> u64 list" where
  "mul_loop [] factor carry = [ucast carry]"
| "mul_loop (x # a) factor carry =
    (let prod = (ucast x :: u128) * ucast factor + carry
     in ucast prod # mul_loop a factor (drop_bit 64 prod))"

definition mul_limbs_u64 :: "u64 list \<Rightarrow> u64 \<Rightarrow> u64 list" where
  "mul_limbs_u64 a factor = mul_loop a factor 0"

primrec shl_loop :: "u64 list \<Rightarrow> nat \<Rightarrow> u64 \<Rightarrow> u64 list" where
  "shl_loop [] bit_sh c = []"
| "shl_loop (limb # rest) bit_sh c =
    (push_bit bit_sh limb OR c) # shl_loop rest bit_sh (drop_bit (64 - bit_sh) limb)"

definition shl320 :: "u64 list \<Rightarrow> nat \<Rightarrow> u64 list" where
  "shl320 w n =
    (if n = 0 then w
     else let word_sh = min (n div 64) 5;
              bit_sh = n mod 64;
              out = replicate word_sh 0 @ take (5 - word_sh) w
          in if bit_sh > 0 then shl_loop out bit_sh 0 else out)"

text \<open>The right shift runs over the limbs from the top; the list is most significant first.\<close>

primrec shr_loop :: "u64 list \<Rightarrow> nat \<Rightarrow> u64 \<Rightarrow> u64 list" where
  "shr_loop [] bit_sh c = []"
| "shr_loop (limb # rest) bit_sh c =
    (drop_bit bit_sh limb OR c) # shr_loop rest bit_sh (push_bit (64 - bit_sh) limb)"

definition shr320 :: "u64 list \<Rightarrow> nat \<Rightarrow> u64 list" where
  "shr320 w n =
    (if n = 0 then w
     else let word_sh = min (n div 64) 5;
              bit_sh = n mod 64;
              out = drop word_sh w @ replicate word_sh 0
          in if bit_sh > 0 then rev (shr_loop (rev out) bit_sh 0) else out)"

definition shift_wide :: "u64 list \<Rightarrow> int \<Rightarrow> u64 list" where
  "shift_wide w net =
    (if net \<ge> 0 then shl320 w (nat (min net 319)) else shr320 w (nat (min (- net) 319)))"

lemma unat_disjoint_fits:
  assumes "x AND y = (0 :: 'a::len word)"
  shows "unat x + unat y < 2 ^ LENGTH('a)"
proof -
  have "unat x AND unat y = 0"
    using assms by (metis unsigned_and_eq unsigned_0)
  then have "unat x + unat y = unat x OR unat y" by (rule disjunctive_add_eq_or)
  also have "\<dots> = unat (x OR y)" by (simp add: unsigned_or_eq)
  finally show ?thesis by simp
qed

section \<open>What the byte routines compute\<close>

lemma le256_lt_loop_iff:
  "n \<le> length a \<Longrightarrow> n \<le> length b \<Longrightarrow>
    le256_lt_loop n a b \<longleftrightarrow> le_value (take n a) < le_value (take n b)"
proof (induction n)
  case (Suc n)
  let ?A = "le_value (take n a)" and ?B = "le_value (take n b)" and ?P = "2 ^ (8 * n) :: nat"
  have bounds: "?A < ?P" "?B < ?P"
    using le_value_bound[of "take n a"] le_value_bound[of "take n b"] Suc.prems by simp_all
  have lt: "v + ?P * x < w + ?P * y" if "x < y" "v < ?P" for v w x y :: nat
  proof -
    have "v + ?P * x < ?P * Suc x" using that by simp
    also have "\<dots> \<le> ?P * y" using that by (intro mult_le_mono2) simp
    finally show ?thesis by simp
  qed
  have vals: "le_value (take (Suc n) a) = ?A + ?P * unat (a ! n)"
    "le_value (take (Suc n) b) = ?B + ?P * unat (b ! n)"
    using Suc.prems by (simp_all add: le_value_take_Suc)
  show ?case
    unfolding vals using Suc lt[of "unat (a ! n)" "unat (b ! n)" ?A ?B]
      lt[of "unat (b ! n)" "unat (a ! n)" ?B ?A] bounds
    by (auto simp: word_less_nat_alt not_less intro: order_antisym)
qed simp

lemma le256_lt_iff:
  "wf_digest a \<Longrightarrow> wf_digest b \<Longrightarrow> le256_lt a b \<longleftrightarrow> le_value a < le_value b"
  using le256_lt_loop_iff[of 32 a b] by (simp add: le256_lt_def wf_digest_def)

lemma is_zero_256_iff: "is_zero_256 a \<longleftrightarrow> le_value a = 0"
  by (simp add: is_zero_256_def le_value_eq_0_iff list_all_iff)

lemma add_work_loop_value:
  assumes "length a = length b" "unat carry \<le> 1"
  shows "let (r, c) = add_work_loop a b carry
    in length r = length a \<and> le_value r + 2 ^ (8 * length a) * unat c = le_value a + le_value b + unat carry"
  using assms
proof (induction a b arbitrary: carry rule: list_induct2)
  case (Cons x a y b)
  define sum :: u16 where "sum = ucast x + ucast y + carry"
  have "unat x < 256" "unat y < 256" using unat_lt_pow[of x] unat_lt_pow[of y] by simp_all
  then have sum: "unat sum = unat x + unat y + unat carry"
    using Cons.prems by (simp add: sum_def unat_simps)
  have low: "unat (ucast sum :: u8) = unat sum mod 256" by (simp add: unat_ucast_mod)
  have high: "unat (drop_bit 8 sum) = unat sum div 256" by (simp add: unat_drop_bit)
  have "unat (drop_bit 8 sum) \<le> 1"
    using sum high Cons.prems \<open>unat x < 256\<close> \<open>unat y < 256\<close> by simp
  then obtain r c where rc: "add_work_loop a b (drop_bit 8 sum) = (r, c)" "length r = length a"
    "le_value r + 2 ^ (8 * length a) * unat c = le_value a + le_value b + unat sum div 256"
    using Cons.IH[of "drop_bit 8 sum"] high by (auto split: prod.splits)
  have "unat sum mod 256 + 256 * (unat sum div 256) = unat sum" by simp
  then have "unat sum mod 256 + 256 * le_value r + 256 * (2 ^ (8 * length a) * unat c) =
      unat sum + 256 * le_value a + 256 * le_value b"
    using rc(3) by linarith
  moreover have "add_work_loop (x # a) (y # b) carry = (ucast sum # r, c)"
    by (simp add: sum_def[symmetric] rc(1))
  ultimately show ?case
    using rc(2) sum by (simp add: low power_add)
qed simp

text \<open>Addition of chain work saturates instead of wrapping.\<close>

lemma all_ones_step: "255 + 256 * (2 ^ k - Suc 0) = 256 * 2 ^ k - Suc (0 :: nat)"
proof -
  obtain m where "(2 :: nat) ^ k = Suc m" by (metis not0_implies_Suc power_not_zero zero_neq_numeral)
  then show ?thesis by simp
qed

lemma le_value_max: "le_value (replicate n (0xFF :: u8)) = 2 ^ (8 * n) - 1"
proof (induction n)
  case (Suc n)
  then show ?case by (simp add: power_add all_ones_step)
qed simp

lemma wf_replicate_32 [simp]: "wf_digest (replicate 32 b)"
  by (simp add: wf_digest_def)

lemma add_work_value:
  assumes "wf_digest a" "wf_digest b"
  shows "wf_digest (add_work a b)"
    and "le_value (add_work a b) = min (le_value a + le_value b) (2 ^ 256 - 1)"
proof -
  obtain r c where rc: "add_work_loop a b 0 = (r, c)" "length r = 32"
    "le_value r + 2 ^ 256 * unat c = le_value a + le_value b"
    using add_work_loop_value[of a b 0] assms by (auto simp: wf_digest_def split: prod.splits)
  have r: "le_value r < 2 ^ 256" using le_value_bound[of r] rc(2) by simp
  show "wf_digest (add_work a b)" using rc by (simp add: add_work_def wf_digest_def)
  show "le_value (add_work a b) = min (le_value a + le_value b) (2 ^ 256 - 1)"
  proof (cases "c = 0")
    case True
    then show ?thesis using rc r by (simp add: add_work_def)
  next
    case False
    then have "1 \<le> unat c" by (metis One_nat_def Suc_leI unat_gt_0)
    then have "2 ^ 256 \<le> le_value a + le_value b"
      using rc(3) by (metis le_add2 mult.right_neutral mult_le_mono2 order_trans)
    then show ?thesis using False rc le_value_max[of 32] by (simp add: add_work_def)
  qed
qed

lemma add_one_loop_value:
  "case add_one_loop a of
     None \<Rightarrow> le_value a = 2 ^ (8 * length a) - 1
   | Some r \<Rightarrow> length r = length a \<and> le_value r = le_value a + 1"
proof (induction a)
  case (Cons byte rest)
  show ?case
  proof (cases "byte = 0xFF")
    case True
    then show ?thesis using Cons by (auto simp: power_add all_ones_step split: option.splits)
  next
    case False
    have "unat byte \<noteq> 255" using False by (simp add: word_unat_eq_iff)
    then have "unat (byte + 1) = unat byte + 1"
      using unat_lt_pow[of byte] by (simp add: unat_simps)
    then show ?thesis using False by simp
  qed
qed simp

lemma add_one_saturating_value:
  assumes "wf_digest a"
  shows "wf_digest (add_one_saturating a)"
    and "le_value (add_one_saturating a) = min (le_value a + 1) (2 ^ 256 - 1)"
proof -
  have len: "length a = 32" using assms by (simp add: wf_digest_def)
  show "wf_digest (add_one_saturating a)"
    using add_one_loop_value[of a] len
    by (simp add: add_one_saturating_def wf_digest_def split: option.splits)
  show "le_value (add_one_saturating a) = min (le_value a + 1) (2 ^ 256 - 1)"
  proof (cases "add_one_loop a")
    case None
    then have "le_value a = 2 ^ 256 - 1" using add_one_loop_value[of a] len by simp
    then show ?thesis using None le_value_max[of 32] by (simp add: add_one_saturating_def)
  next
    case (Some r)
    then have "length r = 32" "le_value r = le_value a + 1"
      using add_one_loop_value[of a] len by simp_all
    then have "le_value a + 1 < 2 ^ 256" using le_value_bound[of r] by simp
    then show ?thesis using Some \<open>le_value r = le_value a + 1\<close> by (simp add: add_one_saturating_def)
  qed
qed

lemma digit_mod: "(l :: nat) < b \<Longrightarrow> (l + b * x) mod (b * m) = l + b * (x mod m)"
  by (simp add: mod_mult2_eq)

lemma digit_mod_int:
  "0 \<le> (l :: int) \<Longrightarrow> l < b \<Longrightarrow> 0 \<le> m \<Longrightarrow> (l + b * x) mod (b * m) = l + b * (x mod m)"
  by (simp add: zmod_zmult2_eq)

lemma shl1_loop_value:
  "unat c \<le> 1 \<Longrightarrow>
    length (shl1_loop a c) = length a \<and>
    le_value (shl1_loop a c) = (2 * le_value a + unat c) mod 2 ^ (8 * length a)"
proof (induction a arbitrary: c)
  case (Cons byte rest)
  have c_bits: "bit c i \<Longrightarrow> i = 0" for i
  proof -
    assume "bit c i"
    have "unat c = 0 \<or> unat c = 1" using Cons.prems by linarith
    then have "c = 0 \<or> c = 1" by (metis unat_0 unat_1 word_unat_eq_iff)
    then show "i = 0" using \<open>bit c i\<close> by (auto simp: bit_1_iff)
  qed
  have disj: "push_bit 1 byte AND c = 0"
  proof (rule bit_word_eqI)
    fix n
    have "\<not> (bit (push_bit 1 byte) n \<and> bit c n)"
      unfolding bit_push_bit_iff using c_bits[of n] by auto
    then show "bit (push_bit 1 byte AND c) n = bit 0 n" by (simp only: bit_and_iff bit_0_eq bot_apply bot_bool_def)
  qed
  have twice: "unat byte * 2 mod 256 = 2 * (unat byte mod 128)"
    using mult_mod_right[of 2 "unat byte" 128] by (simp add: mult.commute)
  have lowval: "unat (push_bit 1 byte) = unat byte * 2 mod 256"
    using unat_push_bit[of 1 byte] by simp
  have even: "unat byte * 2 mod 256 + unat c < 256"
    unfolding twice using Cons.prems mod_less_divisor[of 128 "unat byte"] by linarith
  have low: "unat (push_bit 1 byte OR c) = unat byte * 2 mod 256 + unat c"
    using unat_or_disjoint[OF disj] even lowval by simp
  have high: "unat (drop_bit 7 byte) = unat byte div 128" by (simp add: unat_drop_bit)
  have "unat (drop_bit 7 byte) \<le> 1" unfolding high using unat_lt_pow[of byte] by simp
  note IH = Cons.IH[OF this]
  let ?P = "2 ^ (8 * length rest) :: nat"
  have split: "unat byte * 2 mod 256 + 256 * (unat byte div 128) = unat byte * 2"
    unfolding twice using mod_mult_div_eq[of "unat byte" 128] by linarith
  have "le_value (shl1_loop (byte # rest) c) =
      unat byte * 2 mod 256 + unat c + 256 * ((2 * le_value rest + unat byte div 128) mod ?P)"
    using IH by (simp only: shl1_loop.simps le_value.simps low high) simp
  also have "\<dots> = (unat byte * 2 mod 256 + unat c + 256 * (2 * le_value rest + unat byte div 128)) mod (256 * ?P)"
    by (rule digit_mod[OF even, symmetric])
  also have "unat byte * 2 mod 256 + unat c + 256 * (2 * le_value rest + unat byte div 128) =
      2 * le_value (byte # rest) + unat c"
    using split by simp
  finally show ?case using IH by (simp add: power_add)
qed simp

lemma shl1_256_value:
  assumes "wf_digest a" "le_value a < 2 ^ 255"
  shows "wf_digest (shl1_256 a)" "le_value (shl1_256 a) = 2 * le_value a"
  using shl1_loop_value[of 0 a] assms by (simp_all add: shl1_256_def wf_digest_def)

lemma borrow_step_range:
  fixes x y borrow :: int
  assumes "0 \<le> x" "x < 256" "0 \<le> y" "y < 256" "borrow = 0 \<or> borrow = 1"
  shows "0 \<le> x - y - borrow + 256 * (if x - y - borrow < 0 then 1 else 0)"
    "x - y - borrow + 256 * (if x - y - borrow < 0 then 1 else 0) < 256"
  using assms by auto

lemma sub_loop_value:
  assumes "length a = length b" "borrow = 0 \<or> borrow = 1"
  shows "length (sub_loop a b borrow) = length a \<and>
    int (le_value (sub_loop a b borrow)) =
      (int (le_value a) - int (le_value b) - borrow) mod 2 ^ (8 * length a)"
  using assms
proof (induction a b arbitrary: borrow rule: list_induct2)
  case (Cons x a y b)
  define diff where "diff = uint x - uint y - borrow"
  define br where "br = (if diff < 0 then 1 else 0 :: int)"
  define low where "low = diff + 256 * br"
  have bnd: "0 \<le> uint x" "uint x < 256" "0 \<le> uint y" "uint y < 256"
    using uint_lt2p[of x] uint_lt2p[of y] by simp_all
  have lowr: "0 \<le> low" "low < 256"
    unfolding low_def br_def diff_def using borrow_step_range[OF bnd Cons.prems] by blast+
  have "low mod 2 ^ LENGTH(8) = low" using lowr by simp
  then have lowu: "uint (of_int low :: u8) = low"
    by (metis uint_word_of_int)
  have step: "sub_loop (x # a) (y # b) borrow = of_int low # sub_loop a b br"
    by (simp add: diff_def[symmetric] low_def br_def Let_def)
  let ?P = "2 ^ (8 * length a) :: int"
  let ?V = "int (le_value a) - int (le_value b) - br"
  have IH: "length (sub_loop a b br) = length a" "int (le_value (sub_loop a b br)) = ?V mod ?P"
    using Cons.IH[of br] by (auto simp: br_def)
  have "int (le_value (sub_loop (x # a) (y # b) borrow)) = low + 256 * (?V mod ?P)"
    unfolding step by (simp add: lowu IH)
  also have "\<dots> = (low + 256 * ?V) mod (256 * ?P)"
    by (rule digit_mod_int[OF lowr, symmetric]) simp
  also have "low + 256 * ?V = int (le_value (x # a)) - int (le_value (y # b)) - borrow"
    unfolding low_def diff_def le_value.simps by (simp add: right_diff_distrib)
  finally show ?case unfolding step by (simp add: IH power_add)
qed simp

lemma sub_assign_256_value:
  assumes "wf_digest a" "wf_digest b" "le_value b \<le> le_value a"
  shows "wf_digest (sub_assign_256 a b)" "le_value (sub_assign_256 a b) = le_value a - le_value b"
proof -
  have "int (le_value a) - int (le_value b) < 2 ^ 256"
    using le_value_bound[of a] assms by (simp add: wf_digest_def)
  then have "int (le_value (sub_assign_256 a b)) = int (le_value a) - int (le_value b)"
    using sub_loop_value[of a b 0] assms by (simp add: sub_assign_256_def wf_digest_def)
  then show "le_value (sub_assign_256 a b) = le_value a - le_value b" using assms(3) by linarith
  show "wf_digest (sub_assign_256 a b)"
    using sub_loop_value[of a b 0] assms by (simp add: sub_assign_256_def wf_digest_def)
qed

lemma bit_le_value: "bit (le_value (a :: u8 list)) i \<longleftrightarrow> i < 8 * length a \<and> bit (a ! (i div 8)) (i mod 8)"
proof (induction a arbitrary: i)
  case (Cons b a)
  have ub: "unat b < 256" using unat_lt_pow[of b] by simp
  have val: "le_value (b # a) mod 256 = unat b" "le_value (b # a) div 256 = le_value a"
    using ub by simp_all
  show ?case
  proof (cases "i < 8")
    case True
    have "bit (le_value (b # a)) i = bit (take_bit 8 (le_value (b # a))) i"
      using True by (simp only: bit_take_bit_iff simp_thms)
    also have "take_bit 8 (le_value (b # a)) = unat b"
      using val(1) by (simp only: take_bit_eq_mod) simp
    finally show ?thesis using True by (simp add: bit_unsigned_iff)
  next
    case False
    have "bit (le_value (b # a)) i = bit (drop_bit 8 (le_value (b # a))) (i - 8)"
      using False by (simp only: bit_drop_bit_eq o_apply) simp
    also have "drop_bit 8 (le_value (b # a)) = le_value a"
      using val(2) by (simp only: drop_bit_eq_div) simp
    finally show ?thesis
      using False Cons.IH[of "i - 8"] by (auto simp: le_div_geq le_mod_geq)
  qed
qed simp

lemma bit_256_iff: "i < 8 * length a \<Longrightarrow> bit_256 a i \<longleftrightarrow> bit (le_value a) i"
  unfolding bit_256_def bit_le_value
  by (simp add: and_one_eq mod_2_eq_odd) (simp add: bit_iff_odd_drop_bit)

lemma le_value_update:
  "k < length xs \<Longrightarrow>
    le_value (xs[k := v]) + 2 ^ (LENGTH('a) * k) * unat (xs ! k) =
    le_value xs + 2 ^ (LENGTH('a) * k) * unat (v :: 'a::len word)"
proof (induction xs arbitrary: k)
  case (Cons x xs)
  show ?case
  proof (cases k)
    case (Suc j)
    then have "2 ^ LENGTH('a) * (le_value (xs[j := v]) + 2 ^ (LENGTH('a) * j) * unat (xs ! j)) =
        2 ^ LENGTH('a) * (le_value xs + 2 ^ (LENGTH('a) * j) * unat v)"
      using Cons by simp
    then show ?thesis using Suc by (simp add: power_add algebra_simps)
  qed simp
qed simp

lemma set_bit_256_value:
  assumes "i < 8 * length a" "\<not> bit (le_value a) i"
  shows "length (set_bit_256 a i) = length a" "le_value (set_bit_256 a i) = le_value a + 2 ^ i"
proof -
  let ?k = "i div 8" and ?j = "i mod 8"
  have k: "?k < length a" using assms(1) by linarith
  have nb: "\<not> bit (a ! ?k) ?j" using assms by (simp add: bit_le_value)
  have disj: "a ! ?k AND push_bit ?j 1 = 0"
    using nb by (metis and_push_bit_one_iff)
  have one: "unat (push_bit ?j 1 :: u8) = 2 ^ ?j"
  proof -
    have "(2 :: nat) ^ ?j < 2 ^ 8" by (rule power_strict_increasing) simp_all
    then show ?thesis using unat_push_bit[of ?j "1 :: u8"] by simp
  qed
  have "unat (a ! ?k) + unat (push_bit ?j 1 :: u8) < 2 ^ LENGTH(8)"
    by (rule unat_disjoint_fits[OF disj])
  then have "unat (a ! ?k OR push_bit ?j 1) = unat (a ! ?k) + 2 ^ ?j"
    using unat_or_disjoint[OF disj] one by simp
  moreover have "(2 :: nat) ^ (8 * ?k) * 2 ^ ?j = 2 ^ i" by (simp add: power_add[symmetric])
  ultimately show "le_value (set_bit_256 a i) = le_value a + 2 ^ i"
    using le_value_update[OF k, of "a ! ?k OR push_bit ?j 1"]
    by (simp add: set_bit_256_def distrib_left)
  show "length (set_bit_256 a i) = length a" by (simp add: set_bit_256_def)
qed
section \<open>Long division\<close>

text \<open>
  After the bits \<open>k..255\<close> have been processed, the quotient is a multiple
  \<open>q * 2 ^ k\<close> and \<open>q\<close>, the remainder divide the corresponding prefix of the
  numerator.
\<close>

definition div_inv :: "nat \<Rightarrow> nat \<Rightarrow> nat \<Rightarrow> u256 \<times> u256 \<Rightarrow> bool" where
  "div_inv N D k qr \<longleftrightarrow>
    wf_digest (fst qr) \<and> wf_digest (snd qr) \<and> le_value (snd qr) < D \<and>
    (\<exists>q. le_value (fst qr) = q * 2 ^ k \<and> N div 2 ^ k = q * D + le_value (snd qr))"

lemma div_prefix_step:
  "(N :: nat) div 2 ^ k = 2 * (N div 2 ^ Suc k) + of_bool (bit N k)"
proof -
  have "N div 2 ^ Suc k = (N div 2 ^ k) div 2" by (simp add: div_mult2_eq[symmetric] mult.commute)
  moreover have "bit N k = odd (N div 2 ^ k)" by (simp add: bit_iff_odd)
  ultimately show ?thesis
    using odd_two_times_div_two_succ[of "N div 2 ^ k"] even_two_times_div_two[of "N div 2 ^ k"]
    by (cases "odd (N div 2 ^ k)") auto
qed

lemma shifted_remainder:
  assumes "wf_digest r" "le_value r < 2 ^ 255"
  shows "let r' = (if c then (shl1_256 r)[0 := shl1_256 r ! 0 OR 1] else shl1_256 r)
    in wf_digest r' \<and> le_value r' = 2 * le_value r + of_bool c"
proof -
  let ?s = "shl1_256 r"
  have s: "wf_digest ?s" "le_value ?s = 2 * le_value r" using shl1_256_value[OF assms] by auto
  have len: "8 * length ?s = 256" using s(1) by (simp add: wf_digest_def)
  have "?s[0 := ?s ! 0 OR 1] = set_bit_256 ?s 0" by (simp add: set_bit_256_def)
  moreover have "\<not> bit (le_value ?s) 0" unfolding s(2) bit_0 by simp
  ultimately have "wf_digest (?s[0 := ?s ! 0 OR 1])" "le_value (?s[0 := ?s ! 0 OR 1]) = 2 * le_value r + 1"
    using set_bit_256_value[of 0 ?s] s len by (simp_all add: wf_digest_def)
  then show ?thesis using s by simp
qed

lemma div_step_inv:
  assumes inv: "div_inv N D (Suc k) qr" and k: "k < 256"
    and n: "wf_digest n" "le_value n = N" and d: "wf_digest d" "le_value d = D"
  shows "div_inv N D k (div_step n d k qr)"
proof -
  obtain quot rem where qr: "qr = (quot, rem)" by (cases qr)
  let ?R = "le_value rem"
  let ?c = "bit_256 n k"
  obtain q where q: "wf_digest quot" "wf_digest rem" "?R < D"
    "le_value quot = q * 2 ^ Suc k" "N div 2 ^ Suc k = q * D + ?R"
    using inv by (auto simp: div_inv_def qr)
  have "N < 2 ^ 256" using le_value_bound[of n] n by (simp add: wf_digest_def)
  then have "N div 2 ^ Suc k \<le> N div 2" by (simp add: div_le_mono2)
  then have "?R < 2 ^ 255" using q(5) \<open>N < 2 ^ 256\<close> by simp
  define r where "r = (if ?c then (shl1_256 rem)[0 := shl1_256 rem ! 0 OR 1] else shl1_256 rem)"
  have r: "wf_digest r" "le_value r = 2 * ?R + of_bool ?c"
    using shifted_remainder[OF q(2) \<open>?R < 2 ^ 255\<close>, of ?c] by (simp_all add: r_def Let_def)
  have "?c = bit N k" using bit_256_iff[of k n] k n by (simp add: wf_digest_def)
  then have pre: "N div 2 ^ k = 2 * (q * D) + le_value r"
    using div_prefix_step[of N k] q(5) r(2) by simp
  have step: "div_step n d k qr =
      (if ge256 r d then (set_bit_256 quot k, sub_assign_256 r d) else (quot, r))"
    by (simp add: div_step_def qr r_def Let_def)
  have ge: "ge256 r d \<longleftrightarrow> D \<le> le_value r" using le256_lt_iff[OF r(1) d(1)] d(2) by (simp add: ge256_def not_less)
  show ?thesis
  proof (cases "D \<le> le_value r")
    case True
    have nb: "\<not> bit (le_value quot) k" unfolding q(4) by (simp add: bit_iff_odd)
    have quot: "wf_digest (set_bit_256 quot k)" "le_value (set_bit_256 quot k) = (2 * q + 1) * 2 ^ k"
      using set_bit_256_value[OF _ nb] q k by (simp_all add: wf_digest_def)
    have sub: "wf_digest (sub_assign_256 r d)" "le_value (sub_assign_256 r d) = le_value r - D"
      using sub_assign_256_value[OF r(1) d(1)] True d(2) by simp_all
    have "le_value r < 2 * D" using r(2) q(3) by (cases ?c) simp_all
    then have "le_value r - D < D" using True by linarith
    moreover have "N div 2 ^ k = (2 * q + 1) * D + (le_value r - D)" using pre True by simp
    ultimately show ?thesis
      unfolding step div_inv_def using True ge quot sub
      by (intro conjI exI[of _ "2 * q + 1"]) simp_all
  next
    case False
    have "le_value quot = (2 * q) * 2 ^ k" using q(4) by simp
    moreover have "N div 2 ^ k = (2 * q) * D + le_value r" using pre by simp
    ultimately show ?thesis using False ge q r by (auto simp: step div_inv_def)
  qed
qed

lemma div_fold_inv:
  assumes "div_inv N D k qr" "k \<le> 256" "wf_digest n" "le_value n = N" "wf_digest d" "le_value d = D"
  shows "div_inv N D 0 (fold (div_step n d) (rev [0..<k]) qr)"
  using assms(1,2)
proof (induction k arbitrary: qr)
  case (Suc k)
  then show ?case using Suc.IH[OF div_step_inv[OF Suc.prems(1)]] assms by simp
qed simp

lemma div_u256_value:
  assumes "wf_digest n" "wf_digest d"
  shows "case div_u256 n d of
      None \<Rightarrow> le_value d = 0
    | Some q \<Rightarrow> le_value d \<noteq> 0 \<and> wf_digest q \<and> le_value q = le_value n div le_value d"
proof (cases "le_value d = 0")
  case True
  then show ?thesis by (simp add: div_u256_def is_zero_256_iff)
next
  case False
  let ?qr = "fold (div_step n d) (rev [0..<256]) (replicate 32 0, replicate 32 0)"
  have "le_value n < 2 ^ 256" using le_value_bound[of n] assms by (simp add: wf_digest_def)
  then have "div_inv (le_value n) (le_value d) 256 (replicate 32 0, replicate 32 0)"
    using False by (simp add: div_inv_def)
  then have inv: "div_inv (le_value n) (le_value d) 0 ?qr"
    by (rule div_fold_inv) (use assms in auto)
  then have "le_value n = le_value (fst ?qr) * le_value d + le_value (snd ?qr)"
    "le_value (snd ?qr) < le_value d" "wf_digest (fst ?qr)" by (auto simp: div_inv_def)
  then have "le_value n div le_value d = le_value (fst ?qr)" by (simp add: False)
  then show ?thesis
    using False \<open>wf_digest (fst ?qr)\<close> by (simp add: div_u256_def is_zero_256_iff del: upt_Suc)
qed

text \<open>The value of \<open>block_work\<close>: the ceiling of \<open>2 ^ 256 / target\<close>, saturated.\<close>

lemma block_work_value:
  assumes "wf_digest t"
  shows "wf_digest (block_work t)"
    and "le_value (block_work t) =
      (if le_value t = 0 then 0 else min ((2 ^ 256 - 1) div le_value t + 1) (2 ^ 256 - 1))"
proof -
  have max: "wf_digest (replicate 32 (0xFF :: u8))" by simp
  have maxv: "le_value (replicate 32 (0xFF :: u8)) = 2 ^ 256 - 1" using le_value_max[of 32] by simp
  note dv = div_u256_value[OF max assms, unfolded maxv]
  note one = add_one_saturating_value
  show "wf_digest (block_work t)"
    using dv one(1) by (auto simp: block_work_def is_zero_256_iff split: option.splits)
  show "le_value (block_work t) =
      (if le_value t = 0 then 0 else min ((2 ^ 256 - 1) div le_value t + 1) (2 ^ 256 - 1))"
    using dv one(2) by (auto simp: block_work_def is_zero_256_iff split: option.splits)
qed

section \<open>What the limb routines compute\<close>

lemma le_value_split:
  "n \<le> length xs \<Longrightarrow>
    le_value xs = le_value (take n xs) + 2 ^ (LENGTH('a) * n) * le_value (drop n (xs :: 'a::len word list))"
  using le_value_append[of "take n xs" "drop n xs"] by simp

lemma bytes_to_limbs_value:
  assumes "wf_digest b"
  shows "length (bytes_to_limbs b) = 4" "le_value (bytes_to_limbs b) = le_value b"
proof -
  have len: "length b = 32" using assms by (simp add: wf_digest_def)
  show "length (bytes_to_limbs b) = 4" by (simp add: bytes_to_limbs_def)
  have "le_value b = le_value (take 8 b) + 2 ^ 64 * le_value (drop 8 b)"
    "le_value (drop 8 b) = le_value (take 8 (drop 8 b)) + 2 ^ 64 * le_value (drop 16 b)"
    "le_value (drop 16 b) = le_value (take 8 (drop 16 b)) + 2 ^ 64 * le_value (drop 24 b)"
    using le_value_split[of 8 b] le_value_split[of 8 "drop 8 b"] le_value_split[of 8 "drop 16 b"] len
    by simp_all
  moreover have "drop 24 b = take 8 (drop 24 b)" using len by simp
  ultimately show "le_value (bytes_to_limbs b) = le_value b"
    using len by (simp add: bytes_to_limbs_def unat_from_le)
qed

lemma limbs_to_bytes_value:
  assumes "length l = 4"
  shows "wf_digest (limbs_to_bytes l)" "le_value (limbs_to_bytes l) = le_value l"
proof -
  obtain a b c d where l: "l = [a, b, c, d]"
    using assms by (auto simp: numeral_eq_Suc length_Suc_conv)
  show "wf_digest (limbs_to_bytes l)" by (simp add: limbs_to_bytes_def wf_digest_def)
  show "le_value (limbs_to_bytes l) = le_value l"
    by (simp add: l limbs_to_bytes_def le_value_append le_value_to_le)
qed

lemma mul_loop_value:
  "unat carry < 2 ^ 64 \<Longrightarrow>
    length (mul_loop a factor carry) = Suc (length a) \<and>
    le_value (mul_loop a factor carry) = le_value a * unat factor + unat carry"
proof (induction a arbitrary: carry)
  case Nil
  then show ?case by (simp add: unat_ucast_mod)
next
  case (Cons x a)
  define prod :: u128 where "prod = ucast x * ucast factor + carry"
  have xf: "unat x \<le> 2 ^ 64 - 1" "unat factor \<le> 2 ^ 64 - 1" "unat carry \<le> 2 ^ 64 - 1"
    using unat_le_pow[of x] unat_le_pow[of factor] Cons.prems by simp_all
  have "unat x * unat factor \<le> (2 ^ 64 - 1) * (2 ^ 64 - 1)" by (rule mult_le_mono[OF xf(1,2)])
  then have bound: "unat x * unat factor + unat carry < 2 ^ 128 - 2 ^ 64 + 1"
    using xf(3) by simp
  have prod: "unat prod = unat x * unat factor + unat carry"
    using bound by (simp add: prod_def unat_word_ariths)
  have low: "unat (ucast prod :: u64) = unat prod mod 2 ^ 64" by (simp add: unat_ucast_mod)
  have high: "unat (drop_bit 64 prod) = unat prod div 2 ^ 64" by (simp add: unat_drop_bit)
  have "unat (drop_bit 64 prod) < 2 ^ 64"
    unfolding high using prod bound by (simp add: div_less_iff_less_mult)
  note IH = Cons.IH[OF this]
  have "le_value (mul_loop (x # a) factor carry) =
      unat prod mod 2 ^ 64 + 2 ^ 64 * (le_value a * unat factor + unat prod div 2 ^ 64)"
    using IH by (simp add: prod_def[symmetric] Let_def low high)
  also have "\<dots> = unat prod + 2 ^ 64 * (le_value a * unat factor)"
    using mod_mult_div_eq[of "unat prod" "2 ^ 64"] by (simp only: distrib_left)
  also have "\<dots> = le_value (x # a) * unat factor + unat carry"
    by (simp add: prod distrib_right)
  finally show ?case using IH by (simp add: Let_def prod_def[symmetric])
qed

lemma mul_limbs_value:
  "length (mul_limbs_u64 a factor) = Suc (length a)"
  "le_value (mul_limbs_u64 a factor) = le_value a * unat factor"
  using mul_loop_value[of 0 a factor] by (simp_all add: mul_limbs_u64_def)

lemma bit_lt_pow: "unat (c :: 'a::len word) < 2 ^ k \<Longrightarrow> bit c n \<Longrightarrow> n < k"
  by (metis bit_take_bit_iff bit_unsigned_iff take_bit_nat_eq_self bit_imp_possible_bit possible_bit_def
      possible_bit_nat)

lemma shl_loop_value:
  assumes "0 < k" "k < 64"
  shows "unat c < 2 ^ k \<Longrightarrow>
    length (shl_loop w k c) = length w \<and>
    le_value (shl_loop w k c) = (le_value w * 2 ^ k + unat c) mod 2 ^ (64 * length w)"
proof (induction w arbitrary: c)
  case (Cons limb w)
  let ?L = "unat limb" and ?B = "2 ^ 64 :: nat" and ?K = "2 ^ k :: nat"
  have KB: "?K * 2 ^ (64 - k) = ?B" using assms by (simp add: power_add[symmetric])
  have limb_low_bits_disjoint: "push_bit k limb AND c = 0"
  proof (rule bit_word_eqI)
    fix n
    have "bit c n \<Longrightarrow> n < k" using Cons.prems by (rule bit_lt_pow)
    then have "\<not> (bit (push_bit k limb) n \<and> bit c n)" unfolding bit_push_bit_iff by auto
    then show "bit (push_bit k limb AND c) n = bit 0 n"
      by (simp only: bit_and_iff bit_0_eq bot_apply bot_bool_def)
  qed
  then have low: "unat (push_bit k limb OR c) = ?L * ?K mod ?B + unat c"
    using unat_or_disjoint unat_disjoint_fits unat_push_bit[of k limb] by fastforce
  have high: "unat (drop_bit (64 - k) limb) = ?L * ?K div ?B"
    unfolding unat_drop_bit KB[symmetric] using assms by (simp add: mult.commute)
  have "?L < ?B" using unat_lt_pow[of limb] by simp
  then have "?L * ?K div ?B < ?K" by (simp add: div_less_iff_less_mult mult.commute)
  then have "unat (drop_bit (64 - k) limb) < 2 ^ k" by (simp only: high)
  note IH = Cons.IH[OF this, unfolded high]
  have fit: "?L * ?K mod ?B + unat c < ?B"
    using unat_disjoint_fits[OF limb_low_bits_disjoint] unat_push_bit[of k limb] by simp
  let ?P = "2 ^ (64 * length w) :: nat"
  have "le_value (shl_loop (limb # w) k c) =
      ?L * ?K mod ?B + unat c + ?B * ((le_value w * ?K + ?L * ?K div ?B) mod ?P)"
    using IH by (simp only: shl_loop.simps le_value.simps low) simp
  also have "\<dots> = (?L * ?K mod ?B + unat c + ?B * (le_value w * ?K + ?L * ?K div ?B)) mod (?B * ?P)"
    by (rule digit_mod[OF fit, symmetric])
  also have "?L * ?K mod ?B + unat c + ?B * (le_value w * ?K + ?L * ?K div ?B) =
      le_value (limb # w) * ?K + unat c"
    using mod_mult_div_eq[of "?L * ?K" ?B] by (simp add: distrib_left distrib_right)
  finally show ?case using IH by (simp add: power_add)
qed simp

lemma le_value_take: "le_value (take n xs) = le_value (xs :: 'a::len word list) mod 2 ^ (LENGTH('a) * n)"
proof (cases "n \<le> length xs")
  case True
  have "le_value (take n xs) < 2 ^ (LENGTH('a) * n)"
    using le_value_bound[of "take n xs"] True by simp
  then show ?thesis using le_value_split[OF True] by simp
next
  case False
  have "le_value xs < 2 ^ (LENGTH('a) * length xs)" by (rule le_value_bound)
  also have "\<dots> \<le> 2 ^ (LENGTH('a) * n)" using False by (intro power_increasing) simp_all
  finally show ?thesis using False by simp
qed

lemma le_value_drop: "le_value (drop n xs) = le_value (xs :: 'a::len word list) div 2 ^ (LENGTH('a) * n)"
proof (cases "n \<le> length xs")
  case True
  have "le_value (take n xs) < 2 ^ (LENGTH('a) * n)"
    using le_value_bound[of "take n xs"] True by simp
  then show ?thesis using le_value_split[OF True] by simp
next
  case False
  have "le_value xs < 2 ^ (LENGTH('a) * length xs)" by (rule le_value_bound)
  also have "\<dots> \<le> 2 ^ (LENGTH('a) * n)" using False by (intro power_increasing) simp_all
  finally show ?thesis using False by simp
qed

lemma shl320_value:
  assumes "length w = 5" "n < 320"
  shows "length (shl320 w n) = 5" "le_value (shl320 w n) = le_value w * 2 ^ n mod 2 ^ 320"
proof -
  define ws where "ws = min (n div 64) 5"
  define b where "b = n mod 64"
  define out where "out = replicate ws 0 @ take (5 - ws) w"
  have ws: "ws = n div 64" "ws \<le> 5" using assms(2) by (auto simp: ws_def)
  have n: "n = 64 * ws + b" unfolding ws(1) b_def by simp
  have outl: "length out = 5" using ws assms(1) by (simp add: out_def)
  have "le_value out = 2 ^ (64 * ws) * (le_value w mod 2 ^ (64 * (5 - ws)))"
    by (simp add: out_def le_value_append le_value_take)
  also have "\<dots> = le_value w * 2 ^ (64 * ws) mod (2 ^ (64 * ws) * 2 ^ (64 * (5 - ws)))"
    by (simp only: mult_mod_right) (simp only: mult.commute)
  also have "(2 :: nat) ^ (64 * ws) * 2 ^ (64 * (5 - ws)) = 2 ^ 320"
    using ws(2) by (simp add: power_add[symmetric] diff_mult_distrib2)
  finally have outv: "le_value out = le_value w * 2 ^ (64 * ws) mod 2 ^ 320" .
  have shl: "shl320 w n = (if n = 0 then w else if b > 0 then shl_loop out b 0 else out)"
    by (simp add: shl320_def ws_def b_def out_def Let_def)
  have wb: "le_value w < 2 ^ 320" using le_value_bound[of w] assms(1) by simp
  have loop: "length (shl_loop out b 0) = 5" "le_value (shl_loop out b 0) = le_value out * 2 ^ b mod 2 ^ 320"
    if "b > 0" using shl_loop_value[OF that, of 0 out] outl by (simp_all add: b_def)
  show "length (shl320 w n) = 5" using shl loop outl assms(1) by auto
  have "le_value out * 2 ^ b mod 2 ^ 320 = le_value w * 2 ^ n mod 2 ^ 320"
    unfolding outv n power_add mult.assoc[symmetric] by (rule mod_mult_left_eq)
  then show "le_value (shl320 w n) = le_value w * 2 ^ n mod 2 ^ 320"
    using shl loop outv wb n by (cases "n = 0"; cases "b > 0") simp_all
qed

lemma shr_loop_value:
  assumes "0 < k" "k < 64" "p < 2 ^ k" "unat c = p * 2 ^ (64 - k)"
  shows "length (shr_loop w k c) = length w \<and>
    le_value (rev (shr_loop w k c)) = (le_value (rev w) + 2 ^ (64 * length w) * p) div 2 ^ k"
  using assms(3,4)
proof (induction w arbitrary: c p)
  case (Cons limb w)
  let ?L = "unat limb" and ?K = "2 ^ k :: nat" and ?J = "2 ^ (64 - k) :: nat" and ?P = "2 ^ (64 * length w) :: nat"
  have KJ: "?K * ?J = 2 ^ 64" using assms by (simp add: power_add[symmetric])
  have L: "?L < 2 ^ 64" using unat_lt_pow[of limb] by simp
  have "unat (push_bit (64 - k) limb) = ?L * ?J mod (?K * ?J)"
    unfolding KJ using unat_push_bit[of "64 - k" limb] by simp
  then have next_carry: "unat (push_bit (64 - k) limb) = (?L mod ?K) * ?J"
    by (simp only: mult_mod_left)
  note IH = Cons.IH[OF _ next_carry]
  have high: "unat (drop_bit k limb) = ?L div ?K" by (simp add: unat_drop_bit)
  have hb: "?L div ?K < ?J" using L KJ by (simp add: div_less_iff_less_mult mult.commute)
  have disj: "drop_bit k limb AND c = 0"
  proof (rule bit_word_eqI)
    fix n
    have "bit (drop_bit k limb) n \<Longrightarrow> n < 64 - k"
      using bit_lt_pow[of "drop_bit k limb" "64 - k" n] high hb by simp
    moreover have "bit c n \<Longrightarrow> 64 - k \<le> n"
    proof -
      assume "bit c n"
      then have "bit (unat c) n" by (simp add: bit_unsigned_iff)
      then have "bit (push_bit (64 - k) p) n" by (simp only: Cons.prems push_bit_eq_mult)
      then show "64 - k \<le> n" by (simp only: bit_push_bit_iff)
    qed
    ultimately have "\<not> (bit (drop_bit k limb) n \<and> bit c n)" by auto
    then show "bit (drop_bit k limb AND c) n = bit 0 n"
      by (simp only: bit_and_iff bit_0_eq bot_apply bot_bool_def)
  qed
  have top: "unat (drop_bit k limb OR c) = ?L div ?K + p * ?J"
    using unat_or_disjoint[OF disj unat_disjoint_fits[OF disj]] high Cons.prems by simp
  let ?R = "le_value (rev w)"
  have len: "length (rev (shr_loop w k (push_bit (64 - k) limb))) = length w" using IH by simp
  have "le_value (rev (shr_loop (limb # w) k c)) =
      (?R + ?P * (?L mod ?K)) div ?K + ?P * (?L div ?K + p * ?J)"
    using IH len by (simp only: shr_loop.simps rev.simps le_value_append) (simp add: top)
  also have "\<dots> = (?R + ?P * (?L mod ?K) + ?K * (?P * (?L div ?K + p * ?J))) div ?K"
    by simp
  also have "?R + ?P * (?L mod ?K) + ?K * (?P * (?L div ?K + p * ?J)) =
      ?R + ?P * ?L + ?P * 2 ^ 64 * p"
  proof -
    have "?P * (?L mod ?K + ?K * (?L div ?K)) = ?P * ?L" by (simp only: mod_mult_div_eq)
    then have low: "?P * (?L mod ?K) + ?K * (?P * (?L div ?K)) = ?P * ?L"
      by (simp only: distrib_left mult.left_commute[of ?K ?P])
    have "?K * (?P * (p * ?J)) = ?P * (?K * ?J) * p" by (simp only: ac_simps)
    then have high: "?K * (?P * (p * ?J)) = ?P * 2 ^ 64 * p" by (simp only: KJ)
    show ?thesis
      unfolding distrib_left using low high by linarith
  qed
  finally show ?case using IH by (simp add: le_value_append power_add mult.commute)
qed simp

lemma shr320_value:
  assumes "length w = 5" "n < 320"
  shows "length (shr320 w n) = 5" "le_value (shr320 w n) = le_value w div 2 ^ n"
proof -
  define ws where "ws = min (n div 64) 5"
  define b where "b = n mod 64"
  define out where "out = drop ws w @ replicate ws 0"
  have ws: "ws = n div 64" "ws \<le> 5" using assms(2) by (auto simp: ws_def)
  have n: "n = 64 * ws + b" unfolding ws(1) b_def by simp
  have outl: "length out = 5" using ws assms(1) by (simp add: out_def)
  have outv: "le_value out = le_value w div 2 ^ (64 * ws)"
    by (simp add: out_def le_value_append le_value_drop)
  have shr: "shr320 w n = (if n = 0 then w else if b > 0 then rev (shr_loop (rev out) b 0) else out)"
    by (simp add: shr320_def ws_def b_def out_def Let_def)
  have loop: "length (shr_loop (rev out) b 0) = 5" "le_value (rev (shr_loop (rev out) b 0)) = le_value out div 2 ^ b"
    if "b > 0" using shr_loop_value[OF that, of 0 0 "rev out"] outl by (simp_all add: b_def)
  show "length (shr320 w n) = 5" using shr loop outl assms(1) by auto
  have "le_value out div 2 ^ b = le_value w div 2 ^ n"
    unfolding outv n power_add by (simp only: div_mult2_eq)
  then show "le_value (shr320 w n) = le_value w div 2 ^ n"
    using shr loop outv n by (cases "n = 0"; cases "b > 0") simp_all
qed

end
