(* ===== verification/Params.thy ===== *)
theory Params
  imports U256
begin

text \<open>
  Consensus constants (\<open>consensus/params.rs\<close>) and the height-selected fork
  schedule (\<open>consensus/forks.rs\<close>), in the release profile: the isolated-testnet
  features are off.  Counts of array elements are naturals; every protocol
  integer keeps its width.
\<close>

section \<open>Constants\<close>

definition BLOCK_TIME :: u64 where "BLOCK_TIME = 20"
definition V2_BLOCK_TIME :: u64 where "V2_BLOCK_TIME = 30"
definition MAINNET_V2_ACTIVATION_HEIGHT :: u64 where "MAINNET_V2_ACTIVATION_HEIGHT = 210537"
definition V2_ACTIVATION_HEIGHT :: "u64 option" where
  "V2_ACTIVATION_HEIGHT = Some MAINNET_V2_ACTIVATION_HEIGHT"
definition V1_1_ACTIVATION_HEIGHT :: "u64 option" where "V1_1_ACTIVATION_HEIGHT = Some 95125"
definition EPOCH_LENGTH :: u64 where "EPOCH_LENGTH = 6"
definition HALFLIFE :: u64 where "HALFLIFE = EPOCH_LENGTH * BLOCK_TIME"
definition MAX_FUTURE_DRIFT :: u64 where "MAX_FUTURE_DRIFT = 120"
definition MEDIAN_TIME_BLOCKS :: nat where "MEDIAN_TIME_BLOCKS = 11"

definition BLOCK_MAX_TXS :: nat where "BLOCK_MAX_TXS = 256"
definition MAX_INPUTS :: nat where "MAX_INPUTS = 8"
definition MAX_OUTPUTS :: nat where "MAX_OUTPUTS = 2"
definition BLOCK_MAX_USER_PAGES :: nat where "BLOCK_MAX_USER_PAGES = BLOCK_MAX_TXS - 1"
definition BLOCK_MAX_LIVE_INPUTS :: nat where "BLOCK_MAX_LIVE_INPUTS = 1020"
definition BLOCK_MAX_USER_OUTPUTS :: nat where "BLOCK_MAX_USER_OUTPUTS = 510"
definition BLOCK_MAX_USER_ACTIONS :: nat where
  "BLOCK_MAX_USER_ACTIONS = BLOCK_MAX_LIVE_INPUTS + BLOCK_MAX_USER_OUTPUTS"
definition BLOCK_MAX_ACTIONS :: nat where "BLOCK_MAX_ACTIONS = BLOCK_MAX_USER_ACTIONS + 1"
definition BLOCK_MAX_DISTINCT_SEGMENTS :: nat where "BLOCK_MAX_DISTINCT_SEGMENTS = 256"
definition BLOCK_PAGE_CLASS_TIERS :: "nat list" where "BLOCK_PAGE_CLASS_TIERS = [25, 255]"

definition TX_EPOCH_BLOCKS :: u64 where "TX_EPOCH_BLOCKS = 144"
definition CONSENSUS_FINALITY_DEPTH :: u64 where "CONSENSUS_FINALITY_DEPTH = 18"
definition EXPANSION_WINDOW :: u64 where "EXPANSION_WINDOW = CONSENSUS_FINALITY_DEPTH"
definition LOG_SLOTS_GENESIS :: u32 where "LOG_SLOTS_GENESIS = 24"
definition LOG_SLOTS_MAX :: u32 where "LOG_SLOTS_MAX = 32"
definition LOG_SEGMENT_SIZE :: u32 where "LOG_SEGMENT_SIZE = 16"
definition EXPAND_NUM :: u64 where "EXPAND_NUM = 3"
definition EXPAND_DENOM :: u64 where "EXPAND_DENOM = 4"

definition GENESIS_TARGET :: u256 where "GENESIS_TARGET = (replicate 32 0)[29 := 0x40]"
definition MIN_TARGET :: u256 where "MIN_TARGET = (replicate 32 0)[0 := 1]"
definition MAX_TARGET :: u256 where "MAX_TARGET = replicate 32 0xFF"

definition MICRONOID_PER_NOID :: u64 where "MICRONOID_PER_NOID = 1000000"
definition BASE_REWARD_MICRONOID :: u64 where "BASE_REWARD_MICRONOID = 50 * MICRONOID_PER_NOID"
definition FLOOR_REWARD_MICRONOID :: u64 where "FLOOR_REWARD_MICRONOID = MICRONOID_PER_NOID"
definition MIN_FEE_BASE :: u64 where "MIN_FEE_BASE = 5000"
definition FEE_PER_INPUT :: u64 where "FEE_PER_INPUT = 100"
definition FEE_PER_OUTPUT :: u64 where "FEE_PER_OUTPUT = 700"
definition STATE_GROWTH_FEE_BASE :: u64 where "STATE_GROWTH_FEE_BASE = 2500"

section \<open>Fork schedule\<close>

datatype protocol_version = V1 | V1_1 | V2

record v2_activation =
  v2_height :: u64
  v2_block_time :: u64

definition v2_activation_new :: "u64 \<Rightarrow> u64 \<Rightarrow> v2_activation option" where
  "v2_activation_new height block_time =
    (if height = 0 \<or> block_time = 0 then None
     else Some \<lparr> v2_height = height, v2_block_time = block_time \<rparr>)"

record fork_schedule =
  sched_v1_1 :: "u64 option"
  sched_v2 :: "v2_activation option"

definition fork_schedule_new :: "u64 option \<Rightarrow> v2_activation option \<Rightarrow> fork_schedule option" where
  "fork_schedule_new v1_1 v2 =
    (case (v1_1, v2) of
       (_, None) \<Rightarrow> Some \<lparr> sched_v1_1 = v1_1, sched_v2 = v2 \<rparr>
     | (Some first, Some second) \<Rightarrow>
         if v2_height second \<ge> first then Some \<lparr> sched_v1_1 = v1_1, sched_v2 = v2 \<rparr> else None
     | (None, Some _) \<Rightarrow> None)"

text \<open>\<open>matches!(at, Some(at) if height >= at)\<close>.\<close>

definition reached :: "u64 option \<Rightarrow> u64 \<Rightarrow> bool" where
  "reached at height = (case at of Some h \<Rightarrow> height \<ge> h | None \<Rightarrow> False)"

definition v2_reached :: "fork_schedule \<Rightarrow> u64 \<Rightarrow> bool" where
  "v2_reached sched height = reached (map_option v2_height (sched_v2 sched)) height"

definition version :: "fork_schedule \<Rightarrow> u64 \<Rightarrow> protocol_version" where
  "version sched height =
    (if v2_reached sched height then V2
     else if reached (sched_v1_1 sched) height then V1_1
     else V1)"

definition block_time :: "fork_schedule \<Rightarrow> u64 \<Rightarrow> u64" where
  "block_time sched height =
    (case sched_v2 sched of
       Some at \<Rightarrow> if height \<ge> v2_height at then v2_block_time at else BLOCK_TIME
     | None \<Rightarrow> BLOCK_TIME)"

definition ideal_elapsed :: "fork_schedule \<Rightarrow> u64 \<Rightarrow> u64 \<Rightarrow> u128" where
  "ideal_elapsed sched anchor child =
    (let count = saturating_sub child anchor in
     case sched_v2 sched of
       Some at \<Rightarrow>
         if child \<ge> v2_height at then
           let last_old = v2_height at - 1;
               start = (if anchor > last_old then anchor else last_old);
               new_count = saturating_sub child start
           in ucast (count - new_count) * ucast BLOCK_TIME + ucast new_count * ucast (v2_block_time at)
         else ucast count * ucast BLOCK_TIME
     | None \<Rightarrow> ucast count * ucast BLOCK_TIME)"

definition ACTIVE_SCHEDULE :: fork_schedule where
  "ACTIVE_SCHEDULE =
    \<lparr> sched_v1_1 = V1_1_ACTIVATION_HEIGHT,
      sched_v2 = (case V2_ACTIVATION_HEIGHT of
                    Some height \<Rightarrow> v2_activation_new height V2_BLOCK_TIME
                  | None \<Rightarrow> None) \<rparr>"

definition block_time_at_height :: "u64 \<Rightarrow> u64" where
  "block_time_at_height height = block_time ACTIVE_SCHEDULE height"

definition v1_1_active_with :: "u64 \<Rightarrow> u64 option \<Rightarrow> bool" where
  "v1_1_active_with height activation_height = reached activation_height height"

section \<open>Height-tagged creation ids\<close>

definition COINBASE_CREATION_TAG :: u64 where "COINBASE_CREATION_TAG = push_bit 63 1"

definition is_coinbase_creation_id :: "u64 \<Rightarrow> bool" where
  "is_coinbase_creation_id creation_id = (creation_id AND COINBASE_CREATION_TAG \<noteq> 0)"

definition coinbase_creation_id :: "u64 \<Rightarrow> u64" where
  "coinbase_creation_id height = COINBASE_CREATION_TAG OR height"

definition coinbase_creation_height :: "u64 \<Rightarrow> u64" where
  "coinbase_creation_height creation_id = creation_id AND NOT COINBASE_CREATION_TAG"

definition creation_id_within_boundary :: "u64 \<Rightarrow> u64 \<Rightarrow> u64 \<Rightarrow> bool" where
  "creation_id_within_boundary creation_id alloc_counter height =
    (if is_coinbase_creation_id creation_id then coinbase_creation_height creation_id \<le> height
     else creation_id \<le> alloc_counter)"

section \<open>Facts about the schedule and the ids\<close>

lemma coinbase_tag_bit: "is_coinbase_creation_id cid \<longleftrightarrow> bit cid 63"
  unfolding is_coinbase_creation_id_def COINBASE_CREATION_TAG_def by (rule and_push_bit_one_iff)

lemma bit_63_iff: "bit (x :: u64) 63 \<longleftrightarrow> 2 ^ 63 \<le> unat x"
proof -
  have "bit x 63 = bit (unat x) 63" by (simp add: bit_unsigned_iff)
  also have "\<dots> = odd (unat x div 2 ^ 63)" by (rule bit_iff_odd)
  finally have "bit x 63 \<longleftrightarrow> odd (unat x div 2 ^ 63)" .
  moreover have "unat x div 2 ^ 63 < 2" using unat_lt_pow[of x] by (simp add: div_less_iff_less_mult)
  ultimately show ?thesis by (auto simp: less_2_cases_iff div_eq_0_iff not_less)
qed

text \<open>The tagged id of a height below \<open>2 ^ 63\<close> recovers the height and is disjoint from user ids.\<close>

lemma coinbase_creation_height_id:
  assumes "unat height < 2 ^ 63"
  shows "coinbase_creation_height (coinbase_creation_id height) = height"
    and "is_coinbase_creation_id (coinbase_creation_id height)"
proof -
  have nb: "\<not> bit height 63" using assms bit_63_iff[of height] by simp
  show "is_coinbase_creation_id (coinbase_creation_id height)"
    unfolding coinbase_tag_bit coinbase_creation_id_def COINBASE_CREATION_TAG_def
    by (simp only: bit_or_iff bit_push_bit_iff) simp
  show "coinbase_creation_height (coinbase_creation_id height) = height"
    unfolding coinbase_creation_height_def coinbase_creation_id_def COINBASE_CREATION_TAG_def
  proof (rule bit_word_eqI)
    fix n assume "n < LENGTH(64)"
    then have "bit (push_bit 63 1 :: u64) n \<longleftrightarrow> n = 63"
      unfolding bit_push_bit_iff bit_1_iff by auto
    then show "bit ((push_bit 63 1 OR height) AND NOT (push_bit 63 1)) n = bit height n"
      using nb \<open>n < LENGTH(64)\<close> by (auto simp only: bit_and_iff bit_or_iff bit_not_iff possible_bit_word)
  qed
qed

text \<open>A schedule as its constructors build it: the version-2 height is positive.\<close>

definition wf_schedule :: "fork_schedule \<Rightarrow> bool" where
  [wf_simps]: "wf_schedule sched \<longleftrightarrow> (case sched_v2 sched of None \<Rightarrow> True | Some at \<Rightarrow> 0 < v2_height at)"

lemma block_time_of_nat:
  assumes "n < 2 ^ 64"
  shows "unat (block_time sched (of_nat n)) =
    (case sched_v2 sched of
       None \<Rightarrow> 20
     | Some at \<Rightarrow> if unat (v2_height at) \<le> n then unat (v2_block_time at) else 20)"
proof -
  have "unat (of_nat n :: u64) = n" using assms by (simp add: unsigned_of_nat take_bit_nat_eq_self)
  then show ?thesis
    by (simp add: block_time_def BLOCK_TIME_def word_le_nat_alt split: option.split)
qed

lemma sum_two_rates:
  fixes a c h x y :: nat
  assumes "0 < h"
  shows "(\<Sum>n \<in> {a<..c}. if h \<le> n then y else x) =
    (c - a - (c - max a (h - 1))) * x + (c - max a (h - 1)) * y"
proof -
  have new: "{a<..c} \<inter> {n. h \<le> n} = {max a (h - 1)<..c}" using assms by auto
  have old: "{a<..c} \<inter> - {n. h \<le> n} = {a<..c} - {max a (h - 1)<..c}" using new by auto
  have "card ({a<..c} - {max a (h - 1)<..c}) = (c - a) - (c - max a (h - 1))"
    by (subst card_Diff_subset) auto
  then show ?thesis by (simp add: sum.If_cases new old)
qed

text \<open>
  C17: the expected elapsed time of the fork schedule is exact.  For every anchor
  and child height, the closed form of \<open>ForkSchedule::ideal_elapsed\<close> is the sum of
  the block intervals in force at each height in \<open>(anchor, child]\<close>, with the fork
  block itself counted under the new interval; the 128-bit arithmetic never wraps.
\<close>

theorem ideal_elapsed_sum:
  assumes "wf_schedule sched"
  shows "unat (ideal_elapsed sched anchor child) =
    (\<Sum>n \<in> {unat anchor<..unat child}. unat (block_time sched (of_nat n)))"
proof -
  let ?a = "unat anchor" and ?c = "unat child"
  have c: "?c < 2 ^ 64" using unat_lt_pow[of child] by simp
  have bt: "unat BLOCK_TIME = 20" by (simp add: BLOCK_TIME_def)
  have wide: "unat (ucast x * ucast y :: u128) = unat x * unat y" for x y :: u64
  proof -
    have "unat x * unat y \<le> (2 ^ 64 - 1) * (2 ^ 64 - 1)"
      using unat_le_pow[of x] unat_le_pow[of y] by (intro mult_le_mono) simp_all
    then show ?thesis by (simp add: unat_word_ariths)
  qed
  show ?thesis
  proof (cases "sched_v2 sched")
    case None
    then have "(\<Sum>n \<in> {?a<..?c}. unat (block_time sched (of_nat n))) = (\<Sum>n \<in> {?a<..?c}. 20)"
      using c by (intro sum.cong) (auto simp: block_time_of_nat)
    then show ?thesis
      using None by (simp add: ideal_elapsed_def wide unat_saturating_sub bt)
  next
    case (Some at)
    let ?h = "unat (v2_height at)" and ?b = "unat (v2_block_time at)"
    have h: "0 < ?h" using assms Some by (simp add: wf_schedule_def word_less_nat_alt)
    have "(\<Sum>n \<in> {?a<..?c}. unat (block_time sched (of_nat n))) =
        (\<Sum>n \<in> {?a<..?c}. if ?h \<le> n then ?b else 20)"
      using c Some by (intro sum.cong) (auto simp: block_time_of_nat)
    then have spec: "(\<Sum>n \<in> {?a<..?c}. unat (block_time sched (of_nat n))) =
        (?c - ?a - (?c - max ?a (?h - 1))) * 20 + (?c - max ?a (?h - 1)) * ?b"
      by (simp only: sum_two_rates[OF h])
    show ?thesis
    proof (cases "v2_height at \<le> child")
      case False
      then have "?c - max ?a (?h - 1) = 0" by (simp add: word_le_nat_alt)
      then show ?thesis
        unfolding spec using Some False
        by (simp add: ideal_elapsed_def wide unat_saturating_sub bt)
    next
      case True
      define start where "start = (if anchor > v2_height at - 1 then anchor else v2_height at - 1)"
      define new where "new = saturating_sub child start"
      define count where "count = saturating_sub child anchor"
      have "unat (v2_height at - 1) = ?h - 1"
        using h by (subst unat_minus_le) (auto simp: word_le_nat_alt)
      then have "unat start = max ?a (?h - 1)"
        by (simp add: start_def word_less_nat_alt max_def)
      then have new: "unat new = ?c - max ?a (?h - 1)" by (simp add: new_def unat_saturating_sub)
      have count: "unat count = ?c - ?a" by (simp add: count_def unat_saturating_sub)
      have old: "unat (count - new) = ?c - ?a - (?c - max ?a (?h - 1))"
        using count new by (subst unat_minus_le) (auto simp: word_le_nat_alt)
      have bound: "unat (count - new) * 20 + unat new * ?b < 2 ^ 128"
      proof -
        have "unat (count - new) * 20 + unat new * ?b \<le> (unat (count - new) + unat new) * (2 ^ 64 - 1)"
          using unat_le_pow[of "v2_block_time at"] unfolding distrib_right
          by (intro add_mono mult_le_mono) simp_all
        also have "\<dots> \<le> (2 ^ 64 - 1) * (2 ^ 64 - 1)"
          by (rule mult_le_mono1) (unfold old new, use c in linarith)
        finally show ?thesis by simp
      qed
      have "ideal_elapsed sched anchor child =
          ucast (count - new) * ucast BLOCK_TIME + ucast new * ucast (v2_block_time at)"
        using Some True by (simp add: ideal_elapsed_def start_def new_def count_def Let_def)
      then show ?thesis
        unfolding spec using bound by (simp add: unat_plus_lt wide old new bt)
    qed
  qed
qed

theorem ideal_elapsed_sum_witness:
  "unat (ideal_elapsed ACTIVE_SCHEDULE 210535 210538) =
    (\<Sum>n \<in> {210535<..210538}. unat (block_time ACTIVE_SCHEDULE (of_nat n)))"
  using ideal_elapsed_sum[of ACTIVE_SCHEDULE 210535 210538]
  by (simp add: wf_schedule_def ACTIVE_SCHEDULE_def V2_ACTIVATION_HEIGHT_def v2_activation_new_def
      MAINNET_V2_ACTIVATION_HEIGHT_def V2_BLOCK_TIME_def)

end
