(* ===== verification/SegmentTree.thy ===== *)
theory SegmentTree
  imports SparseMerkle Params
begin

text \<open>
  The two array trees over which the exact root is maintained: the per-segment
  trees of the hot-segment cache (\<open>noid_chain/src/exact_segment_cache.rs\<close>) and the
  compact tree over the segment roots (\<open>ExactSegmentRootCache\<close> of \<open>state.rs\<close>).
  Both store node \<open>n\<close> above nodes \<open>2 n\<close> and \<open>2 n + 1\<close>.  Every operation is shown to
  keep the array consistent with the reference tree, including the early exit of
  the slot update, the read-only overlay and the growth by one level.  Vector
  capacities, which only the byte budget of the cache reads, are taken to be the
  lengths.  Failing assertions are \<open>None\<close>.
\<close>

section \<open>Segment trees\<close>

record exact_segment_tree =
  st_log_slots :: nat
  st_nodes :: "digest list"
  st_zeros :: "digest list"
  st_column_bytes :: nat

definition combine_nodes :: "digest list \<Rightarrow> nat \<Rightarrow> digest \<Rightarrow> digest \<Rightarrow> digest" where
  "combine_nodes zeros level left right =
    (if left = zeros ! level \<and> right = zeros ! level then zeros ! (level + 1)
     else state_node_hash left right)"

definition from_columns :: "nat \<Rightarrow> segment_columns \<Rightarrow> exact_segment_tree option" where
  "from_columns log_slots columns =
    (let n = 2 ^ log_slots
     in if length (col_values columns) \<noteq> n \<or> length (col_owners_hi columns) \<noteq> n \<or>
           length (col_owners_lo columns) \<noteq> n then None
        else
          let zeros = zero_slot_roots log_slots;
              nodes = fold (\<lambda>local nodes.
                  if \<not> slot_is_empty (column_slot columns local)
                  then nodes[n + local := slot_leaf_hash (column_slot columns local)] else nodes)
                [0..<n] (replicate (2 * n) (zeros ! 0));
              nodes = fold (\<lambda>level nodes.
                  let start = n div 2 ^ level
                  in fold (\<lambda>node nodes. nodes[node := combine_nodes zeros (level - 1) (nodes ! (2 * node)) (nodes ! (2 * node + 1))])
                       [start..<2 * start] nodes)
                [1..<log_slots + 1] nodes
          in Some \<lparr> st_log_slots = log_slots, st_nodes = nodes, st_zeros = zeros,
                    st_column_bytes = (length (col_values columns) + length (col_owners_hi columns)
                      + length (col_owners_lo columns)) * 16 \<rparr>)"

definition tree_root :: "exact_segment_tree \<Rightarrow> digest" where
  "tree_root t = st_nodes t ! 1"

definition subtree_root :: "exact_segment_tree \<Rightarrow> nat \<Rightarrow> nat \<Rightarrow> digest option" where
  "subtree_root t level index =
    (if level > st_log_slots t then None
     else let width = 2 ^ (st_log_slots t - level)
          in if index \<ge> width then None else Some (st_nodes t ! (width + index)))"

fun set_slot_loop :: "digest list \<Rightarrow> nat \<Rightarrow> nat \<Rightarrow> digest list \<Rightarrow> digest list" where
  "set_slot_loop zeros node level nodes =
    (if node > 1 then
       let node = node div 2;
           hash = combine_nodes zeros level (nodes ! (2 * node)) (nodes ! (2 * node + 1))
       in if nodes ! node = hash then nodes
          else set_slot_loop zeros node (level + 1) (nodes[node := hash])
     else nodes)"

declare set_slot_loop.simps [simp del]

definition tree_set_slot :: "nat \<Rightarrow> slot_value \<Rightarrow> exact_segment_tree \<Rightarrow> exact_segment_tree" where
  "tree_set_slot local value t =
    (let node = 2 ^ st_log_slots t + local;
         hash = (if slot_is_empty value then st_zeros t ! 0 else slot_leaf_hash value)
     in if st_nodes t ! node = hash then t
        else t\<lparr> st_nodes := set_slot_loop (st_zeros t) node 0 ((st_nodes t)[node := hash]) \<rparr>)"

text \<open>The widths of the recursion are powers of two; only a width of one meets the second test.\<close>

fun overlay_root :: "digest list \<Rightarrow> nat \<Rightarrow> nat \<Rightarrow> nat \<Rightarrow> (nat \<times> digest) list \<Rightarrow> digest" where
  "overlay_root nodes node start width updates =
    (if updates = [] then nodes ! node
     else if width \<le> 1 then snd (hd updates)
     else
       let half = width div 2;
           split = length (takeWhile (\<lambda>(local, _). local < start + half) updates);
           left = overlay_root nodes (2 * node) start half (take split updates);
           right = overlay_root nodes (2 * node + 1) (start + half) half (drop split updates)
       in state_node_hash left right)"

declare overlay_root.simps [simp del]

text \<open>The updates are an ordered map from local slots to values.\<close>

definition root_with_updates :: "(nat \<times> slot_value) list \<Rightarrow> exact_segment_tree \<Rightarrow> digest option" where
  "root_with_updates updates t =
    (if \<exists>(local, _) \<in> set updates. local \<ge> 2 ^ st_log_slots t then None
     else
       let leaves = map (\<lambda>(local, value). (local, if slot_is_empty value then st_zeros t ! 0 else slot_leaf_hash value)) updates
       in Some (overlay_root (st_nodes t) 1 0 (2 ^ st_log_slots t) leaves))"

definition resident_bytes :: "exact_segment_tree \<Rightarrow> nat" where
  "resident_bytes t = (length (st_nodes t) + length (st_zeros t)) * 32 + st_column_bytes t"

section \<open>The hot-segment cache\<close>

definition DEFAULT_CACHE_BYTES :: nat where "DEFAULT_CACHE_BYTES = 64 * 1024 * 1024"

record exact_segment_cache =
  ec_entries :: "(nat \<times> exact_segment_tree) list"
  ec_bytes :: nat
  ec_budget :: nat

definition cache_default :: exact_segment_cache where
  "cache_default = \<lparr> ec_entries = [], ec_bytes = 0, ec_budget = DEFAULT_CACHE_BYTES \<rparr>"

definition cache_get :: "nat \<Rightarrow> exact_segment_cache \<Rightarrow> exact_segment_tree option" where
  "cache_get id' c = map_option snd (find (\<lambda>(key, _). key = id') (ec_entries c))"

text \<open>\<open>position\<close> followed by \<open>Vec::remove\<close>: the first entry with the key and the entries without it.\<close>

fun take_entry :: "nat \<Rightarrow> (nat \<times> exact_segment_tree) list \<Rightarrow> (exact_segment_tree \<times> (nat \<times> exact_segment_tree) list) option" where
  "take_entry id' [] = None"
| "take_entry id' ((key, tree) # entries) =
    (if key = id' then Some (tree, entries)
     else map_option (\<lambda>(t, rest). (t, (key, tree) # rest)) (take_entry id' entries))"

text \<open>The byte count never falls below the size of an entry: \<open>entries_ok\<close> keeps it equal to the sum of the
  sizes, so the subtraction is exact.\<close>

definition cache_remove :: "nat \<Rightarrow> exact_segment_cache \<Rightarrow> exact_segment_cache" where
  "cache_remove id' c =
    (case take_entry id' (ec_entries c) of
       None \<Rightarrow> c
     | Some (tree, rest) \<Rightarrow> c\<lparr> ec_entries := rest, ec_bytes := ec_bytes c - resident_bytes tree \<rparr>)"

fun evict_oldest :: "nat \<Rightarrow> nat \<Rightarrow> (nat \<times> exact_segment_tree) list \<Rightarrow> nat \<Rightarrow> ((nat \<times> exact_segment_tree) list \<times> nat) option" where
  "evict_oldest budget bytes entries used =
    (if used + bytes > budget then
       (case entries of [] \<Rightarrow> None
        | (_, oldest) # rest \<Rightarrow> evict_oldest budget bytes rest (used - resident_bytes oldest))
     else Some (entries, used))"

declare evict_oldest.simps [simp del]

definition cache_insert :: "nat \<Rightarrow> exact_segment_tree \<Rightarrow> exact_segment_cache \<Rightarrow> exact_segment_cache option" where
  "cache_insert id' tree c =
    (let c = cache_remove id' c; bytes = resident_bytes tree
     in if bytes > ec_budget c then Some c
        else map_option (\<lambda>(entries, used).
               c\<lparr> ec_entries := entries @ [(id', tree)], ec_bytes := used + bytes \<rparr>)
             (evict_oldest (ec_budget c) bytes (ec_entries c) (ec_bytes c)))"

definition cache_update_slot :: "nat \<Rightarrow> nat \<Rightarrow> slot_value \<Rightarrow> exact_segment_cache \<Rightarrow> exact_segment_cache" where
  "cache_update_slot id' local value c =
    (case take_entry id' (ec_entries c) of
       None \<Rightarrow> c
     | Some (tree, rest) \<Rightarrow> c\<lparr> ec_entries := rest @ [(id', tree_set_slot local value tree)] \<rparr>)"

definition cache_clear :: "exact_segment_cache \<Rightarrow> exact_segment_cache" where
  "cache_clear c = c\<lparr> ec_entries := [], ec_bytes := 0 \<rparr>"

section \<open>The tree over the segment roots\<close>

record exact_segment_root_cache =
  rc_log_slots :: nat
  rc_effective_log_seg :: nat
  rc_segment_roots :: "digest list"
  rc_tree :: "digest list"

definition build_tree :: "digest list \<Rightarrow> digest list" where
  "build_tree segment_roots =
    (let count = length segment_roots;
         tree = replicate count zero_digest @ segment_roots
     in fold (\<lambda>index tree. tree[index := state_node_hash (tree ! (2 * index)) (tree ! (2 * index + 1))])
          (rev [1..<count]) tree)"

definition empty_with_segment_log :: "nat \<Rightarrow> nat \<Rightarrow> exact_segment_root_cache" where
  "empty_with_segment_log log_slots effective_log_seg =
    (let roots = replicate (2 ^ (log_slots - effective_log_seg)) (zero_slot_roots effective_log_seg ! effective_log_seg)
     in \<lparr> rc_log_slots = log_slots, rc_effective_log_seg = effective_log_seg, rc_segment_roots = roots,
          rc_tree = build_tree roots \<rparr>)"

definition root_cache_empty :: "nat \<Rightarrow> exact_segment_root_cache" where
  "root_cache_empty log_slots = empty_with_segment_log log_slots (min log_slots (unat LOG_SEGMENT_SIZE))"

definition root_cache_root :: "exact_segment_root_cache \<Rightarrow> digest" where
  "root_cache_root c =
    (if length (rc_segment_roots c) = 1 then rc_segment_roots c ! 0 else rc_tree c ! 1)"

fun set_root_loop :: "nat \<Rightarrow> digest list \<Rightarrow> digest list" where
  "set_root_loop node tree =
    (if node > 1 then
       let node = node div 2
       in set_root_loop node (tree[node := state_node_hash (tree ! (2 * node)) (tree ! (2 * node + 1))])
     else tree)"

declare set_root_loop.simps [simp del]

definition set_segment_root :: "nat \<Rightarrow> digest \<Rightarrow> exact_segment_root_cache \<Rightarrow> exact_segment_root_cache" where
  "set_segment_root index root c =
    (let c = c\<lparr> rc_segment_roots := (rc_segment_roots c)[index := root] \<rparr>;
         count = length (rc_segment_roots c)
     in if count = 1 then c
        else c\<lparr> rc_tree := set_root_loop (count + index) ((rc_tree c)[count + index := root]) \<rparr>)"

definition segment_node_hash :: "nat \<Rightarrow> nat \<Rightarrow> exact_segment_root_cache \<Rightarrow> digest option" where
  "segment_node_hash level node_index c =
    (let count = length (rc_segment_roots c); upper_depth = ilog2 count
     in if level > upper_depth \<or> node_index \<ge> count div 2 ^ level then None
        else if level = 0 then Some (rc_segment_roots c ! node_index)
        else Some (rc_tree c ! (count div 2 ^ level + node_index)))"

definition root_cache_expand :: "exact_segment_root_cache \<Rightarrow> exact_segment_root_cache" where
  "root_cache_expand c =
    (let old_log_slots = rc_log_slots c; old_root = root_cache_root c;
         c = c\<lparr> rc_log_slots := rc_log_slots c + 1 \<rparr>
     in if rc_log_slots c \<le> unat LOG_SEGMENT_SIZE then
          let empty_right = zero_slot_roots old_log_slots ! old_log_slots;
              roots = (rc_segment_roots c)[0 := state_node_hash old_root empty_right]
          in c\<lparr> rc_effective_log_seg := rc_log_slots c, rc_segment_roots := roots, rc_tree := build_tree roots \<rparr>
        else
          let old_count = length (rc_segment_roots c);
              zero_segment = zero_slot_roots (rc_effective_log_seg c) ! rc_effective_log_seg c;
              roots = rc_segment_roots c @ replicate old_count zero_segment
          in c\<lparr> rc_segment_roots := roots, rc_tree := build_tree roots \<rparr>)"

function shrink_to :: "nat \<Rightarrow> exact_segment_root_cache \<Rightarrow> exact_segment_root_cache" where
  "shrink_to target c =
    (if rc_log_slots c > target then
       shrink_to target
         (if rc_log_slots c \<le> unat LOG_SEGMENT_SIZE then
            let log = rc_log_slots c - 1; roots = [zero_slot_roots log ! log]
            in c\<lparr> rc_log_slots := log, rc_effective_log_seg := log, rc_segment_roots := roots, rc_tree := build_tree roots \<rparr>
          else
            let roots = take (length (rc_segment_roots c) div 2) (rc_segment_roots c)
            in c\<lparr> rc_log_slots := rc_log_slots c - 1, rc_segment_roots := roots, rc_tree := build_tree roots \<rparr>)
     else c)"
  by pat_completeness auto
termination by (relation "measure (\<lambda>(target, c). rc_log_slots c)") (auto simp: Let_def)

declare shrink_to.simps [simp del]

section \<open>Array trees\<close>

definition parent_ok :: "digest list \<Rightarrow> nat \<Rightarrow> bool" where
  "parent_ok nodes n \<longleftrightarrow> nodes ! n = state_node_hash (nodes ! (2 * n)) (nodes ! (2 * n + 1))"

definition array_tree :: "digest list \<Rightarrow> nat \<Rightarrow> (nat \<Rightarrow> digest) \<Rightarrow> bool" where
  "array_tree nodes L g \<longleftrightarrow> length nodes = 2 * 2 ^ L \<and> (\<forall>i < 2 ^ L. nodes ! (2 ^ L + i) = g i) \<and>
    (\<forall>n. 1 \<le> n \<and> n < 2 ^ L \<longrightarrow> parent_ok nodes n)"

lemma array_tree_node:
  assumes "array_tree nodes L g"
  shows "l \<le> L \<Longrightarrow> i < 2 ^ (L - l) \<Longrightarrow> nodes ! (2 ^ (L - l) + i) = node_of g l i"
proof (induction l arbitrary: i)
  case 0
  then show ?case using assms by (simp add: array_tree_def)
next
  case (Suc l)
  let ?n = "2 ^ (L - Suc l) + i"
  have e: "2 ^ (L - l) = 2 * (2 :: nat) ^ (L - Suc l)"
    using Suc.prems by (simp add: Suc_diff_Suc flip: power_Suc)
  have "?n < 2 ^ (L - l)" using Suc.prems e by linarith
  also have "\<dots> \<le> 2 ^ L" by (rule power_increasing) auto
  finally have "?n < 2 ^ L" .
  moreover have "1 \<le> ?n" using one_le_power[of "2 :: nat" "L - Suc l"] by linarith
  ultimately have "parent_ok nodes ?n" using assms by (simp only: array_tree_def)
  then show ?case
    using Suc.IH[of "2 * i"] Suc.IH[of "Suc (2 * i)"] Suc.prems e
    by (simp add: parent_ok_def algebra_simps)
qed

lemma array_tree_root: "array_tree nodes L g \<Longrightarrow> nodes ! Suc 0 = node_of g L 0"
  using array_tree_node[of nodes L g L 0] by simp

lemma parent_ok_update:
  assumes "parent_ok nodes m" "m \<noteq> k" "m \<noteq> k div 2"
  shows "parent_ok (nodes[k := h]) m"
proof -
  have "2 * m \<noteq> k" "2 * m + 1 \<noteq> k" using assms(3) by auto
  then show ?thesis using assms by (simp add: parent_ok_def)
qed

lemma parent_ok_here:
  "1 \<le> k \<Longrightarrow> k < length nodes \<Longrightarrow> parent_ok (nodes[k := state_node_hash (nodes ! (2 * k)) (nodes ! (2 * k + 1))]) k"
  by (simp add: parent_ok_def)

abbreviation rehash :: "nat \<Rightarrow> digest list \<Rightarrow> digest list" where
  "rehash k nodes \<equiv> nodes[k := state_node_hash (nodes ! (2 * k)) (nodes ! (2 * k + 1))]"

text \<open>Rehashing a list of nodes, no parent before its children, makes them all consistent.\<close>

lemma fold_rehash:
  assumes "\<And>xs k ys. ks = xs @ k # ys \<Longrightarrow> 1 \<le> k \<and> k < length nodes \<and> k div 2 \<notin> set xs"
  shows "length (fold rehash ks nodes) = length nodes \<and> (\<forall>k \<in> set ks. parent_ok (fold rehash ks nodes) k) \<and>
    (\<forall>m. m \<notin> set ks \<longrightarrow> fold rehash ks nodes ! m = nodes ! m)"
  using assms
proof (induction ks rule: rev_induct)
  case (snoc k ks)
  let ?N = "fold rehash ks nodes"
  have IH: "length ?N = length nodes" "\<forall>k \<in> set ks. parent_ok ?N k" "\<forall>m. m \<notin> set ks \<longrightarrow> ?N ! m = nodes ! m"
    using snoc.IH snoc.prems by simp_all
  have k: "1 \<le> k" "k < length nodes" "k div 2 \<notin> set ks" using snoc.prems[of ks k "[]"] by auto
  have "parent_ok (rehash k ?N) m" if "m \<in> set (ks @ [k])" for m
    using that parent_ok_update[of ?N m k] parent_ok_here[of k ?N] IH k by (cases "m = k") auto
  then show ?case using IH k by auto
qed simp

lemma combine_nodes_eq:
  "level < L \<Longrightarrow> combine_nodes (zero_slot_roots L) level l r = state_node_hash l r"
  using zero_slot_roots_nth[of level L 0] zero_slot_roots_nth[of level L "Suc 0"] zero_slot_roots_nth[of "Suc level" L 0]
  by (auto simp: combine_nodes_def)

text \<open>Repairing the path above a changed node.\<close>

lemma set_root_loop_ok:
  assumes "length nodes = 2 * 2 ^ L" "node < 2 * 2 ^ L"
    "\<And>m. 1 \<le> m \<Longrightarrow> m < 2 ^ L \<Longrightarrow> m \<noteq> node div 2 \<Longrightarrow> parent_ok nodes m"
  shows "length (set_root_loop node nodes) = 2 * 2 ^ L \<and> (\<forall>m. 1 \<le> m \<and> m < 2 ^ L \<longrightarrow> parent_ok (set_root_loop node nodes) m) \<and>
    (\<forall>m \<ge> 2 ^ L. set_root_loop node nodes ! m = nodes ! m)"
  using assms
proof (induction node nodes rule: set_root_loop.induct)
  case (1 node nodes)
  show ?case
  proof (cases "node > 1")
    case False
    then have "node div 2 = 0" by simp
    then show ?thesis using 1(2-) False by (simp add: set_root_loop.simps)
  next
    case True
    let ?k = "node div 2" and ?N = "rehash (node div 2) nodes"
    have k: "1 \<le> ?k" "?k < 2 ^ L" using True 1(3) by auto
    have "parent_ok ?N m" if "1 \<le> m" "m < 2 ^ L" "m \<noteq> ?k div 2" for m
      using that k 1(2,4) parent_ok_update[of nodes m ?k] parent_ok_here[of ?k nodes] by (cases "m = ?k") auto
    then have "length (set_root_loop ?k ?N) = 2 * 2 ^ L \<and> (\<forall>m. 1 \<le> m \<and> m < 2 ^ L \<longrightarrow> parent_ok (set_root_loop ?k ?N) m) \<and>
        (\<forall>m \<ge> 2 ^ L. set_root_loop ?k ?N ! m = ?N ! m)"
      using 1(1)[OF True refl] 1(2) k by simp
    then show ?thesis using True k by (subst (1 2 3) set_root_loop.simps) (simp add: Let_def)
  qed
qed

lemma set_slot_loop_ok:
  assumes "length nodes = 2 * 2 ^ L" "2 ^ (L - level) \<le> node" "node < 2 * 2 ^ (L - level)" "level \<le> L"
    "\<And>m. 1 \<le> m \<Longrightarrow> m < 2 ^ L \<Longrightarrow> m \<noteq> node div 2 \<Longrightarrow> parent_ok nodes m"
  shows "length (set_slot_loop (zero_slot_roots L) node level nodes) = 2 * 2 ^ L \<and>
    (\<forall>m. 1 \<le> m \<and> m < 2 ^ L \<longrightarrow> parent_ok (set_slot_loop (zero_slot_roots L) node level nodes) m) \<and>
    (\<forall>m \<ge> 2 ^ L. set_slot_loop (zero_slot_roots L) node level nodes ! m = nodes ! m)"
  using assms
proof (induction "zero_slot_roots L" node level nodes rule: set_slot_loop.induct)
  case (1 node level nodes)
  show ?case
  proof (cases "node > 1")
    case False
    then have "node div 2 = 0" by simp
    then show ?thesis using 1(2-) False by (simp add: set_slot_loop.simps)
  next
    case True
    let ?k = "node div 2"
    have "level \<noteq> L" using True 1(4) by auto
    then have lev: "level < L" using 1(5) by simp
    have e: "2 ^ (L - level) = 2 * (2 :: nat) ^ (L - Suc level)"
      using lev by (simp add: Suc_diff_Suc flip: power_Suc)
    have k: "2 ^ (L - Suc level) \<le> ?k" "?k < 2 * 2 ^ (L - Suc level)" using 1(3,4) e by auto
    have "2 * 2 ^ (L - Suc level) \<le> (2 :: nat) ^ L" using e power_increasing[of "L - level" L "2 :: nat"] by simp
    then have k': "1 \<le> ?k" "?k < 2 ^ L" using k True by auto
    have h: "combine_nodes (zero_slot_roots L) level (nodes ! (2 * ?k)) (nodes ! (2 * ?k + 1)) =
        state_node_hash (nodes ! (2 * ?k)) (nodes ! (2 * ?k + 1))" using combine_nodes_eq[OF lev] .
    show ?thesis
    proof (cases "nodes ! ?k = state_node_hash (nodes ! (2 * ?k)) (nodes ! (2 * ?k + 1))")
      case same: True
      then have "parent_ok nodes ?k" by (simp add: parent_ok_def)
      then have "parent_ok nodes m" if "1 \<le> m" "m < 2 ^ L" for m using 1(6) that by (cases "m = ?k") auto
      moreover have "set_slot_loop (zero_slot_roots L) node level nodes = nodes"
        using True same h by (simp add: set_slot_loop.simps Let_def)
      ultimately show ?thesis using 1(2) by simp
    next
      case False
      let ?N = "rehash ?k nodes"
      have "parent_ok ?N m" if "1 \<le> m" "m < 2 ^ L" "m \<noteq> ?k div 2" for m
        using that k' 1(2,6) parent_ok_update[of nodes m ?k] parent_ok_here[of ?k nodes] by (cases "m = ?k") auto
      then have "length (set_slot_loop (zero_slot_roots L) ?k (level + 1) ?N) = 2 * 2 ^ L \<and>
          (\<forall>m. 1 \<le> m \<and> m < 2 ^ L \<longrightarrow> parent_ok (set_slot_loop (zero_slot_roots L) ?k (level + 1) ?N) m) \<and>
          (\<forall>m \<ge> 2 ^ L. set_slot_loop (zero_slot_roots L) ?k (level + 1) ?N ! m = ?N ! m)"
        using 1(1)[OF True refl refl] False h 1(2) k lev by simp
      moreover have "set_slot_loop (zero_slot_roots L) node level nodes = set_slot_loop (zero_slot_roots L) ?k (level + 1) ?N"
        using True False h by (subst set_slot_loop.simps) (simp add: Let_def)
      ultimately show ?thesis using k' by simp
    qed
  qed
qed

section \<open>Segment trees hold the reference tree\<close>

definition tree_of :: "exact_segment_tree \<Rightarrow> nat \<Rightarrow> (nat \<Rightarrow> slot_value) \<Rightarrow> bool" where
  "tree_of t L slots \<longleftrightarrow> st_log_slots t = L \<and> st_zeros t = zero_slot_roots L \<and>
    array_tree (st_nodes t) L (\<lambda>i. slot_leaf_hash (slots i))"

lemma zeros_0: "zero_slot_roots L ! 0 = empty_leaf"
  using zero_slot_roots_nth[of 0 L 0] by simp

lemma fold_concat_map: "fold (\<lambda>l. fold f (g l)) ls s = fold f (concat (map g ls)) s"
  by (induction ls arbitrary: s) simp_all

text \<open>The nodes of the inner levels in the order of the build.\<close>

definition level_nodes :: "nat \<Rightarrow> nat \<Rightarrow> nat list" where
  "level_nodes L m = concat (map (\<lambda>level. [2 ^ L div 2 ^ level..<2 * (2 ^ L div 2 ^ level)]) [1..<Suc m])"

lemma level_nodes_Suc:
  assumes "Suc m \<le> L"
  shows "level_nodes L (Suc m) = level_nodes L m @ [2 ^ (L - Suc m)..<2 * 2 ^ (L - Suc m)]"
    and "2 ^ (L - m) = 2 * (2 :: nat) ^ (L - Suc m)" and "2 * 2 ^ (L - Suc m) \<le> (2 :: nat) ^ L"
proof -
  show e: "2 ^ (L - m) = 2 * (2 :: nat) ^ (L - Suc m)"
    using assms by (simp add: Suc_diff_Suc flip: power_Suc)
  show "2 * 2 ^ (L - Suc m) \<le> (2 :: nat) ^ L" using e power_increasing[of "L - m" L "2 :: nat"] by simp
  have "2 ^ L div 2 ^ Suc m = (2 :: nat) ^ (L - Suc m)" using assms power_diff[of "2 :: nat" "Suc m" L] by simp
  then show "level_nodes L (Suc m) = level_nodes L m @ [2 ^ (L - Suc m)..<2 * 2 ^ (L - Suc m)]"
    by (simp add: level_nodes_def)
qed

lemma level_nodes_set: "m \<le> L \<Longrightarrow> set (level_nodes L m) = {2 ^ (L - m)..<2 ^ L}"
proof (induction m)
  case (Suc m)
  note lv = level_nodes_Suc[OF Suc.prems]
  have "set (level_nodes L m) = {2 * 2 ^ (L - Suc m)..<2 ^ L}" using Suc lv(2) by simp
  moreover have "{2 ^ (L - Suc m)..<2 ^ L} = {2 ^ (L - Suc m)..<2 * 2 ^ (L - Suc m)} \<union> {2 * 2 ^ (L - Suc m)..<(2 :: nat) ^ L}"
    by (rule ivl_disj_un(17)[symmetric]) (use lv(3) in simp_all)
  ultimately show ?case unfolding lv(1) by (simp add: Un_commute)
qed (simp add: level_nodes_def)

lemma level_nodes_order:
  "m \<le> L \<Longrightarrow> level_nodes L m = xs @ k # ys \<Longrightarrow> 1 \<le> k \<and> k < 2 * 2 ^ L \<and> k div 2 \<notin> set xs"
proof (induction m arbitrary: xs k ys)
  case (Suc m)
  let ?A = "level_nodes L m" and ?s = "2 ^ (L - Suc m) :: nat"
  note lv = level_nodes_Suc[OF Suc.prems(1)]
  have setA: "set ?A = {2 * ?s..<2 ^ L}" using level_nodes_set[of m L] Suc.prems(1) lv(2) by simp
  have "?A @ [?s..<2 * ?s] = xs @ k # ys" using Suc.prems(2) lv(1) by simp
  then consider ws where "xs @ k # ws = ?A" | ws where "xs = ?A @ ws" "ws @ k # ys = [?s..<2 * ?s]"
    by (auto simp: append_eq_append_conv2 append_eq_Cons_conv Cons_eq_append_conv)
  then show ?case
  proof cases
    case (1 ws)
    then show ?thesis using Suc.IH[of xs k ws] Suc.prems(1) by simp
  next
    case (2 ws)
    have "k \<in> set [?s..<2 * ?s]" "set ws \<subseteq> set [?s..<2 * ?s]" unfolding 2(2)[symmetric] by auto
    then have k: "?s \<le> k" "k < 2 * ?s" "set ws \<subseteq> {?s..}" by auto
    moreover have "1 \<le> ?s" by simp
    moreover have "k div 2 < ?s" using k by simp
    ultimately show ?thesis using lv(3) setA 2(1) by auto
  qed
qed (simp add: level_nodes_def)

lemma from_columns_ok:
  assumes "length (col_values cols) = 2 ^ L" "length (col_owners_hi cols) = 2 ^ L" "length (col_owners_lo cols) = 2 ^ L"
  shows "\<exists>t. from_columns L cols = Some t \<and> tree_of t L (column_slot cols)"
proof -
  let ?n = "2 ^ L :: nat" and ?z = "zero_slot_roots L"
  let ?leaf = "\<lambda>i. slot_leaf_hash (column_slot cols i)"
  let ?step = "\<lambda>local nodes. if \<not> slot_is_empty (column_slot cols local)
      then nodes[?n + local := slot_leaf_hash (column_slot cols local)] else nodes"
  define lv where "lv = fold ?step [0..<?n] (replicate (2 * ?n) (?z ! 0))"
  have "length (fold ?step [0..<k] (replicate (2 * ?n) (?z ! 0))) = 2 * ?n \<and>
      (\<forall>i < ?n. fold ?step [0..<k] (replicate (2 * ?n) (?z ! 0)) ! (?n + i) = (if i < k then ?leaf i else empty_leaf))"
    if "k \<le> ?n" for k
    using that by (induction k) (auto simp: zeros_0 nth_list_update less_Suc_eq slot_is_empty_def)
  from this[of ?n] have lv: "length lv = 2 * ?n" "\<And>i. i < ?n \<Longrightarrow> lv ! (?n + i) = ?leaf i"
    by (simp_all add: lv_def)
  define ks where "ks = level_nodes L L"
  have loop: "fold (\<lambda>level nodes. let start = ?n div 2 ^ level
        in fold (\<lambda>node nodes. nodes[node := combine_nodes ?z (level - 1) (nodes ! (2 * node)) (nodes ! (2 * node + 1))])
             [start..<2 * start] nodes) [1..<L + 1] lv = fold rehash ks lv"
  proof -
    have "fold (\<lambda>level nodes. let start = ?n div 2 ^ level
        in fold (\<lambda>node nodes. nodes[node := combine_nodes ?z (level - 1) (nodes ! (2 * node)) (nodes ! (2 * node + 1))])
             [start..<2 * start] nodes) [1..<L + 1] lv =
        fold (\<lambda>level. fold rehash [?n div 2 ^ level..<2 * (?n div 2 ^ level)]) [1..<L + 1] lv"
      by (intro fold_cong refl) (auto simp: Let_def combine_nodes_eq)
    then show ?thesis by (simp only: fold_concat_map ks_def level_nodes_def Suc_eq_plus1)
  qed
  have r: "length (fold rehash ks lv) = 2 * ?n" "\<forall>k \<in> set ks. parent_ok (fold rehash ks lv) k"
    "\<forall>m. m \<notin> set ks \<longrightarrow> fold rehash ks lv ! m = lv ! m"
    using fold_rehash[of ks lv] level_nodes_order[of L L] lv(1) by (simp_all add: ks_def)
  have "set ks = {1..<?n}" using level_nodes_set[of L L] by (simp add: ks_def)
  then have "array_tree (fold rehash ks lv) L ?leaf" using r lv by (auto simp: array_tree_def)
  then show ?thesis
    using assms loop by (simp add: from_columns_def tree_of_def Let_def flip: lv_def)
qed

lemma tree_root_ok: "tree_of t L slots \<Longrightarrow> tree_root t = node_of (\<lambda>i. slot_leaf_hash (slots i)) L 0"
  by (simp add: tree_of_def tree_root_def array_tree_root)

lemma subtree_root_ok:
  "tree_of t L slots \<Longrightarrow> subtree_root t level i =
    (if level \<le> L \<and> i < 2 ^ (L - level) then Some (node_of (\<lambda>i. slot_leaf_hash (slots i)) level i) else None)"
  using array_tree_node[of "st_nodes t" L _ level i] by (auto simp: tree_of_def subtree_root_def Let_def)

lemma tree_set_slot_ok:
  assumes "tree_of t L slots" "i < 2 ^ L"
  shows "tree_of (tree_set_slot i v t) L (slots(i := v)) \<and> resident_bytes (tree_set_slot i v t) = resident_bytes t"
proof -
  let ?n = "2 ^ L + i" and ?N = "st_nodes t"
  have h: "(if slot_is_empty v then st_zeros t ! 0 else slot_leaf_hash v) = slot_leaf_hash v"
    using assms(1) by (simp add: tree_of_def zeros_0 slot_is_empty_def)
  have leaf: "?N ! ?n = slot_leaf_hash (slots i)" and len: "length ?N = 2 * 2 ^ L"
    and z: "st_zeros t = zero_slot_roots L" and L: "st_log_slots t = L"
    and ok: "\<And>m. 1 \<le> m \<Longrightarrow> m < 2 ^ L \<Longrightarrow> parent_ok ?N m"
    using assms by (auto simp: tree_of_def array_tree_def)
  show ?thesis
  proof (cases "?N ! ?n = slot_leaf_hash v")
    case True
    then have "(\<lambda>k. slot_leaf_hash ((slots(i := v)) k)) = (\<lambda>k. slot_leaf_hash (slots k))" using leaf by auto
    then have "tree_of t L (slots(i := v))" using assms(1) unfolding tree_of_def by metis
    then show ?thesis using True h L by (simp add: tree_set_slot_def Let_def)
  next
    case False
    let ?M = "?N[?n := slot_leaf_hash v]"
    let ?R = "set_slot_loop (zero_slot_roots L) ?n 0 ?M"
    have "parent_ok ?M m" if "1 \<le> m" "m < 2 ^ L" "m \<noteq> ?n div 2" for m
      using parent_ok_update[of ?N m ?n] ok that by auto
    then have R: "length ?R = 2 * 2 ^ L" "\<And>m. 1 \<le> m \<Longrightarrow> m < 2 ^ L \<Longrightarrow> parent_ok ?R m" "\<And>m. 2 ^ L \<le> m \<Longrightarrow> ?R ! m = ?M ! m"
      using set_slot_loop_ok[of ?M L 0 ?n] len assms(2) by simp_all
    have "?R ! (2 ^ L + k) = slot_leaf_hash ((slots(i := v)) k)" if "k < 2 ^ L" for k
      using R(3)[of "2 ^ L + k"] that assms len by (auto simp: nth_list_update tree_of_def array_tree_def)
    then have "array_tree ?R L (\<lambda>k. slot_leaf_hash ((slots(i := v)) k))" using R by (simp add: array_tree_def)
    moreover have "tree_set_slot i v t = t\<lparr> st_nodes := ?R \<rparr>"
      using False h L z by (simp add: tree_set_slot_def Let_def)
    ultimately show ?thesis using z L R(1) len by (simp add: tree_of_def resident_bytes_def)
  qed
qed

section \<open>The read-only overlay\<close>

abbreviation overlaid :: "(nat \<Rightarrow> 'v) \<Rightarrow> (nat \<times> 'v) list \<Rightarrow> nat \<Rightarrow> 'v" where
  "overlaid g updates k \<equiv> (case map_of updates k of Some h \<Rightarrow> h | None \<Rightarrow> g k)"

lemma split_ascending:
  assumes "ascending (map fst us)"
  shows "take (length (takeWhile (\<lambda>(k, _). k < m) us)) us = filter (\<lambda>(k, _). k < m) us"
    and "drop (length (takeWhile (\<lambda>(k, _). k < m) us)) us = filter (\<lambda>(k, _). \<not> k < m) us"
proof -
  have "take (length (takeWhile (\<lambda>(k, _). k < m) us)) us = filter (\<lambda>(k, _). k < m) us \<and>
    drop (length (takeWhile (\<lambda>(k, _). k < m) us)) us = filter (\<lambda>(k, _). \<not> k < m) us"
    using assms
  proof (induction us)
    case (Cons u us)
    obtain k h where u: "u = (k, h)" by (cases u)
    show ?case
    proof (cases "k < m")
      case False
      then have "\<forall>x \<in> set us. \<not> fst x < m" using Cons.prems u by auto
      then have "filter (\<lambda>(k, _). k < m) us = []" "filter (\<lambda>(k, _). \<not> k < m) us = us"
        by (auto simp: filter_empty_conv intro!: filter_True)
      then show ?thesis using u False by simp
    qed (use Cons u in auto)
  qed simp
  then show "take (length (takeWhile (\<lambda>(k, _). k < m) us)) us = filter (\<lambda>(k, _). k < m) us"
    "drop (length (takeWhile (\<lambda>(k, _). k < m) us)) us = filter (\<lambda>(k, _). \<not> k < m) us" by simp_all
qed

lemma map_of_filter_key: "map_of (filter (\<lambda>(k, _). P k) us) k = (if P k then map_of us k else None)"
  by (induction us) auto

lemma ascending_filter_key: "ascending (map fst us) \<Longrightarrow> ascending (map fst (filter P us))"
  by (induction us) auto

lemma overlay_root_ok:
  assumes "array_tree nodes L g"
  shows "l \<le> L \<Longrightarrow> i < 2 ^ (L - l) \<Longrightarrow> ascending (map fst us) \<Longrightarrow>
    (\<forall>k \<in> fst ` set us. i * 2 ^ l \<le> k \<and> k < Suc i * 2 ^ l) \<Longrightarrow>
    overlay_root nodes (2 ^ (L - l) + i) (i * 2 ^ l) (2 ^ l) us = node_of (overlaid g us) l i"
proof (induction l arbitrary: i us)
  case 0
  show ?case
  proof (cases us)
    case Nil
    then show ?thesis using array_tree_node[OF assms, of 0 i] 0 by (simp add: overlay_root.simps)
  next
    case (Cons u us')
    then have "fst u = i" using 0 by auto
    then show ?thesis using Cons by (cases u) (simp add: overlay_root.simps)
  qed
next
  case (Suc l)
  let ?n = "2 ^ (L - Suc l) + i" and ?m = "Suc (2 * i) * 2 ^ l"
  let ?us = "filter (\<lambda>(k, _). k < ?m) us" and ?vs = "filter (\<lambda>(k, _). \<not> k < ?m) us"
  have e: "2 ^ (L - l) = 2 * (2 :: nat) ^ (L - Suc l)"
    using Suc.prems(1) by (simp add: Suc_diff_Suc flip: power_Suc)
  show ?case
  proof (cases "us = []")
    case True
    then show ?thesis using array_tree_node[OF assms Suc.prems(1,2)] by (simp add: overlay_root.simps)
  next
    case False
    have rng: "i * 2 ^ Suc l = 2 * i * 2 ^ l" "Suc i * 2 ^ Suc l = Suc (Suc (2 * i)) * 2 ^ l" by simp_all
    have n: "2 * ?n = 2 ^ (L - l) + 2 * i" "2 * ?n + 1 = 2 ^ (L - l) + Suc (2 * i)" using e by simp_all
    have "\<forall>k \<in> fst ` set ?us. 2 * i * 2 ^ l \<le> k \<and> k < Suc (2 * i) * 2 ^ l" using Suc.prems(4) rng by force
    then have "overlay_root nodes (2 ^ (L - l) + 2 * i) (2 * i * 2 ^ l) (2 ^ l) ?us = node_of (overlaid g ?us) l (2 * i)"
      using Suc.prems e ascending_filter_key by (intro Suc.IH) auto
    also have "\<dots> = node_of (overlaid g us) l (2 * i)"
      by (rule node_of_cong) (simp add: map_of_filter_key)
    finally have left: "overlay_root nodes (2 * ?n) (i * 2 ^ Suc l) (2 ^ l) ?us = node_of (overlaid g us) l (2 * i)"
      by (simp only: n(1) rng(1))
    have "\<forall>k \<in> fst ` set ?vs. Suc (2 * i) * 2 ^ l \<le> k \<and> k < Suc (Suc (2 * i)) * 2 ^ l" using Suc.prems(4) rng by force
    then have "overlay_root nodes (2 ^ (L - l) + Suc (2 * i)) ?m (2 ^ l) ?vs = node_of (overlaid g ?vs) l (Suc (2 * i))"
      using Suc.prems e ascending_filter_key by (intro Suc.IH) auto
    also have "\<dots> = node_of (overlaid g us) l (Suc (2 * i))"
      by (rule node_of_cong) (simp add: map_of_filter_key)
    finally have right: "overlay_root nodes (2 * ?n + 1) ?m (2 ^ l) ?vs = node_of (overlaid g us) l (Suc (2 * i))"
      by (simp only: n(2))
    have m: "i * 2 ^ Suc l + 2 ^ l = ?m" and half: "2 ^ Suc l div 2 = (2 :: nat) ^ l" and w: "\<not> 2 ^ Suc l \<le> (1 :: nat)"
      using one_less_power[of "2 :: nat" "Suc l"] by simp_all
    show ?thesis
      unfolding overlay_root.simps[of nodes ?n] half Let_def m split_ascending[OF Suc.prems(3)] left right
      using False w by simp
  qed
qed

lemma root_with_updates_ok:
  assumes "tree_of t L slots" "ascending (map fst us)" "\<forall>k \<in> fst ` set us. k < 2 ^ L"
  shows "root_with_updates us t = Some (node_of (\<lambda>i. slot_leaf_hash (overlaid slots us i)) L 0)"
proof -
  let ?leaves = "map (\<lambda>(local, v). (local, if slot_is_empty v then st_zeros t ! 0 else slot_leaf_hash v)) us"
  have eq: "?leaves = map (\<lambda>(local, v). (local, slot_leaf_hash v)) us"
    using assms(1) by (auto simp: tree_of_def zeros_0 slot_is_empty_def)
  have "map_of (map (\<lambda>(local, v). (local, slot_leaf_hash v)) us) k = map_option slot_leaf_hash (map_of us k)" for k
    by (induction us) auto
  then have ov: "overlaid (\<lambda>i. slot_leaf_hash (slots i)) ?leaves = (\<lambda>i. slot_leaf_hash (overlaid slots us i))"
    unfolding eq by (intro ext) (simp split: option.split)
  have fst: "map fst ?leaves = map fst us" by (simp add: comp_def case_prod_beta)
  have rng: "\<forall>k \<in> fst ` set ?leaves. 0 * 2 ^ L \<le> k \<and> k < Suc 0 * 2 ^ L"
    using assms(3) fst by (metis list.set_map mult_1 mult_is_0 One_nat_def zero_le)
  have asc: "ascending (map fst ?leaves)" unfolding fst by (rule assms(2))
  have "array_tree (st_nodes t) L (\<lambda>i. slot_leaf_hash (slots i))" using assms(1) by (simp add: tree_of_def)
  then have "overlay_root (st_nodes t) (2 ^ (L - L) + 0) (0 * 2 ^ L) (2 ^ L) ?leaves =
      node_of (overlaid (\<lambda>i. slot_leaf_hash (slots i)) ?leaves) L 0"
    by (rule overlay_root_ok[OF _ order_refl _ asc rng]) simp
  moreover have "\<not> (\<exists>(local, _) \<in> set us. local \<ge> 2 ^ st_log_slots t)"
    using assms by (force simp: tree_of_def)
  moreover have "st_log_slots t = L" using assms(1) by (simp add: tree_of_def)
  ultimately show ?thesis by (simp add: root_with_updates_def ov)
qed

section \<open>The hot-segment cache\<close>

definition entries_ok :: "(nat \<Rightarrow> exact_segment_tree \<Rightarrow> bool) \<Rightarrow> exact_segment_cache \<Rightarrow> bool" where
  "entries_ok P c \<longleftrightarrow> distinct (map fst (ec_entries c)) \<and> (\<forall>(i, t) \<in> set (ec_entries c). P i t) \<and>
    ec_bytes c = sum_list (map (resident_bytes \<circ> snd) (ec_entries c))"

lemma take_entry_None: "take_entry i es = None \<longleftrightarrow> i \<notin> fst ` set es"
  by (induction i es rule: take_entry.induct) auto

lemma take_entry_Some:
  assumes "take_entry i es = Some (t, rest)" "distinct (map fst es)"
  shows "set es = insert (i, t) (set rest) \<and> distinct (map fst rest) \<and> i \<notin> fst ` set rest \<and>
    sum_list (map (resident_bytes \<circ> snd) es) = resident_bytes t + sum_list (map (resident_bytes \<circ> snd) rest)"
  using assms
proof (induction i es arbitrary: t rest rule: take_entry.induct)
  case (2 i key tree es)
  show ?case
  proof (cases "key = i")
    case False
    then obtain r where r: "take_entry i es = Some (t, r)" "rest = (key, tree) # r" using 2 by auto
    then show ?thesis using 2(1)[OF False r(1)] 2(3) False by auto
  qed (use 2 in auto)
qed simp

lemma cache_get_eq: "cache_get i c = map_option fst (take_entry i (ec_entries c))"
proof -
  have "map_option snd (find (\<lambda>(key, _). key = i) es) = map_option fst (take_entry i es)" for es
    by (induction i es rule: take_entry.induct) (auto simp: option.map_comp comp_def case_prod_beta)
  then show ?thesis by (simp add: cache_get_def)
qed

lemma cache_get_ok:
  assumes "entries_ok P c" "cache_get i c = Some t"
  shows "P i t"
proof -
  obtain rest where "take_entry i (ec_entries c) = Some (t, rest)" using assms(2) by (auto simp: cache_get_eq)
  then show ?thesis using take_entry_Some assms(1) by (fastforce simp: entries_ok_def)
qed

lemma cache_default_ok [simp]: "entries_ok P cache_default"
  by (simp add: entries_ok_def cache_default_def)

lemma entries_ok_mono: "entries_ok P c \<Longrightarrow> (\<And>i t. (i, t) \<in> set (ec_entries c) \<Longrightarrow> P i t \<Longrightarrow> Q i t) \<Longrightarrow> entries_ok Q c"
  by (auto simp: entries_ok_def)

lemma entry_key: "(j, t) \<in> set es \<Longrightarrow> i \<notin> fst ` set es \<Longrightarrow> j \<noteq> i"
  by force

lemma cache_remove_ok:
  assumes "entries_ok P c"
  shows "entries_ok (\<lambda>j t. P j t \<and> j \<noteq> i) (cache_remove i c)"
proof (cases "take_entry i (ec_entries c)")
  case None
  then have "i \<notin> fst ` set (ec_entries c)" by (simp add: take_entry_None)
  then have "entries_ok (\<lambda>j t. P j t \<and> j \<noteq> i) c" by (intro entries_ok_mono[OF assms] conjI entry_key)
  then show ?thesis using None by (simp add: cache_remove_def)
next
  case (Some p)
  obtain t rest where p: "p = (t, rest)" by (cases p)
  have e: "set (ec_entries c) = insert (i, t) (set rest)" "distinct (map fst rest)" "i \<notin> fst ` set rest"
    "ec_bytes c = resident_bytes t + sum_list (map (resident_bytes \<circ> snd) rest)"
    using take_entry_Some[of i "ec_entries c" t rest] Some p assms by (auto simp: entries_ok_def)
  have "\<forall>(j, s) \<in> set rest. P j s \<and> j \<noteq> i"
    using assms e(1) entry_key[OF _ e(3)] by (auto simp: entries_ok_def)
  then show ?thesis using Some p e by (simp add: cache_remove_def entries_ok_def)
qed

lemma cache_update_slot_ok:
  assumes "entries_ok P c" "\<And>t. P i t \<Longrightarrow> Q i (tree_set_slot k v t) \<and> resident_bytes (tree_set_slot k v t) = resident_bytes t"
    "\<And>j t. j \<noteq> i \<Longrightarrow> P j t \<Longrightarrow> Q j t"
  shows "entries_ok Q (cache_update_slot i k v c)"
proof (cases "take_entry i (ec_entries c)")
  case None
  then have "i \<notin> fst ` set (ec_entries c)" by (simp add: take_entry_None)
  then have "entries_ok Q c" by (intro entries_ok_mono[OF assms(1)] assms(3) entry_key)
  then show ?thesis using None by (simp add: cache_update_slot_def)
next
  case (Some p)
  obtain t rest where p: "p = (t, rest)" by (cases p)
  have e: "set (ec_entries c) = insert (i, t) (set rest)" "distinct (map fst rest)" "i \<notin> fst ` set rest"
    "sum_list (map (resident_bytes \<circ> snd) (ec_entries c)) = resident_bytes t + sum_list (map (resident_bytes \<circ> snd) rest)"
    using take_entry_Some[of i "ec_entries c" t rest] Some p assms(1) by (auto simp: entries_ok_def)
  have "P i t" using assms(1) e(1) by (auto simp: entries_ok_def)
  moreover have "\<forall>(j, t) \<in> set rest. Q j t"
    using assms(1,3) e(1) entry_key[OF _ e(3)] by (auto simp: entries_ok_def)
  ultimately show ?thesis
    using assms(1) assms(2)[of t] e p Some by (auto simp: cache_update_slot_def entries_ok_def)
qed

lemma evict_oldest_ok:
  assumes "used = sum_list (map (resident_bytes \<circ> snd) es)" "bytes \<le> budget" "distinct (map fst es)"
  shows "\<exists>es'. evict_oldest budget bytes es used = Some (es', sum_list (map (resident_bytes \<circ> snd) es')) \<and>
    set es' \<subseteq> set es \<and> distinct (map fst es')"
  using assms
proof (induction es arbitrary: used)
  case Nil
  then show ?case by (simp add: evict_oldest.simps)
next
  case (Cons e es)
  obtain j t where e: "e = (j, t)" by (cases e)
  show ?case
  proof (cases "used + bytes > budget")
    case True
    then have "evict_oldest budget bytes (e # es) used = evict_oldest budget bytes es (used - resident_bytes t)"
      by (subst evict_oldest.simps) (simp add: e)
    then show ?thesis using Cons e by (auto 4 3)
  next
    case False
    then show ?thesis using Cons.prems by (auto simp: evict_oldest.simps[of budget bytes "e # es"])
  qed
qed

lemma cache_insert_ok:
  assumes "entries_ok P c" "P i t"
  shows "\<exists>c'. cache_insert i t c = Some c' \<and> entries_ok P c'"
proof -
  define d where "d = cache_remove i c"
  have d: "entries_ok (\<lambda>j t. P j t \<and> j \<noteq> i) d" using cache_remove_ok[OF assms(1)] by (simp add: d_def)
  show ?thesis
  proof (cases "resident_bytes t > ec_budget d")
    case True
    moreover have "entries_ok P d" using d by (auto simp: entries_ok_def)
    ultimately show ?thesis by (simp add: cache_insert_def flip: d_def)
  next
    case False
    then obtain es' where es': "evict_oldest (ec_budget d) (resident_bytes t) (ec_entries d) (ec_bytes d) =
        Some (es', sum_list (map (resident_bytes \<circ> snd) es'))" "set es' \<subseteq> set (ec_entries d)" "distinct (map fst es')"
      using evict_oldest_ok[of "ec_bytes d" "ec_entries d" "resident_bytes t" "ec_budget d"] d by (auto simp: entries_ok_def)
    have "\<forall>(j, s) \<in> set es'. P j s \<and> j \<noteq> i" using es'(2) d by (auto simp: entries_ok_def)
    moreover from this have "i \<notin> fst ` set es'" by auto
    ultimately show ?thesis
      using False es' assms(2) by (auto simp: cache_insert_def entries_ok_def simp flip: d_def)
  qed
qed

section \<open>The tree over the segment roots\<close>

lemma build_tree_ok:
  assumes "length roots = 2 ^ K"
  shows "array_tree (build_tree roots) K (nth roots)"
proof -
  let ?c = "2 ^ K :: nat" and ?t = "replicate (2 ^ K) zero_digest @ roots"
  define ks where "ks = rev [1..<?c]"
  have asc: "1 \<le> k \<and> k < length ?t \<and> k div 2 \<notin> set xs" if "ks = xs @ k # ys" for xs k ys
  proof -
    have "rev ys @ k # rev xs = rev ks" using that by simp
    then have e: "rev ys @ k # rev xs = [1..<?c]" by (simp add: ks_def)
    have "sorted_wrt (<) (rev ys @ k # rev xs)" "set (rev ys @ k # rev xs) = {1..<?c}"
      unfolding e by (simp_all only: sorted_wrt_upt set_upt)
    then have "\<forall>x \<in> set xs. k < x" "k \<in> {1..<?c}" by (auto simp: sorted_wrt_append)
    moreover have "k div 2 \<le> k" by simp
    ultimately show ?thesis using assms by fastforce
  qed
  have R: "length (fold rehash ks ?t) = length ?t \<and> (\<forall>k \<in> set ks. parent_ok (fold rehash ks ?t) k) \<and>
    (\<forall>m. m \<notin> set ks \<longrightarrow> fold rehash ks ?t ! m = ?t ! m)"
    by (rule fold_rehash) (rule asc)
  have "set ks = {1..<?c}" by (simp add: ks_def)
  moreover have "build_tree roots = fold rehash ks ?t" using assms by (simp add: build_tree_def Let_def ks_def)
  ultimately show ?thesis using assms R by (simp add: array_tree_def nth_append)
qed

definition rc_wf :: "exact_segment_root_cache \<Rightarrow> bool" where
  "rc_wf c \<longleftrightarrow> rc_effective_log_seg c = min (rc_log_slots c) 16 \<and>
    length (rc_segment_roots c) = 2 ^ (rc_log_slots c - rc_effective_log_seg c) \<and>
    (length (rc_segment_roots c) \<noteq> 1 \<longrightarrow>
      array_tree (rc_tree c) (rc_log_slots c - rc_effective_log_seg c) (nth (rc_segment_roots c)))"

lemma node_of_node: "node_of (\<lambda>i. node_of f a i) b j = node_of f (a + b) j"
  by (induction b arbitrary: j) simp_all

lemma root_cache_root_ok:
  "rc_wf c \<Longrightarrow> root_cache_root c = node_of (nth (rc_segment_roots c)) (rc_log_slots c - rc_effective_log_seg c) 0"
proof -
  assume c: "rc_wf c"
  let ?K = "rc_log_slots c - rc_effective_log_seg c"
  show ?thesis
  proof (cases "?K = 0")
    case True
    then show ?thesis using c by (simp add: rc_wf_def root_cache_root_def)
  next
    case False
    then have len: "length (rc_segment_roots c) \<noteq> 1" using c one_less_power[of "2 :: nat" ?K] by (simp add: rc_wf_def)
    then have "array_tree (rc_tree c) ?K (nth (rc_segment_roots c))" using c unfolding rc_wf_def by blast
    then show ?thesis using array_tree_root len by (simp add: root_cache_root_def)
  qed
qed

lemma rc_root_eq:
  assumes "rc_wf c" "\<And>s. s < length (rc_segment_roots c) \<Longrightarrow> rc_segment_roots c ! s = node_of f (rc_effective_log_seg c) s"
  shows "root_cache_root c = node_of f (rc_log_slots c) 0"
proof -
  let ?K = "rc_log_slots c - rc_effective_log_seg c"
  have "node_of (nth (rc_segment_roots c)) ?K 0 = node_of (node_of f (rc_effective_log_seg c)) ?K 0"
    using assms by (intro node_of_cong) (simp add: rc_wf_def)
  also have "\<dots> = node_of f (rc_log_slots c) 0"
    using assms(1) node_of_node[of f "rc_effective_log_seg c" ?K 0] by (simp add: rc_wf_def)
  finally show ?thesis using root_cache_root_ok[OF assms(1)] by simp
qed

lemma set_segment_root_ok:
  assumes "rc_wf c" "i < length (rc_segment_roots c)"
  shows "rc_wf (set_segment_root i r c) \<and> rc_segment_roots (set_segment_root i r c) = (rc_segment_roots c)[i := r] \<and>
    rc_log_slots (set_segment_root i r c) = rc_log_slots c \<and> rc_effective_log_seg (set_segment_root i r c) = rc_effective_log_seg c"
proof (cases "length (rc_segment_roots c) = 1")
  case True
  then show ?thesis using assms by (simp add: set_segment_root_def rc_wf_def Let_def)
next
  case False
  let ?K = "rc_log_slots c - rc_effective_log_seg c"
  let ?n = "2 ^ ?K + i" and ?T = "(rc_tree c)[2 ^ ?K + i := r]"
  have at: "array_tree (rc_tree c) ?K (nth (rc_segment_roots c))" and len: "length (rc_segment_roots c) = 2 ^ ?K"
    using assms(1) False by (auto simp: rc_wf_def)
  have "parent_ok ?T m" if "1 \<le> m" "m < 2 ^ ?K" "m \<noteq> ?n div 2" for m
    using parent_ok_update[of "rc_tree c" m ?n] at that by (auto simp: array_tree_def)
  then have R: "length (set_root_loop ?n ?T) = 2 * 2 ^ ?K" "\<And>m. 1 \<le> m \<Longrightarrow> m < 2 ^ ?K \<Longrightarrow> parent_ok (set_root_loop ?n ?T) m"
    "\<And>m. 2 ^ ?K \<le> m \<Longrightarrow> set_root_loop ?n ?T ! m = ?T ! m"
    using set_root_loop_ok[of ?T ?K ?n] at len assms(2) by (simp_all add: array_tree_def)
  have "set_root_loop ?n ?T ! (2 ^ ?K + k) = (rc_segment_roots c)[i := r] ! k" if "k < 2 ^ ?K" for k
    using R(3)[of "2 ^ ?K + k"] at len that assms(2) by (cases "k = i") (simp_all add: array_tree_def)
  then have "array_tree (set_root_loop ?n ?T) ?K (nth ((rc_segment_roots c)[i := r]))"
    using R by (simp add: array_tree_def)
  then show ?thesis using False assms(1) len by (simp add: set_segment_root_def rc_wf_def Let_def)
qed

lemma LOG_SEGMENT_SIZE_nat [simp]: "unat LOG_SEGMENT_SIZE = 16"
  by (simp add: LOG_SEGMENT_SIZE_def)

lemma root_cache_empty_ok:
  "rc_wf (root_cache_empty L) \<and> rc_log_slots (root_cache_empty L) = L \<and> rc_effective_log_seg (root_cache_empty L) = min L 16 \<and>
   (\<forall>s < length (rc_segment_roots (root_cache_empty L)). rc_segment_roots (root_cache_empty L) ! s = node_of (\<lambda>_. empty_leaf) (min L 16) s)"
proof -
  have z: "zero_slot_roots (min L 16) ! min L 16 = node_of (\<lambda>_. empty_leaf) (min L 16) s" for s
    by (rule zero_slot_roots_nth) simp
  then show ?thesis
    by (auto simp: root_cache_empty_def empty_with_segment_log_def rc_wf_def Let_def build_tree_ok)
qed

text \<open>Growing by one level keeps every current segment root current, if the new half is empty.\<close>

lemma root_cache_expand_ok:
  assumes c: "rc_wf c" and f: "\<And>k. 2 ^ rc_log_slots c \<le> k \<Longrightarrow> f k = empty_leaf"
    and cur: "\<And>s. s < length (rc_segment_roots c) \<Longrightarrow> s \<notin> D \<Longrightarrow> rc_segment_roots c ! s = node_of f (rc_effective_log_seg c) s"
  shows "rc_wf (root_cache_expand c) \<and> rc_log_slots (root_cache_expand c) = Suc (rc_log_slots c) \<and>
    (\<forall>s < length (rc_segment_roots (root_cache_expand c)). s \<notin> D \<longrightarrow>
      rc_segment_roots (root_cache_expand c) ! s = node_of f (rc_effective_log_seg (root_cache_expand c)) s)"
proof -
  let ?L = "rc_log_slots c"
  have zero: "node_of f l i = zero_slot_roots d ! l" if "2 ^ ?L \<le> i * 2 ^ l" "l \<le> d" for l i d
    using that f by (intro node_of_empty) auto
  show ?thesis
  proof (cases "?L < 16")
    case True
    then have one: "length (rc_segment_roots c) = 1" and eff: "rc_effective_log_seg c = ?L" using c by (auto simp: rc_wf_def)
    have "root_cache_root c = rc_segment_roots c ! 0" using one by (simp add: root_cache_root_def)
    moreover have "node_of f ?L (Suc 0) = zero_slot_roots ?L ! ?L" by (rule zero) simp_all
    ultimately show ?thesis
      using True one eff cur[of 0] by (auto simp: root_cache_expand_def rc_wf_def Let_def)
  next
    case False
    then have eff: "rc_effective_log_seg c = 16" and len: "length (rc_segment_roots c) = 2 ^ (?L - 16)" using c by (auto simp: rc_wf_def)
    let ?R = "rc_segment_roots c @ replicate (2 ^ (?L - 16)) (zero_slot_roots 16 ! 16)"
    have K: "Suc ?L - 16 = Suc (?L - 16)" using False by simp
    have "array_tree (build_tree ?R) (Suc ?L - 16) (nth ?R)" using len K by (intro build_tree_ok) simp
    moreover have "?R ! s = node_of f 16 s" if "s < length ?R" "s \<notin> D" for s
    proof (cases "s < 2 ^ (?L - 16)")
      case True
      then show ?thesis using cur[of s] that len eff by (simp add: nth_append)
    next
      case s: False
      then have "2 ^ (?L - 16) * 2 ^ 16 \<le> s * (2 :: nat) ^ 16" by (intro mult_le_mono1) simp
      moreover have "2 ^ (?L - 16) * 2 ^ 16 = (2 :: nat) ^ ?L"
        using False by (metis le_add_diff_inverse2 not_less power_add)
      ultimately have "2 ^ ?L \<le> s * (2 :: nat) ^ 16" by simp
      then have "node_of f 16 s = zero_slot_roots 16 ! 16" by (rule zero) simp
      then show ?thesis using s that len by (simp add: nth_append)
    qed
    ultimately show ?thesis
      using False eff len K by (simp add: root_cache_expand_def rc_wf_def Let_def)
  qed
qed

lemma ilog2_pow: "ilog2 (2 ^ K) = K"
proof (induction K)
  case (Suc K)
  have "\<not> 2 ^ Suc K \<le> (1 :: nat)" using one_less_power[of "2 :: nat" "Suc K"] by simp
  then show ?case using Suc by (subst ilog2.simps) simp
qed (simp add: ilog2.simps)

lemma segment_node_hash_ok:
  assumes "rc_wf c" "K = rc_log_slots c - rc_effective_log_seg c"
  shows "segment_node_hash level i c =
    (if level \<le> K \<and> i < 2 ^ (K - level) then Some (node_of (nth (rc_segment_roots c)) level i) else None)"
proof -
  have len: "length (rc_segment_roots c) = 2 ^ K" using assms by (simp add: rc_wf_def)
  have "(2 :: nat) ^ K div 2 ^ level = 2 ^ (K - level)" if "level \<le> K" using that by (simp add: power_diff)
  moreover have "rc_tree c ! (2 ^ (K - level) + i) = node_of (nth (rc_segment_roots c)) level i"
    if "level \<le> K" "i < 2 ^ (K - level)" "level \<noteq> 0"
  proof -
    have "K \<noteq> 0" using that by auto
    then have "length (rc_segment_roots c) \<noteq> 1" using len one_less_power[of "2 :: nat" K] by simp
    then have "array_tree (rc_tree c) K (nth (rc_segment_roots c))" using assms unfolding rc_wf_def by blast
    then show ?thesis using array_tree_node that by blast
  qed
  ultimately show ?thesis by (auto simp: segment_node_hash_def len ilog2_pow Let_def)
qed

section \<open>Correctness\<close>

lemma fold_tree_set_slot:
  "tree_of t L slots \<Longrightarrow> \<forall>(i, v) \<in> set writes. i < 2 ^ L \<Longrightarrow>
    tree_of (fold (\<lambda>(i, v). tree_set_slot i v) writes t) L (fold (\<lambda>(i, v) s. s(i := v)) writes slots)"
proof (induction writes arbitrary: t slots)
  case (Cons w writes)
  obtain i v where w: "w = (i, v)" by (cases w)
  have "tree_of (tree_set_slot i v t) L (slots(i := v))" using tree_set_slot_ok Cons.prems w by auto
  then show ?case using Cons.IH[of "tree_set_slot i v t" "slots(i := v)"] Cons.prems(2) w by (simp del: fun_upd_apply)
qed simp

text \<open>
  C33: hot-segment trees never drift.  A tree built from the columns of a segment and
  kept up to date by any sequence of slot writes, each of which stops climbing at
  the first unchanged node, has the root of the full tree over the written slots;
  and hashing only the union of pending update paths gives the root as if the
  updates had been applied.
\<close>

theorem segment_tree_correct:
  assumes "length (col_values cols) = 2 ^ L" "length (col_owners_hi cols) = 2 ^ L" "length (col_owners_lo cols) = 2 ^ L"
    and "\<forall>(i, v) \<in> set writes. i < 2 ^ L" "ascending (map fst updates)" "\<forall>k \<in> fst ` set updates. k < 2 ^ L"
    and "slots = fold (\<lambda>(i, v) s. s(i := v)) writes (column_slot cols)"
  shows "\<exists>t t'. from_columns L cols = Some t \<and> t' = fold (\<lambda>(i, v). tree_set_slot i v) writes t \<and>
    tree_root t' = node_of (\<lambda>i. slot_leaf_hash (slots i)) L 0 \<and>
    root_with_updates updates t' = Some (node_of (\<lambda>i. slot_leaf_hash (overlaid slots updates i)) L 0)"
proof -
  obtain t where t: "from_columns L cols = Some t" "tree_of t L (column_slot cols)"
    using from_columns_ok[OF assms(1-3)] by blast
  have "tree_of (fold (\<lambda>(i, v). tree_set_slot i v) writes t) L slots"
    using fold_tree_set_slot[OF t(2) assms(4)] assms(7) by simp
  then show ?thesis using t(1) tree_root_ok root_with_updates_ok[OF _ assms(5,6)] by blast
qed

theorem segment_tree_correct_witness:
  "\<exists>t t'. from_columns 1 (new_zero 2) = Some t \<and> t' = tree_set_slot 1 (from_parts 5 1 2 3) t \<and>
    tree_root t' = state_node_hash empty_leaf (slot_leaf_hash (from_parts 5 1 2 3)) \<and>
    root_with_updates [(0, from_parts 7 2 2 3)] t' =
      Some (state_node_hash (slot_leaf_hash (from_parts 7 2 2 3)) (slot_leaf_hash (from_parts 5 1 2 3)))"
  using segment_tree_correct[of "new_zero 2" 1 "[(1, from_parts 5 1 2 3)]" "[(0, from_parts 7 2 2 3)]"
      "(column_slot (new_zero 2))(1 := from_parts 5 1 2 3)"]
  by (simp add: new_zero_def column_slot_def EMPTY_def)

end
