(* ===== verification/ChainState.thy ===== *)
theory ChainState
  imports SegmentTree
begin

text \<open>
  The native state engine: segmented slot columns (\<open>segmented_state.rs\<close>) and the
  chain state with its exact root, counters and the application of one transaction
  (\<open>state.rs\<close>).  The raw segment commitments of the storage layer (\<open>seg_roots\<close>,
  \<open>tree\<close> and their dirty markers), which no consensus rule reads, are left out of the
  state; everything the exact root, the counters and the residency of segments
  depend on is there.  Segment ids are natural numbers below \<open>2 ^ 16\<close>; an operation
  that can panic returns \<open>None\<close> for it, otherwise a result.  The engine is shown to
  refine the plain map from slots to values: a transaction is accepted exactly when
  the map allows it, and the root it returns is the root of the updated map.
\<close>

section \<open>Results that may panic\<close>

type_synonym ('e, 'a) outcome = "('e + 'a) option"

fun bind_out :: "('e, 'a) outcome \<Rightarrow> ('a \<Rightarrow> ('e, 'b) outcome) \<Rightarrow> ('e, 'b) outcome" where
  "bind_out None f = None"
| "bind_out (Some (Inl e)) f = Some (Inl e)"
| "bind_out (Some (Inr x)) f = f x"

section \<open>Segmented columns\<close>

record segmented_state =
  ss_log_slots :: nat
  ss_effective_log_seg :: nat
  ss_num_segments :: nat
  ss_segments :: "segment_columns option list"
  ss_live_counts :: "nat list"
  ss_mdbx_dirty :: "nat set"
  ss_exact_dirty :: "nat set"
  ss_exact_segment_cache :: exact_segment_cache
  ss_evicted :: "nat set"

definition new_empty :: "nat \<Rightarrow> segmented_state option" where
  "new_empty log_slots =
    (if log_slots < 1 then None
     else
       let num_segments = (if log_slots > unat LOG_SEGMENT_SIZE then 2 ^ (log_slots - unat LOG_SEGMENT_SIZE) else 1)
       in Some \<lparr> ss_log_slots = log_slots, ss_effective_log_seg = min log_slots (unat LOG_SEGMENT_SIZE),
            ss_num_segments = num_segments, ss_segments = replicate num_segments None,
            ss_live_counts = replicate num_segments 0, ss_mdbx_dirty = {}, ss_exact_dirty = {},
            ss_exact_segment_cache = cache_default, ss_evicted = {} \<rparr>)"

definition num_slots :: "segmented_state \<Rightarrow> nat" where
  "num_slots st = 2 ^ ss_log_slots st"

definition seg_id_of :: "segmented_state \<Rightarrow> u32 \<Rightarrow> nat" where
  "seg_id_of st idx = unat idx div 2 ^ ss_effective_log_seg st"

definition local_idx_of :: "segmented_state \<Rightarrow> u32 \<Rightarrow> nat" where
  "local_idx_of st idx = unat idx mod 2 ^ ss_effective_log_seg st"

definition is_evicted :: "segmented_state \<Rightarrow> nat \<Rightarrow> bool" where
  "is_evicted st seg_id \<longleftrightarrow> seg_id \<in> ss_evicted st"

definition slot_of :: "segmented_state \<Rightarrow> u32 \<Rightarrow> slot_value" where
  "slot_of st idx =
    (case ss_segments st ! seg_id_of st idx of
       None \<Rightarrow> EMPTY
     | Some cols \<Rightarrow> column_slot cols (local_idx_of st idx))"

definition write_column :: "nat \<Rightarrow> slot_value \<Rightarrow> segment_columns \<Rightarrow> segment_columns" where
  "write_column loc v cols =
    \<lparr> col_values = (col_values cols)[loc := sv_value v],
      col_owners_hi = (col_owners_hi cols)[loc := sv_owner_hi v],
      col_owners_lo = (col_owners_lo cols)[loc := sv_owner_lo v] \<rparr>"

text \<open>One iteration of the write loop: the segment is materialised on first write and
  dropped again when its last live slot is emptied.  \<open>saturating_add\<close> and
  \<open>saturating_sub\<close> act on \<open>u32\<close> counts.\<close>

definition next_live :: "bool \<Rightarrow> bool \<Rightarrow> nat \<Rightarrow> nat" where
  "next_live was_empty now_empty live =
    (case (was_empty, now_empty) of
       (True, False) \<Rightarrow> min (live + 1) (2 ^ 32 - 1)
     | (False, True) \<Rightarrow> live - 1
     | _ \<Rightarrow> live)"

definition write_slot :: "u32 \<times> slot_value \<Rightarrow> segmented_state \<Rightarrow> segmented_state" where
  "write_slot = (\<lambda>(idx, v) st.
    let seg = seg_id_of st idx; loc = local_idx_of st idx; old = slot_of st idx
    in if old = v then st
       else if ss_segments st ! seg = None \<and> slot_is_empty v then st
       else
         let cols = (case ss_segments st ! seg of
                 None \<Rightarrow> new_zero (2 ^ ss_effective_log_seg st)
               | Some cols \<Rightarrow> cols);
             cols = write_column loc v cols;
             live = next_live (slot_is_empty old) (slot_is_empty v) (ss_live_counts st ! seg);
             evicted = (if ss_segments st ! seg = None \<or> live = 0 then ss_evicted st - {seg} else ss_evicted st)
         in st\<lparr> ss_segments := (ss_segments st)[seg := (if live = 0 then None else Some cols)],
                ss_live_counts := (ss_live_counts st)[seg := live],
                ss_evicted := evicted,
                ss_exact_segment_cache := (if live = 0 then cache_remove seg (ss_exact_segment_cache st)
                  else cache_update_slot seg loc v (ss_exact_segment_cache st)),
                ss_mdbx_dirty := insert seg (ss_mdbx_dirty st),
                ss_exact_dirty := insert seg (ss_exact_dirty st) \<rparr>)"

datatype state_error = StSlotOutOfRange

definition apply_delta_unrooted :: "(u32 \<times> slot_value) list \<Rightarrow> segmented_state \<Rightarrow> state_error + segmented_state" where
  "apply_delta_unrooted deltas st =
    (if \<exists>(idx, _) \<in> set deltas. unat idx \<ge> num_slots st then Inl StSlotOutOfRange
     else Inr (fold write_slot deltas st))"

definition remember_exact_segment_tree :: "nat \<Rightarrow> exact_segment_tree \<Rightarrow> segmented_state \<Rightarrow> segmented_state option" where
  "remember_exact_segment_tree seg_id tree st =
    (if ss_live_counts st ! seg_id \<noteq> 0 \<and> \<not> is_evicted st seg_id
     then map_option (\<lambda>c. st\<lparr> ss_exact_segment_cache := c \<rparr>) (cache_insert seg_id tree (ss_exact_segment_cache st))
     else Some st)"

definition exact_segment_root :: "nat \<Rightarrow> segmented_state \<Rightarrow> (exact_state_read_error, digest \<times> segmented_state) outcome" where
  "exact_segment_root seg_id st =
    (if is_evicted st seg_id then Some (Inl (EvictedSegment (of_nat seg_id)))
     else case cache_get seg_id (ss_exact_segment_cache st) of
       Some tree \<Rightarrow> Some (Inr (tree_root tree, st))
     | None \<Rightarrow>
       (case ss_segments st ! seg_id of
          None \<Rightarrow> Some (Inr (zero_slot_roots (ss_effective_log_seg st) ! ss_effective_log_seg st, st))
        | Some columns \<Rightarrow>
          (case from_columns (ss_effective_log_seg st) columns of
             None \<Rightarrow> None
           | Some tree \<Rightarrow>
             map_option (\<lambda>st. Inr (tree_root tree, st)) (remember_exact_segment_tree seg_id tree st))))"

definition count_live :: "segment_columns \<Rightarrow> nat" where
  "count_live cols =
    length (filter (\<lambda>((v, hi), lo). v \<noteq> 0 \<or> hi \<noteq> 0 \<or> lo \<noteq> 0)
      (zip (zip (col_values cols) (col_owners_hi cols)) (col_owners_lo cols)))"

definition evict_segment :: "nat \<Rightarrow> segmented_state \<Rightarrow> segmented_state" where
  "evict_segment seg_id st =
    (let st = st\<lparr> ss_exact_segment_cache := cache_remove seg_id (ss_exact_segment_cache st) \<rparr>
     in if ss_segments st ! seg_id \<noteq> None
        then st\<lparr> ss_segments := (ss_segments st)[seg_id := None], ss_evicted := insert seg_id (ss_evicted st) \<rparr>
        else st)"

definition restore_evicted_columns :: "nat \<Rightarrow> segment_columns \<Rightarrow> segmented_state \<Rightarrow> segmented_state" where
  "restore_evicted_columns seg_id cols st =
    (let live = count_live cols
     in st\<lparr> ss_exact_segment_cache := cache_remove seg_id (ss_exact_segment_cache st),
            ss_live_counts := (ss_live_counts st)[seg_id := live],
            ss_segments := (ss_segments st)[seg_id := (if live = 0 then None else Some cols)],
            ss_evicted := ss_evicted st - {seg_id} \<rparr>)"

definition expand :: "segmented_state \<Rightarrow> segmented_state" where
  "expand st =
    (let st = st\<lparr> ss_log_slots := ss_log_slots st + 1 \<rparr>
     in if ss_log_slots st \<le> unat LOG_SEGMENT_SIZE then
          let extra = replicate (2 ^ (ss_log_slots st - 1)) 0;
              grow = (\<lambda>cols. \<lparr> col_values = col_values cols @ extra, col_owners_hi = col_owners_hi cols @ extra,
                               col_owners_lo = col_owners_lo cols @ extra \<rparr>)
          in st\<lparr> ss_exact_segment_cache := cache_remove 0 (ss_exact_segment_cache st),
                 ss_effective_log_seg := ss_log_slots st,
                 ss_segments := (ss_segments st)[0 := map_option grow (ss_segments st ! 0)],
                 ss_exact_dirty := insert 0 (ss_exact_dirty st) \<rparr>
        else
          let n = ss_num_segments st
          in st\<lparr> ss_num_segments := n * 2,
                 ss_segments := ss_segments st @ replicate n None,
                 ss_live_counts := ss_live_counts st @ replicate n 0 \<rparr>)"

section \<open>Chain state\<close>

record chain_state =
  cs_state :: segmented_state
  cs_utxo_root :: digest
  cs_active_slot_count :: u64
  cs_alloc_counter :: u64
  cs_circulating_supply_micronoid :: u128
  cs_exact_roots :: exact_segment_root_cache

definition with_log_slots :: "nat \<Rightarrow> chain_state option" where
  "with_log_slots log_slots =
    map_option (\<lambda>state. \<lparr> cs_state = state, cs_utxo_root = zero_slot_roots log_slots ! log_slots,
      cs_active_slot_count = 0, cs_alloc_counter = 0, cs_circulating_supply_micronoid = 0,
      cs_exact_roots = root_cache_empty log_slots \<rparr>) (new_empty log_slots)"

text \<open>The ordered map of the updates, later entries overriding earlier ones.\<close>

definition canonical_updates :: "(u32 \<times> slot_value) list \<Rightarrow> (nat \<times> slot_value) list" where
  "canonical_updates slot_updates = fold (\<lambda>(i, v). bt_insert (unat i) v) slot_updates []"

fun supply_loop :: "segmented_state \<Rightarrow> (nat \<times> slot_value) list \<Rightarrow> u128 \<Rightarrow> u128 option" where
  "supply_loop st [] supply = Some supply"
| "supply_loop st ((slot_index, value) # rest) supply =
    (if slot_index < num_slots st \<and> is_evicted st (seg_id_of st (of_nat slot_index)) then None
     else
       let previous = (if slot_index < num_slots st then slot_of st (of_nat slot_index) else EMPTY)
       in case checked_sub supply (ucast (slot_amount previous)) of
            None \<Rightarrow> None
          | Some supply \<Rightarrow>
            (case checked_add supply (ucast (slot_amount value)) of
               None \<Rightarrow> None | Some supply \<Rightarrow> supply_loop st rest supply))"

definition supply_after_slot_updates :: "(u32 \<times> slot_value) list \<Rightarrow> chain_state \<Rightarrow> u128 option" where
  "supply_after_slot_updates slot_updates cs =
    supply_loop (cs_state cs) (canonical_updates slot_updates) (cs_circulating_supply_micronoid cs)"

definition chain_expand_one :: "chain_state \<Rightarrow> chain_state" where
  "chain_expand_one cs =
    (let old_log_slots = ss_log_slots (cs_state cs);
         exact_cache_was_current = (ss_exact_dirty (cs_state cs) = {} \<and>
           rc_log_slots (cs_exact_roots cs) = old_log_slots \<and> root_cache_root (cs_exact_roots cs) = cs_utxo_root cs);
         empty_right = zero_slot_roots old_log_slots ! old_log_slots;
         cs = cs\<lparr> cs_state := expand (cs_state cs), cs_exact_roots := root_cache_expand (cs_exact_roots cs),
                  cs_utxo_root := state_node_hash (cs_utxo_root cs) empty_right \<rparr>
     in if exact_cache_was_current then cs\<lparr> cs_state := (cs_state cs)\<lparr> ss_exact_dirty := {} \<rparr> \<rparr> else cs)"

text \<open>The roots of the dirty segments are refreshed in the order \<open>ids\<close> in which the
  hash set is read, those with a cached tree first.\<close>

fun expand_roots_to :: "nat \<Rightarrow> exact_segment_root_cache \<Rightarrow> exact_segment_root_cache" where
  "expand_roots_to 0 c = c"
| "expand_roots_to (Suc n) c = expand_roots_to n (root_cache_expand c)"

fun refresh_roots :: "nat list \<Rightarrow> chain_state \<Rightarrow> (exact_state_read_error, chain_state) outcome" where
  "refresh_roots [] cs = Some (Inr cs)"
| "refresh_roots (segment_id # ids) cs =
    (if is_evicted (cs_state cs) segment_id then Some (Inl (EvictedSegment (of_nat segment_id)))
     else bind_out (exact_segment_root segment_id (cs_state cs)) (\<lambda>(root, st).
       refresh_roots ids (cs\<lparr> cs_state := st, cs_exact_roots := set_segment_root segment_id root (cs_exact_roots cs) \<rparr>)))"

definition try_state_root_in :: "nat list \<Rightarrow> chain_state \<Rightarrow> (exact_state_read_error, digest \<times> chain_state) outcome" where
  "try_state_root_in ids cs =
    (let target = ss_log_slots (cs_state cs);
         roots = expand_roots_to (target - rc_log_slots (cs_exact_roots cs)) (cs_exact_roots cs);
         roots = (if rc_log_slots roots > target then shrink_to target roots else roots);
         cs = cs\<lparr> cs_exact_roots := roots \<rparr>;
         cached = (\<lambda>id'. cache_get id' (ss_exact_segment_cache (cs_state cs)) \<noteq> None);
         dirty = filter cached ids @ filter (\<lambda>id'. \<not> cached id') ids
     in bind_out (refresh_roots dirty cs) (\<lambda>cs.
          let root = root_cache_root (cs_exact_roots cs)
          in Some (Inr (root, cs\<lparr> cs_state := (cs_state cs)\<lparr> ss_exact_dirty := {} \<rparr>, cs_utxo_root := root \<rparr>))))"

definition try_state_root :: "chain_state \<Rightarrow> (exact_state_read_error, digest \<times> chain_state) outcome" where
  "try_state_root cs = try_state_root_in (sorted_list_of_set (ss_exact_dirty (cs_state cs))) cs"

text \<open>A segment read back from storage is installed only if it has the recorded length,
  live count and exact root.\<close>

definition restore_evicted_segment :: "nat \<Rightarrow> segment_columns \<Rightarrow> chain_state \<Rightarrow> (exact_state_read_error, chain_state) outcome" where
  "restore_evicted_segment segment_id columns cs =
    (let effective_log = ss_effective_log_seg (cs_state cs); expected_len = 2 ^ effective_log;
         mismatch = Some (Inl (SegmentRootMismatch (of_nat segment_id)));
         live_counts = ss_live_counts (cs_state cs); roots = rc_segment_roots (cs_exact_roots cs)
     in if length (col_values columns) \<noteq> expected_len \<or> length (col_owners_hi columns) \<noteq> expected_len \<or>
           length (col_owners_lo columns) \<noteq> expected_len then mismatch
        else
          let actual_live = length (filter (\<lambda>loc. \<not> slot_is_empty (column_slot columns loc)) [0..<expected_len])
          in if (if segment_id < length live_counts then live_counts ! segment_id else 0) \<noteq> actual_live then mismatch
             else
               case from_columns effective_log columns of
                 None \<Rightarrow> None
               | Some tree \<Rightarrow>
                 if (if segment_id < length roots then Some (roots ! segment_id) else None) \<noteq> Some (tree_root tree) then mismatch
                 else
                   map_option (\<lambda>st. Inr (cs\<lparr> cs_state := st \<rparr>))
                     (remember_exact_segment_tree segment_id tree (restore_evicted_columns segment_id columns (cs_state cs))))"

section \<open>Applying a transaction\<close>

datatype apply_error =
    ApSlotOutOfRange
  | ApUnknownOrSpentInput
  | ApOutputSlotNotEmpty
  | ApDuplicateOutputSlot
  | ApInputOutputSlotOverlap
  | ApActiveSlotCountUnderflow
  | ApActiveSlotCountOverflow
  | ApAllocCounterOverflow
  | ApCoinbaseMintHeightMissing
  | ApExactStateUnavailable
  | ApCirculatingSupplyInvariant

fun collect_input_slots :: "(nat \<times> tx_input) list \<Rightarrow> u32 set \<Rightarrow> apply_error + u32 set" where
  "collect_input_slots [] input_slots = Inr input_slots"
| "collect_input_slots ((_, input) # xs) input_slots =
    (if in_slot_index input \<in> input_slots then Inl ApUnknownOrSpentInput
     else collect_input_slots xs (insert (in_slot_index input) input_slots))"

fun check_output_slots :: "(nat \<times> tx_output) list \<Rightarrow> u32 set \<Rightarrow> u32 set \<Rightarrow> apply_error + unit" where
  "check_output_slots [] input_slots seen = Inr ()"
| "check_output_slots ((_, output) # xs) input_slots seen =
    (if out_slot_index output \<in> seen then Inl ApDuplicateOutputSlot
     else if out_slot_index output \<in> input_slots then Inl ApInputOutputSlotOverlap
     else check_output_slots xs input_slots (insert (out_slot_index output) seen))"

fun spend_deltas :: "segmented_state \<Rightarrow> address \<Rightarrow> (nat \<times> tx_input) list \<Rightarrow> apply_error + (u32 \<times> slot_value) list" where
  "spend_deltas st owner [] = Inr []"
| "spend_deltas st owner ((_, input) # xs) =
    (if unat (in_slot_index input) \<ge> num_slots st then Inl ApSlotOutOfRange
     else if is_evicted st (seg_id_of st (in_slot_index input)) then Inl ApExactStateUnavailable
     else if slot_of st (in_slot_index input) \<noteq>
        with_owner_fields (in_amount input) (in_creation_id input) (digest_fields owner)
     then Inl ApUnknownOrSpentInput
     else bind_res (spend_deltas st owner xs) (\<lambda>rest. Inr ((in_slot_index input, EMPTY) # rest)))"

fun mint_deltas :: "segmented_state \<Rightarrow> tx_body \<Rightarrow> u64 option \<Rightarrow> (nat \<times> tx_output) list \<Rightarrow> u64 \<Rightarrow> apply_error + (u32 \<times> slot_value) list" where
  "mint_deltas st body coinbase_mint_height [] alloc_cursor = Inr []"
| "mint_deltas st body coinbase_mint_height ((_, output) # xs) alloc_cursor =
    (if unat (out_slot_index output) \<ge> num_slots st then Inl ApSlotOutOfRange
     else if is_evicted st (seg_id_of st (out_slot_index output)) then Inl ApExactStateUnavailable
     else if slot_of st (out_slot_index output) \<noteq> EMPTY then Inl ApOutputSlotNotEmpty
     else
       bind_res (ok_or ApAllocCounterOverflow (checked_add alloc_cursor 1)) (\<lambda>alloc_cursor.
       bind_res (if is_primary_coinbase_shape body
           then bind_res (ok_or ApCoinbaseMintHeightMissing coinbase_mint_height) (\<lambda>h. Inr (coinbase_creation_id h))
           else Inr alloc_cursor) (\<lambda>creation_id.
       bind_res (mint_deltas st body coinbase_mint_height xs alloc_cursor) (\<lambda>rest.
         Inr ((out_slot_index output,
               with_owner_fields (out_amount output) creation_id (digest_fields (out_owner output))) # rest)))))"

text \<open>The checks and the deltas, counters and supply they yield; then the update, whose
  range check cannot fail after them.\<close>

definition preflight_tx :: "tx_body \<Rightarrow> u64 option \<Rightarrow> chain_state
    \<Rightarrow> apply_error + (u32 \<times> slot_value) list \<times> u64 \<times> u64 \<times> u128" where
  "preflight_tx body coinbase_mint_height cs =
    (if is_coinbase body \<and> coinbase_mint_height = None then Inl ApCoinbaseMintHeightMissing
     else
       bind_res (collect_input_slots (live_inputs body) {}) (\<lambda>input_slots.
       bind_res (check_output_slots (live_outputs body) input_slots {}) (\<lambda>_.
       bind_res (spend_deltas (cs_state cs) (input_owner body) (live_inputs body)) (\<lambda>spends.
       bind_res (ok_or ApActiveSlotCountUnderflow
         (checked_sub (cs_active_slot_count cs) (of_nat (live_input_count body)))) (\<lambda>active_after_spends.
       bind_res (ok_or ApActiveSlotCountOverflow
         (checked_add active_after_spends (of_nat (live_output_count body)))) (\<lambda>active_after.
       bind_res (ok_or ApAllocCounterOverflow
         (checked_add (cs_alloc_counter cs) (of_nat (live_output_count body)))) (\<lambda>final_alloc_counter.
       if is_coinbase_creation_id final_alloc_counter then Inl ApAllocCounterOverflow
       else
         bind_res (mint_deltas (cs_state cs) body coinbase_mint_height (live_outputs body) (cs_alloc_counter cs)) (\<lambda>mints.
         bind_res (ok_or ApCirculatingSupplyInvariant (supply_after_slot_updates (spends @ mints) cs)) (\<lambda>supply.
           Inr (spends @ mints, active_after, final_alloc_counter, supply))))))))))"

definition apply_tx_checked_deferred_root :: "tx_body \<Rightarrow> u64 option \<Rightarrow> chain_state \<Rightarrow> (apply_error, chain_state) outcome" where
  "apply_tx_checked_deferred_root body coinbase_mint_height cs =
    bind_out (Some (preflight_tx body coinbase_mint_height cs)) (\<lambda>(deltas, active_after, final_alloc_counter, supply).
      case apply_delta_unrooted deltas (cs_state cs) of
        Inl _ \<Rightarrow> None
      | Inr state \<Rightarrow> Some (Inr (cs\<lparr> cs_state := state, cs_active_slot_count := active_after,
          cs_alloc_counter := final_alloc_counter, cs_circulating_supply_micronoid := supply \<rparr>)))"

definition apply_tx_inner :: "tx_body \<Rightarrow> u64 option \<Rightarrow> chain_state \<Rightarrow> (apply_error, digest \<times> chain_state) outcome" where
  "apply_tx_inner body block_height cs =
    bind_out (apply_tx_checked_deferred_root body block_height cs) (\<lambda>snapshot.
    bind_out (map_option (map_err (\<lambda>_. ApExactStateUnavailable)) (try_state_root snapshot)) (\<lambda>(root, snapshot).
      Some (Inr (root, snapshot))))"

definition apply_tx :: "tx_body \<Rightarrow> chain_state \<Rightarrow> (apply_error, digest \<times> chain_state) outcome" where
  "apply_tx body cs =
    (if is_coinbase body then Some (Inl ApCoinbaseMintHeightMissing) else apply_tx_inner body None cs)"

definition apply_tx_at :: "tx_body \<Rightarrow> u64 \<Rightarrow> chain_state \<Rightarrow> (apply_error, digest \<times> chain_state) outcome" where
  "apply_tx_at body block_height cs = apply_tx_inner body (Some block_height) cs"

section \<open>The slot map a segmented state represents\<close>

definition seg_slots :: "(nat \<Rightarrow> slot_value) \<Rightarrow> nat \<Rightarrow> nat \<Rightarrow> nat \<Rightarrow> slot_value" where
  "seg_slots F e s k = (if k < 2 ^ e then F (s * 2 ^ e + k) else EMPTY)"

definition live_count :: "(nat \<Rightarrow> slot_value) \<Rightarrow> nat" where
  "live_count g = card {k. g k \<noteq> EMPTY}"

definition cols_hold :: "segment_columns \<Rightarrow> nat \<Rightarrow> (nat \<Rightarrow> slot_value) \<Rightarrow> bool" where
  "cols_hold cols e g \<longleftrightarrow> length (col_values cols) = 2 ^ e \<and> length (col_owners_hi cols) = 2 ^ e \<and>
    length (col_owners_lo cols) = 2 ^ e \<and> (\<forall>k < 2 ^ e. column_slot cols k = g k)"

abbreviation tree_entry :: "segmented_state \<Rightarrow> (nat \<Rightarrow> slot_value) \<Rightarrow> nat \<Rightarrow> exact_segment_tree \<Rightarrow> bool" where
  "tree_entry st F s t \<equiv> s < ss_num_segments st \<and> s \<notin> ss_evicted st \<and> ss_segments st ! s \<noteq> None \<and>
    tree_of t (ss_effective_log_seg st) (seg_slots F (ss_effective_log_seg st) s)"

definition geometry :: "segmented_state \<Rightarrow> bool" where
  "geometry st \<longleftrightarrow> 1 \<le> ss_log_slots st \<and> ss_log_slots st \<le> 32 \<and> ss_effective_log_seg st = min (ss_log_slots st) 16 \<and>
    ss_num_segments st = 2 ^ (ss_log_slots st - ss_effective_log_seg st) \<and>
    length (ss_segments st) = ss_num_segments st \<and> length (ss_live_counts st) = ss_num_segments st \<and>
    ss_evicted st \<subseteq> {..<ss_num_segments st} \<and> ss_exact_dirty st \<subseteq> {..<ss_num_segments st} \<and>
    ss_exact_dirty st \<inter> ss_evicted st = {}"

definition segment_repr :: "segmented_state \<Rightarrow> (nat \<Rightarrow> slot_value) \<Rightarrow> nat \<Rightarrow> bool" where
  "segment_repr st F s \<longleftrightarrow>
    (let g = seg_slots F (ss_effective_log_seg st) s
     in ss_live_counts st ! s = live_count g \<and>
        (if s \<in> ss_evicted st then ss_segments st ! s = None
         else case ss_segments st ! s of
           None \<Rightarrow> g = (\<lambda>_. EMPTY)
         | Some cols \<Rightarrow> cols_hold cols (ss_effective_log_seg st) g))"

definition state_repr :: "segmented_state \<Rightarrow> (nat \<Rightarrow> slot_value) \<Rightarrow> bool" where
  "state_repr st F \<longleftrightarrow> geometry st \<and> (\<forall>k \<ge> 2 ^ ss_log_slots st. F k = EMPTY) \<and>
    (\<forall>s < ss_num_segments st. segment_repr st F s) \<and> entries_ok (tree_entry st F) (ss_exact_segment_cache st)"

lemma slot_value_eqI: "sv_value a = sv_value b \<Longrightarrow> sv_owner_hi a = sv_owner_hi b \<Longrightarrow> sv_owner_lo a = sv_owner_lo b \<Longrightarrow> a = (b :: slot_value)"
  by simp

lemma column_slot_new_zero [simp]: "k < n \<Longrightarrow> column_slot (new_zero n) k = EMPTY"
  by (simp add: column_slot_def new_zero_def EMPTY_def)

lemma column_slot_write:
  "k < n \<Longrightarrow> length (col_values c) = n \<Longrightarrow> length (col_owners_hi c) = n \<Longrightarrow> length (col_owners_lo c) = n \<Longrightarrow>
    column_slot (write_column k v c) j = (if j = k then v else column_slot c j)"
  by (simp add: column_slot_def write_column_def)

lemma seg_slots_upd:
  assumes "k < 2 ^ e"
  shows "seg_slots (F(s * 2 ^ e + k := v)) e s' = (if s' = s then (seg_slots F e s)(k := v) else seg_slots F e s')"
proof
  fix j
  have "s' * 2 ^ e + j = s * 2 ^ e + k \<longleftrightarrow> s' = s \<and> j = k" if "j < 2 ^ e"
  proof
    assume a: "s' * 2 ^ e + j = s * 2 ^ e + k"
    have "(s' * 2 ^ e + j) div 2 ^ e = s'" "(s * 2 ^ e + k) div 2 ^ e = s" using that assms by simp_all
    then show "s' = s \<and> j = k" using a by simp
  qed simp
  then show "seg_slots (F(s * 2 ^ e + k := v)) e s' j = (if s' = s then (seg_slots F e s)(k := v) else seg_slots F e s') j"
    using assms by (auto simp: seg_slots_def)
qed

lemma seg_slots_finite [simp]: "finite {k. seg_slots F e s k \<noteq> EMPTY}"
  by (rule finite_subset[of _ "{..<2 ^ e}"]) (auto simp: seg_slots_def split: if_splits)

lemma live_count_le: "live_count (seg_slots F e s) \<le> 2 ^ e"
proof -
  have "live_count (seg_slots F e s) \<le> card {..<2 ^ e :: nat}"
    unfolding live_count_def by (intro card_mono) (auto simp: seg_slots_def split: if_splits)
  then show ?thesis by simp
qed

lemma live_count_upd:
  assumes "finite {k. g k \<noteq> EMPTY}"
  shows "live_count (g(k := v)) = (if g k = EMPTY then (if v = EMPTY then live_count g else Suc (live_count g))
    else (if v = EMPTY then live_count g - 1 else live_count g))"
proof -
  have "{j. (g(k := v)) j \<noteq> EMPTY} = (if v = EMPTY then {j. g j \<noteq> EMPTY} - {k} else insert k {j. g j \<noteq> EMPTY})" by auto
  then show ?thesis using assms by (auto simp: live_count_def card_insert_if)
qed

lemma live_count_0: "finite {k. g k \<noteq> EMPTY} \<Longrightarrow> live_count g = 0 \<longleftrightarrow> g = (\<lambda>_. EMPTY)"
  by (auto simp: live_count_def)

lemma cols_hold_write:
  "cols_hold c e g \<Longrightarrow> k < 2 ^ e \<Longrightarrow> cols_hold (write_column k v c) e (g(k := v))"
  by (auto simp: cols_hold_def column_slot_write[of k "2 ^ e"]) (simp_all add: write_column_def)

lemma cols_hold_new_zero: "cols_hold (new_zero (2 ^ e)) e (\<lambda>_. EMPTY)"
  by (simp add: cols_hold_def) (simp add: new_zero_def)

lemma index_split: "seg_id_of st idx * 2 ^ ss_effective_log_seg st + local_idx_of st idx = unat idx"
  unfolding seg_id_of_def local_idx_of_def by (rule div_mult_mod_eq)

lemma local_idx_lt: "local_idx_of st idx < 2 ^ ss_effective_log_seg st"
  by (simp add: local_idx_of_def)

lemma seg_id_lt:
  assumes "geometry st" "unat idx < 2 ^ ss_log_slots st"
  shows "seg_id_of st idx < ss_num_segments st"
proof -
  have "2 ^ ss_log_slots st = 2 ^ (ss_log_slots st - ss_effective_log_seg st) * (2 :: nat) ^ ss_effective_log_seg st"
    using assms(1) by (simp add: geometry_def flip: power_add)
  then show ?thesis using assms by (simp add: seg_id_of_def geometry_def less_mult_imp_div_less)
qed

lemma slot_of_repr:
  assumes "state_repr st F" "unat idx < 2 ^ ss_log_slots st" "seg_id_of st idx \<notin> ss_evicted st"
  shows "slot_of st idx = F (unat idx)"
proof -
  let ?s = "seg_id_of st idx" and ?k = "local_idx_of st idx" and ?e = "ss_effective_log_seg st"
  have "segment_repr st F ?s" using assms seg_id_lt by (auto simp: state_repr_def)
  moreover have "F (unat idx) = seg_slots F ?e ?s ?k"
    using index_split[of st idx] local_idx_lt[of st idx] by (simp add: seg_slots_def)
  ultimately show ?thesis
    using assms(3) local_idx_lt[of st idx] by (auto simp: slot_of_def segment_repr_def cols_hold_def Let_def split: option.splits)
qed

text \<open>The state after a write that changes a slot.\<close>

lemma write_slot_change:
  assumes "slot_of st idx \<noteq> v" "\<not> (ss_segments st ! seg_id_of st idx = None \<and> slot_is_empty v)"
    and "s = seg_id_of st idx" "k = local_idx_of st idx" "s < length (ss_segments st)" "s \<notin> ss_evicted st"
    and "cols = (case ss_segments st ! s of None \<Rightarrow> new_zero (2 ^ ss_effective_log_seg st) | Some c \<Rightarrow> c)"
    and "live = (if slot_of st idx = EMPTY then if v = EMPTY then ss_live_counts st ! s else Suc (ss_live_counts st ! s)
      else if v = EMPTY then ss_live_counts st ! s - 1 else ss_live_counts st ! s)" "live < 2 ^ 32"
  shows "write_slot (idx, v) st = st\<lparr>
    ss_segments := (ss_segments st)[s := (if live = 0 then None else Some (write_column k v cols))],
    ss_live_counts := (ss_live_counts st)[s := live],
    ss_exact_segment_cache := (if live = 0 then cache_remove s (ss_exact_segment_cache st)
      else cache_update_slot s k v (ss_exact_segment_cache st)),
    ss_mdbx_dirty := insert s (ss_mdbx_dirty st), ss_exact_dirty := insert s (ss_exact_dirty st) \<rparr>"
proof -
  have ev: "ss_evicted st - {s} = ss_evicted st" using assms(6) by simp
  have live: "next_live (slot_is_empty (slot_of st idx)) (slot_is_empty v) (ss_live_counts st ! s) = live"
    using assms(8,9) by (auto simp: slot_is_empty_def next_live_def)
  show ?thesis
    unfolding write_slot_def prod.case Let_def assms(3,4)[symmetric] live assms(7)[symmetric] ev
    using assms(1,2)[folded assms(3)] by (simp only: if_False if_cancel simp_thms) simp
qed

lemma geometry_eff: "geometry st \<Longrightarrow> ss_effective_log_seg st \<le> 16"
  by (simp add: geometry_def)

lemma repr_cache_irrelevant [simp]:
  "geometry (st\<lparr> ss_exact_segment_cache := c \<rparr>) = geometry st"
  "segment_repr (st\<lparr> ss_exact_segment_cache := c \<rparr>) F s = segment_repr st F s"
  "segment_repr (st\<lparr> ss_exact_dirty := D \<rparr>) F s = segment_repr st F s"
  by (simp_all add: geometry_def segment_repr_def cong: option.case_cong)

lemma geometry_clean [simp]: "geometry st \<Longrightarrow> geometry (st\<lparr> ss_exact_dirty := {} \<rparr>)"
  by (auto simp: geometry_def)

lemma live_lt_u32: "geometry st \<Longrightarrow> live_count (seg_slots F (ss_effective_log_seg st) s) < 2 ^ 32"
  using live_count_le[of F "ss_effective_log_seg st" s] geometry_eff[of st]
    power_increasing[of "ss_effective_log_seg st" 16 "2 :: nat"] by simp

lemma write_slot_repr:
  assumes R: "state_repr st F" and idx: "unat idx < 2 ^ ss_log_slots st" "seg_id_of st idx \<notin> ss_evicted st"
  shows "state_repr (write_slot (idx, v) st) (F(unat idx := v)) \<and>
    ss_log_slots (write_slot (idx, v) st) = ss_log_slots st \<and>
    ss_effective_log_seg (write_slot (idx, v) st) = ss_effective_log_seg st \<and>
    ss_num_segments (write_slot (idx, v) st) = ss_num_segments st \<and>
    ss_evicted (write_slot (idx, v) st) = ss_evicted st \<and>
    ss_exact_dirty st \<subseteq> ss_exact_dirty (write_slot (idx, v) st) \<and>
    (\<forall>s. s \<notin> ss_exact_dirty (write_slot (idx, v) st) \<longrightarrow>
      seg_slots (F(unat idx := v)) (ss_effective_log_seg st) s = seg_slots F (ss_effective_log_seg st) s)"
proof -
  let ?e = "ss_effective_log_seg st" and ?F = "F(unat idx := v)" and ?st = "write_slot (idx, v) st"
  define s k where "s = seg_id_of st idx" and "k = local_idx_of st idx"
  define g where "g = seg_slots F ?e s"
  have geo: "geometry st" and seg: "\<And>j. j < ss_num_segments st \<Longrightarrow> segment_repr st F j"
    and top: "\<forall>k \<ge> 2 ^ ss_log_slots st. F k = EMPTY" and ent: "entries_ok (tree_entry st F) (ss_exact_segment_cache st)"
    using R by (auto simp: state_repr_def)
  have s: "s < ss_num_segments st" "s \<notin> ss_evicted st" using seg_id_lt[OF geo idx(1)] idx(2) by (simp_all add: s_def)
  have len: "length (ss_segments st) = ss_num_segments st" "length (ss_live_counts st) = ss_num_segments st"
    using geo by (simp_all add: geometry_def)
  have k: "k < 2 ^ ?e" and n: "unat idx = s * 2 ^ ?e + k"
    using local_idx_lt[of st idx] index_split[of st idx] by (simp_all add: s_def k_def)
  have slots: "seg_slots ?F ?e j = (if j = s then g(k := v) else seg_slots F ?e j)" for j
    using seg_slots_upd[OF k] n by (simp add: g_def)
  have old: "slot_of st idx = g k"
    using slot_of_repr[OF R idx] n k by (simp add: g_def seg_slots_def)
  show ?thesis
  proof (cases "slot_of st idx = v \<or> (ss_segments st ! s = None \<and> slot_is_empty v)")
    case True
    then have "?st = st" by (auto simp: write_slot_def Let_def s_def)
    moreover have "g k = v"
    proof (cases "slot_of st idx = v")
      case False
      then have "ss_segments st ! s = None" "v = EMPTY" using True by (auto simp: slot_is_empty_def)
      then show ?thesis using seg[OF s(1)] s(2) by (simp add: segment_repr_def Let_def flip: g_def)
    qed (simp add: old)
    then have "?F = F" using n k by (auto simp: g_def seg_slots_def)
    ultimately show ?thesis using R by simp
  next
    case False
    define cols where "cols = (case ss_segments st ! s of None \<Rightarrow> new_zero (2 ^ ?e) | Some c \<Rightarrow> c)"
    define live where "live = live_count (g(k := v))"
    have fin: "finite {k. g k \<noteq> EMPTY}" by (simp add: g_def)
    have live_eq: "live = (if slot_of st idx = EMPTY then if v = EMPTY then ss_live_counts st ! s else Suc (ss_live_counts st ! s)
      else if v = EMPTY then ss_live_counts st ! s - 1 else ss_live_counts st ! s)"
      using live_count_upd[OF fin, of k v] seg[OF s(1)] old by (simp add: live_def segment_repr_def Let_def flip: g_def)
    have "live < 2 ^ 32" using live_lt_u32[OF geo, of ?F s] slots[of s] by (simp add: live_def)
    then have st': "?st = st\<lparr>
      ss_segments := (ss_segments st)[s := (if live = 0 then None else Some (write_column k v cols))],
      ss_live_counts := (ss_live_counts st)[s := live],
      ss_exact_segment_cache := (if live = 0 then cache_remove s (ss_exact_segment_cache st)
        else cache_update_slot s k v (ss_exact_segment_cache st)),
      ss_mdbx_dirty := insert s (ss_mdbx_dirty st), ss_exact_dirty := insert s (ss_exact_dirty st) \<rparr>"
      using False s len live_eq by (intro write_slot_change) (auto simp: s_def k_def cols_def)
    have hold: "cols_hold (write_column k v cols) ?e (g(k := v))"
    proof (cases "ss_segments st ! s")
      case None
      then have "g = (\<lambda>_. EMPTY)" using seg[OF s(1)] s(2) by (simp add: segment_repr_def Let_def flip: g_def)
      then show ?thesis using cols_hold_write[OF cols_hold_new_zero k] None by (simp add: cols_def)
    next
      case (Some c)
      then have "cols_hold c ?e g" using seg[OF s(1)] s(2) by (simp add: segment_repr_def Let_def flip: g_def)
      then show ?thesis using cols_hold_write k Some by (simp add: cols_def)
    qed
    have zero: "live = 0 \<Longrightarrow> g(k := v) = (\<lambda>_. EMPTY)"
      using live_count_0[of "g(k := v)"] seg_slots_finite[of ?F ?e s] slots[of s] by (simp add: live_def)
    have geo': "geometry ?st" using geo s by (auto simp: st' geometry_def)
    have segs: "segment_repr ?st ?F j" if "j < ss_num_segments st" for j
    proof (cases "j = s")
      case True
      then show ?thesis using s len hold zero slots[of s] by (auto simp: st' segment_repr_def Let_def live_def)
    next
      case False
      then show ?thesis using seg[OF that] slots[of j] by (simp add: st' segment_repr_def Let_def cong: option.case_cong)
    qed
    have "entries_ok (tree_entry ?st ?F) (ss_exact_segment_cache ?st)"
    proof (cases "live = 0")
      case True
      have "entries_ok (\<lambda>j t. tree_entry st F j t \<and> j \<noteq> s) (cache_remove s (ss_exact_segment_cache st))"
        by (rule cache_remove_ok[OF ent])
      then have "entries_ok (tree_entry ?st ?F) (cache_remove s (ss_exact_segment_cache st))"
        by (rule entries_ok_mono) (simp add: st' slots)
      then show ?thesis using True by (simp add: st')
    next
      case False
      have "entries_ok (tree_entry ?st ?F) (cache_update_slot s k v (ss_exact_segment_cache st))"
        by (rule cache_update_slot_ok[OF ent])
          (use False len s tree_set_slot_ok[of _ ?e g k v, OF _ k] in \<open>simp_all add: st' slots flip: g_def\<close>)
      then show ?thesis using False by (simp add: st')
    qed
    moreover have "\<forall>k \<ge> 2 ^ ss_log_slots st. ?F k = EMPTY" using top idx(1) by auto
    ultimately have "state_repr ?st ?F" using geo' segs by (simp add: state_repr_def st')
    then show ?thesis by (simp add: st' slots subset_insertI)
  qed
qed

text \<open>A list of writes, later ones overriding earlier ones.\<close>

abbreviation write_map :: "(u32 \<times> slot_value) list \<Rightarrow> (nat \<Rightarrow> slot_value) \<Rightarrow> nat \<Rightarrow> slot_value" where
  "write_map ws \<equiv> fold (\<lambda>(i, v) f. f(unat i := v)) ws"

lemma fold_write_slot_repr:
  assumes "state_repr st F" "\<forall>(i, v) \<in> set ws. unat i < 2 ^ ss_log_slots st \<and> seg_id_of st i \<notin> ss_evicted st"
  shows "state_repr (fold write_slot ws st) (write_map ws F) \<and>
    ss_log_slots (fold write_slot ws st) = ss_log_slots st \<and>
    ss_effective_log_seg (fold write_slot ws st) = ss_effective_log_seg st \<and>
    ss_num_segments (fold write_slot ws st) = ss_num_segments st \<and>
    ss_evicted (fold write_slot ws st) = ss_evicted st \<and>
    ss_exact_dirty st \<subseteq> ss_exact_dirty (fold write_slot ws st) \<and>
    (\<forall>s. s \<notin> ss_exact_dirty (fold write_slot ws st) \<longrightarrow>
      seg_slots (write_map ws F) (ss_effective_log_seg st) s = seg_slots F (ss_effective_log_seg st) s)"
  using assms
proof (induction ws arbitrary: st F)
  case (Cons w ws)
  obtain i v where w: "w = (i, v)" by (cases w)
  let ?st = "write_slot (i, v) st" and ?F = "F(unat i := v)"
  have i: "unat i < 2 ^ ss_log_slots st" "seg_id_of st i \<notin> ss_evicted st" using Cons.prems(2) w by auto
  note W = write_slot_repr[OF Cons.prems(1) i, of v]
  have "\<forall>(j, u) \<in> set ws. unat j < 2 ^ ss_log_slots ?st \<and> seg_id_of ?st j \<notin> ss_evicted ?st"
    using Cons.prems(2) W by (auto simp: seg_id_of_def)
  then show ?case using Cons.IH[of ?st ?F] W w by (simp del: fun_upd_apply) blast
qed simp

section \<open>Sealing the root\<close>

abbreviation leaves_of :: "(nat \<Rightarrow> slot_value) \<Rightarrow> nat \<Rightarrow> digest" where
  "leaves_of F \<equiv> (\<lambda>k. slot_leaf_hash (F k))"

lemma node_of_seg_slots: "node_of (leaves_of (seg_slots F e s)) e 0 = node_of (leaves_of F) e s"
proof -
  have "node_of (leaves_of (seg_slots F e s)) e 0 = node_of (\<lambda>k. leaves_of F (s * 2 ^ e + k)) e 0"
    by (rule node_of_cong) (simp add: seg_slots_def)
  then show ?thesis using node_of_shift[of "leaves_of F" s e 0] by simp
qed

lemma tree_of_root: "tree_of t e (seg_slots F e s) \<Longrightarrow> tree_root t = node_of (leaves_of F) e s"
  by (simp add: tree_root_ok node_of_seg_slots)

lemma tree_of_cong: "(\<And>k. k < 2 ^ L \<Longrightarrow> g k = h k) \<Longrightarrow> tree_of t L g \<longleftrightarrow> tree_of t L h"
  by (auto simp: tree_of_def array_tree_def)

lemma exact_segment_root_repr:
  assumes R: "state_repr st F" and s: "s < ss_num_segments st" "s \<notin> ss_evicted st"
  shows "\<exists>c. exact_segment_root s st =
      Some (Inr (node_of (leaves_of F) (ss_effective_log_seg st) s, st\<lparr> ss_exact_segment_cache := c \<rparr>)) \<and>
    state_repr (st\<lparr> ss_exact_segment_cache := c \<rparr>) F"
proof -
  let ?e = "ss_effective_log_seg st"
  have ent: "entries_ok (tree_entry st F) (ss_exact_segment_cache st)" and seg: "segment_repr st F s"
    using R s by (auto simp: state_repr_def)
  show ?thesis
  proof (cases "cache_get s (ss_exact_segment_cache st)")
    case (Some t)
    then have "tree_entry st F s t" by (rule cache_get_ok[OF ent])
    then have "tree_root t = node_of (leaves_of F) ?e s" by (simp add: tree_of_root)
    then have "exact_segment_root s st = Some (Inr (node_of (leaves_of F) ?e s, st))"
      using Some s(2) by (simp add: exact_segment_root_def is_evicted_def)
    then show ?thesis using R by (intro exI[of _ "ss_exact_segment_cache st"]) simp
  next
    case None
    show ?thesis
    proof (cases "ss_segments st ! s")
      case no: None
      then have "seg_slots F ?e s = (\<lambda>_. EMPTY)" using seg s(2) by (simp add: segment_repr_def Let_def)
      then have "zero_slot_roots ?e ! ?e = node_of (leaves_of F) ?e s"
        using node_of_seg_slots[of F ?e s] zero_slot_roots_nth[of ?e ?e 0] by simp
      then have "exact_segment_root s st = Some (Inr (node_of (leaves_of F) ?e s, st))"
        using None no s(2) by (simp add: exact_segment_root_def is_evicted_def)
      then show ?thesis using R by (intro exI[of _ "ss_exact_segment_cache st"]) simp
    next
      case (Some cols)
      then have h: "cols_hold cols ?e (seg_slots F ?e s)" using seg s(2) by (simp add: segment_repr_def Let_def)
      then obtain t where t: "from_columns ?e cols = Some t" "tree_of t ?e (column_slot cols)"
        using from_columns_ok[of cols ?e] by (auto simp: cols_hold_def)
      then have tr: "tree_of t ?e (seg_slots F ?e s)"
        using tree_of_cong[of ?e "column_slot cols" "seg_slots F ?e s" t] h by (simp add: cols_hold_def)
      then have "tree_entry st F s t" using s Some by simp
      then obtain c where c: "cache_insert s t (ss_exact_segment_cache st) = Some c" "entries_ok (tree_entry st F) c"
        using cache_insert_ok[OF ent] by blast
      have "state_repr (st\<lparr> ss_exact_segment_cache := c \<rparr>) F"
        using R c(2) by (simp add: state_repr_def)
      moreover have "exact_segment_root s st = Some (Inr (node_of (leaves_of F) ?e s,
          if ss_live_counts st ! s = 0 then st else st\<lparr> ss_exact_segment_cache := c \<rparr>))"
        using None Some s(2) t(1) c(1) tree_of_root[OF tr]
        by (simp add: exact_segment_root_def is_evicted_def remember_exact_segment_tree_def)
      ultimately show ?thesis
        using R by (intro exI[of _ "if ss_live_counts st ! s = 0 then ss_exact_segment_cache st else c"]) simp
    qed
  qed
qed

definition roots_current :: "chain_state \<Rightarrow> (nat \<Rightarrow> slot_value) \<Rightarrow> nat set \<Rightarrow> bool" where
  "roots_current cs F D \<longleftrightarrow> rc_wf (cs_exact_roots cs) \<and> rc_log_slots (cs_exact_roots cs) = ss_log_slots (cs_state cs) \<and>
    (\<forall>s < ss_num_segments (cs_state cs). s \<notin> D \<longrightarrow>
      rc_segment_roots (cs_exact_roots cs) ! s = node_of (leaves_of F) (ss_effective_log_seg (cs_state cs)) s)"

lemma roots_current_geometry:
  "geometry (cs_state cs) \<Longrightarrow> roots_current cs F D \<Longrightarrow>
    rc_effective_log_seg (cs_exact_roots cs) = ss_effective_log_seg (cs_state cs) \<and>
    length (rc_segment_roots (cs_exact_roots cs)) = ss_num_segments (cs_state cs)"
  by (simp add: roots_current_def rc_wf_def geometry_def)

lemma refresh_roots_repr:
  assumes "state_repr (cs_state cs) F" "roots_current cs F D"
    "set ids \<subseteq> {..<ss_num_segments (cs_state cs)} - ss_evicted (cs_state cs)"
  shows "\<exists>c roots. refresh_roots ids cs =
      Some (Inr (cs\<lparr> cs_state := (cs_state cs)\<lparr> ss_exact_segment_cache := c \<rparr>, cs_exact_roots := roots \<rparr>)) \<and>
    state_repr ((cs_state cs)\<lparr> ss_exact_segment_cache := c \<rparr>) F \<and>
    roots_current (cs\<lparr> cs_state := (cs_state cs)\<lparr> ss_exact_segment_cache := c \<rparr>, cs_exact_roots := roots \<rparr>) F (D - set ids)"
  using assms
proof (induction ids arbitrary: cs D)
  case Nil
  then show ?case
    by (intro exI[of _ "ss_exact_segment_cache (cs_state cs)"] exI[of _ "cs_exact_roots cs"]) simp
next
  case (Cons s ids)
  let ?st = "cs_state cs"
  have s: "s < ss_num_segments ?st" "s \<notin> ss_evicted ?st" using Cons.prems(3) by auto
  have geo: "geometry ?st" using Cons.prems(1) by (simp add: state_repr_def)
  obtain c where c: "exact_segment_root s ?st = Some (Inr (node_of (leaves_of F) (ss_effective_log_seg ?st) s, ?st\<lparr> ss_exact_segment_cache := c \<rparr>))"
    "state_repr (?st\<lparr> ss_exact_segment_cache := c \<rparr>) F"
    using exact_segment_root_repr[OF Cons.prems(1) s] by blast
  define r where "r = node_of (leaves_of F) (ss_effective_log_seg ?st) s"
  define cs1 where "cs1 = cs\<lparr> cs_state := ?st\<lparr> ss_exact_segment_cache := c \<rparr>, cs_exact_roots := set_segment_root s r (cs_exact_roots cs) \<rparr>"
  have "s < length (rc_segment_roots (cs_exact_roots cs))" using roots_current_geometry[OF geo Cons.prems(2)] s(1) by simp
  then have "roots_current cs1 F (D - {s})"
    using Cons.prems(2) set_segment_root_ok[of "cs_exact_roots cs" s r]
    by (auto simp: roots_current_def cs1_def r_def nth_list_update)
  then obtain c2 roots where IH: "refresh_roots ids cs1 =
      Some (Inr (cs1\<lparr> cs_state := (cs_state cs1)\<lparr> ss_exact_segment_cache := c2 \<rparr>, cs_exact_roots := roots \<rparr>))"
    "state_repr ((cs_state cs1)\<lparr> ss_exact_segment_cache := c2 \<rparr>) F"
    "roots_current (cs1\<lparr> cs_state := (cs_state cs1)\<lparr> ss_exact_segment_cache := c2 \<rparr>, cs_exact_roots := roots \<rparr>) F (D - {s} - set ids)"
    using Cons.IH[of cs1 "D - {s}"] c(2) Cons.prems(3) by (auto simp: cs1_def)
  have "refresh_roots (s # ids) cs = refresh_roots ids cs1"
    using c(1) s(2) by (simp add: is_evicted_def cs1_def r_def)
  moreover have "D - {s} - set ids = D - set (s # ids)" by auto
  ultimately show ?case using IH by (auto simp: cs1_def)
qed

lemma try_state_root_in_repr:
  assumes "state_repr (cs_state cs) F" "roots_current cs F (set ids)"
    "set ids \<subseteq> {..<ss_num_segments (cs_state cs)} - ss_evicted (cs_state cs)"
  shows "\<exists>c roots. try_state_root_in ids cs = Some (Inr (node_of (leaves_of F) (ss_log_slots (cs_state cs)) 0,
      cs\<lparr> cs_state := (cs_state cs)\<lparr> ss_exact_segment_cache := c, ss_exact_dirty := {} \<rparr>, cs_exact_roots := roots,
          cs_utxo_root := node_of (leaves_of F) (ss_log_slots (cs_state cs)) 0 \<rparr>)) \<and>
    state_repr ((cs_state cs)\<lparr> ss_exact_segment_cache := c, ss_exact_dirty := {} \<rparr>) F \<and>
    roots_current (cs\<lparr> cs_state := (cs_state cs)\<lparr> ss_exact_segment_cache := c, ss_exact_dirty := {} \<rparr>, cs_exact_roots := roots \<rparr>) F {}"
proof -
  let ?cached = "\<lambda>id'. cache_get id' (ss_exact_segment_cache (cs_state cs)) \<noteq> None"
  define dirty where "dirty = filter ?cached ids @ filter (\<lambda>id'. \<not> ?cached id') ids"
  have dirty: "set dirty = set ids" by (auto simp: dirty_def)
  obtain c roots where r: "refresh_roots dirty cs =
      Some (Inr (cs\<lparr> cs_state := (cs_state cs)\<lparr> ss_exact_segment_cache := c \<rparr>, cs_exact_roots := roots \<rparr>))"
    "state_repr ((cs_state cs)\<lparr> ss_exact_segment_cache := c \<rparr>) F"
    "roots_current (cs\<lparr> cs_state := (cs_state cs)\<lparr> ss_exact_segment_cache := c \<rparr>, cs_exact_roots := roots \<rparr>) F {}"
    using refresh_roots_repr[OF assms(1,2), of dirty] assms(3) dirty by auto
  have geo: "geometry ((cs_state cs)\<lparr> ss_exact_segment_cache := c \<rparr>)" using r(2) by (simp add: state_repr_def)
  have root: "root_cache_root roots = node_of (leaves_of F) (ss_log_slots (cs_state cs)) 0"
    using rc_root_eq[of roots "leaves_of F"] r(3) roots_current_geometry[OF _ r(3)] geo by (simp add: roots_current_def)
  have "rc_log_slots (cs_exact_roots cs) = ss_log_slots (cs_state cs)" using assms(2) by (simp add: roots_current_def)
  then have "try_state_root_in ids cs = Some (Inr (root_cache_root roots,
      cs\<lparr> cs_state := (cs_state cs)\<lparr> ss_exact_segment_cache := c, ss_exact_dirty := {} \<rparr>, cs_exact_roots := roots,
          cs_utxo_root := root_cache_root roots \<rparr>))"
    using r(1)[unfolded dirty_def] by (simp add: try_state_root_in_def Let_def)
  moreover have "state_repr ((cs_state cs)\<lparr> ss_exact_segment_cache := c, ss_exact_dirty := {} \<rparr>) F"
    using r(2) by (simp add: state_repr_def)
  ultimately show ?thesis using r(3) root by (auto simp: roots_current_def)
qed

end
