(* ===== verification/Ledger.thy ===== *)
theory Ledger
  imports ChainState
begin

text \<open>
  The abstract ledger and the refinement of the state engine to it.  A ledger is a
  plain map from slots to values with its two counters; the engine's columns,
  residency marks, segment trees, cached roots and running supply are all functions
  of it (\<open>chain_repr\<close>).  A transaction is accepted by the engine exactly when the
  ledger allows it, the engine then represents the updated ledger and returns the
  root of the dense tree over it.  The circulating supply is the sum of the amounts
  in the map, a spend lowers it by its fee and a mint raises it by its outputs.
\<close>

section \<open>The ledger\<close>

record utxo =
  u_log :: nat
  u_slots :: "nat \<Rightarrow> slot_value"
  u_active :: nat
  u_alloc :: nat

definition slot_total :: "nat \<Rightarrow> (nat \<Rightarrow> slot_value) \<Rightarrow> nat" where
  "slot_total L F = (\<Sum>k < 2 ^ L. unat (slot_amount (F k)))"

abbreviation utxo_root :: "utxo \<Rightarrow> digest" where
  "utxo_root u \<equiv> node_of (leaves_of (u_slots u)) (u_log u) 0"

definition chain_repr :: "chain_state \<Rightarrow> utxo \<Rightarrow> bool" where
  "chain_repr cs u \<longleftrightarrow> state_repr (cs_state cs) (u_slots u) \<and> ss_log_slots (cs_state cs) = u_log u \<and>
    roots_current cs (u_slots u) (ss_exact_dirty (cs_state cs)) \<and>
    (ss_exact_dirty (cs_state cs) = {} \<longrightarrow> cs_utxo_root cs = utxo_root u) \<and>
    unat (cs_active_slot_count cs) = u_active u \<and> unat (cs_alloc_counter cs) = u_alloc u \<and>
    unat (cs_circulating_supply_micronoid cs) = slot_total (u_log u) (u_slots u)"

text \<open>The value an input claims, and the values a transaction creates: the allocator
  hands out the next ids, the primary coinbase carries the tagged height.\<close>

abbreviation claimed :: "tx_body \<Rightarrow> tx_input \<Rightarrow> slot_value" where
  "claimed body i \<equiv> with_owner_fields (in_amount i) (in_creation_id i) (digest_fields (input_owner body))"

fun minted :: "tx_body \<Rightarrow> u64 option \<Rightarrow> nat \<Rightarrow> (nat \<times> tx_output) list \<Rightarrow> (u32 \<times> slot_value) list" where
  "minted body h a [] = []"
| "minted body h a ((_, out) # xs) =
    (out_slot_index out, with_owner_fields (out_amount out)
      (if is_primary_coinbase_shape body then coinbase_creation_id (the h) else of_nat (Suc a))
      (digest_fields (out_owner out))) # minted body h (Suc a) xs"

definition utxo_deltas :: "utxo \<Rightarrow> tx_body \<Rightarrow> u64 option \<Rightarrow> (u32 \<times> slot_value) list" where
  "utxo_deltas u body h =
    map (\<lambda>(_, i). (in_slot_index i, EMPTY)) (live_inputs body) @ minted body h (u_alloc u) (live_outputs body)"

definition utxo_accepts :: "utxo \<Rightarrow> tx_body \<Rightarrow> u64 option \<Rightarrow> bool" where
  "utxo_accepts u body h \<longleftrightarrow>
    (is_coinbase body \<longrightarrow> h \<noteq> None) \<and>
    distinct (live_input_slots body @ live_output_slots body) \<and>
    (\<forall>(_, i) \<in> set (live_inputs body). unat (in_slot_index i) < 2 ^ u_log u \<and> u_slots u (unat (in_slot_index i)) = claimed body i) \<and>
    (\<forall>(_, out) \<in> set (live_outputs body). unat (out_slot_index out) < 2 ^ u_log u \<and> u_slots u (unat (out_slot_index out)) = EMPTY) \<and>
    length (live_inputs body) \<le> u_active u \<and>
    u_active u - length (live_inputs body) + length (live_outputs body) < 2 ^ 64 \<and>
    u_alloc u + length (live_outputs body) < 2 ^ 63"

definition utxo_after :: "utxo \<Rightarrow> tx_body \<Rightarrow> u64 option \<Rightarrow> utxo" where
  "utxo_after u body h =
    \<lparr> u_log = u_log u, u_slots = write_map (utxo_deltas u body h) (u_slots u),
      u_active = u_active u - length (live_inputs body) + length (live_outputs body),
      u_alloc = u_alloc u + length (live_outputs body) \<rparr>"

section \<open>Sums over the slots\<close>

lemma slot_total_upd:
  assumes "k < 2 ^ L"
  shows "slot_total L (F(k := v)) + unat (slot_amount (F k)) = slot_total L F + unat (slot_amount v)"
proof -
  have "slot_total L G = unat (slot_amount (G k)) + (\<Sum>j \<in> {..<2 ^ L} - {k}. unat (slot_amount (G j)))" for G
    unfolding slot_total_def using assms by (intro sum.remove) auto
  moreover have "(\<Sum>j \<in> {..<2 ^ L} - {k}. unat (slot_amount ((F(k := v)) j))) = (\<Sum>j \<in> {..<2 ^ L} - {k}. unat (slot_amount (F j)))"
    by (rule sum.cong) auto
  ultimately show ?thesis by simp
qed

lemma slot_total_bound: "L \<le> 32 \<Longrightarrow> slot_total L F < 2 ^ 96"
proof -
  assume "L \<le> 32"
  have "slot_total L F \<le> (\<Sum>k < (2 :: nat) ^ L. 2 ^ 64 - 1)"
    unfolding slot_total_def by (rule sum_mono) (rule u64_le)
  also have "\<dots> = 2 ^ L * (2 ^ 64 - 1)" by simp
  also have "\<dots> \<le> 2 ^ 32 * (2 ^ 64 - 1)" using \<open>L \<le> 32\<close> by (intro mult_le_mono1 power_increasing) simp_all
  also have "\<dots> < (2 :: nat) ^ 96" by simp
  finally show ?thesis .
qed

lemma slot_total_write_map:
  assumes "distinct (map fst ws)" "\<forall>(i, v) \<in> set ws. unat i < 2 ^ L"
  shows "slot_total L (write_map ws F) + sum_list (map (\<lambda>(i, v). unat (slot_amount (F (unat i)))) ws) =
    slot_total L F + sum_list (map (\<lambda>(i, v). unat (slot_amount v)) ws)"
  using assms
proof (induction ws arbitrary: F)
  case (Cons w ws)
  obtain i v where w: "w = (i, v)" by (cases w)
  have old: "map (\<lambda>(j, x). unat (slot_amount ((F(unat i := v)) (unat j)))) ws = map (\<lambda>(j, x). unat (slot_amount (F (unat j)))) ws"
    using Cons.prems(1) w by (auto simp: rev_image_eqI simp flip: word_unat_eq_iff)
  have "unat i < 2 ^ L" using Cons.prems(2) w by simp
  from slot_total_upd[OF this, of F v] Cons.IH[of "F(unat i := v)"] Cons.prems
  show ?case unfolding old by (simp add: w del: fun_upd_apply)
qed simp

section \<open>The supply of a batch of updates\<close>

abbreviation upd_map :: "(nat \<times> slot_value) list \<Rightarrow> (nat \<Rightarrow> slot_value) \<Rightarrow> nat \<Rightarrow> slot_value" where
  "upd_map us \<equiv> fold (\<lambda>(k, v) f. f(k := v)) us"

lemma upd_map_notin: "k \<notin> fst ` set us \<Longrightarrow> upd_map us (F(k := v)) = (upd_map us F)(k := v)"
  by (induction us arbitrary: F) (auto simp: fun_upd_twist simp del: fun_upd_apply)

lemma bt_insert_keys: "fst ` set (bt_insert k v m) = insert k (fst ` set m)"
  by (induction k v m rule: bt_insert.induct) auto

lemma bt_insert_ascending: "ascending (map fst m) \<Longrightarrow> ascending (map fst (bt_insert k v m))"
proof (induction k v m rule: bt_insert.induct)
  case (2 k v k' v' m)
  have "\<forall>x \<in> fst ` set (bt_insert k v m). k' < x" if "k' < k"
    using 2(2) that by (auto simp: bt_insert_keys)
  then show ?case using 2 by (auto simp: image_iff)
qed simp

lemma bt_insert_upd_map: "ascending (map fst m) \<Longrightarrow> upd_map (bt_insert k v m) F = (upd_map m F)(k := v)"
proof (induction k v m arbitrary: F rule: bt_insert.induct)
  case (2 k v k' v' m)
  have out: "k \<notin> fst ` set ((k', v') # m)" if "k < k'" using 2(2) that by force
  have tail: "k' \<notin> fst ` set m" using 2(2) by force
  consider "k = k'" | "k < k'" | "k' < k" by linarith
  then show ?case
  proof cases
    case 1
    then show ?thesis using tail by (simp add: upd_map_notin fun_upd_upd del: fun_upd_apply)
  next
    case 2
    then show ?thesis using upd_map_notin[OF out[OF 2], of F v] by (simp del: fun_upd_apply)
  next
    case 3
    then show ?thesis using 2(1)[of "F(k' := v')"] 2(2) by (simp del: fun_upd_apply)
  qed
qed simp

lemma canonical_updates_ok:
  "ascending (map fst (canonical_updates ws)) \<and> fst ` set (canonical_updates ws) = unat ` fst ` set ws \<and>
    upd_map (canonical_updates ws) F = write_map ws F"
proof -
  have "ascending (map fst (fold (\<lambda>(i, v). bt_insert (unat i) v) ws m)) \<and>
      fst ` set (fold (\<lambda>(i, v). bt_insert (unat i) v) ws m) = fst ` set m \<union> unat ` fst ` set ws \<and>
      upd_map (fold (\<lambda>(i, v). bt_insert (unat i) v) ws m) F = write_map ws (upd_map m F)"
    if "ascending (map fst m)" for m
    using that
  proof (induction ws arbitrary: m)
    case (Cons w ws)
    obtain i v where w: "w = (i, v)" by (cases w)
    show ?case
      using Cons.IH[of "bt_insert (unat i) v m"] bt_insert_ascending[OF Cons.prems] bt_insert_upd_map[OF Cons.prems]
      by (simp add: w bt_insert_keys del: fun_upd_apply)
  qed simp
  from this[of "[]"] show ?thesis by (simp add: canonical_updates_def)
qed

text \<open>The loop reads old amounts from the state before the batch; slots beyond the state are empty.\<close>

lemma supply_loop_ok:
  assumes R: "state_repr st F0" and L: "ss_log_slots st \<le> L" "L \<le> 32"
    and "distinct (map fst us)"
    "\<forall>(k, v) \<in> set us. k < 2 ^ L \<and> (k < 2 ^ ss_log_slots st \<longrightarrow> seg_id_of st (of_nat k) \<notin> ss_evicted st) \<and> F k = F0 k"
    "unat s = slot_total L F"
  shows "\<exists>s'. supply_loop st us s = Some s' \<and> unat s' = slot_total L (upd_map us F)"
  using assms(4-)
proof (induction us arbitrary: F s)
  case (Cons w us)
  obtain k v where w: "w = (k, v)" by (cases w)
  have k: "k < 2 ^ L" "k < 2 ^ ss_log_slots st \<longrightarrow> seg_id_of st (of_nat k) \<notin> ss_evicted st" "F k = F0 k" using Cons.prems(2) w by auto
  have "k < 2 ^ 32" using k(1) L(2) power_increasing[of L 32 "2 :: nat"] by linarith
  then have uk: "unat (of_nat k :: u32) = k" by (intro unat_of_nat_lt) simp
  then have slot: "(if k < 2 ^ ss_log_slots st then slot_of st (of_nat k) else EMPTY) = F k"
    using slot_of_repr[OF R, of "of_nat k"] R k by (auto simp: state_repr_def not_less)
  note upd = slot_total_upd[OF k(1), of F v]
  have tot: "slot_total L (F(k := v)) < 2 ^ 96" by (rule slot_total_bound[OF L(2)])
  have le: "unat (slot_amount (F k)) \<le> slot_total L F"
    unfolding slot_total_def using k(1) by (intro member_le_sum) auto
  define a b where "a = (ucast (slot_amount (F k)) :: u128)" and "b = (ucast (slot_amount v) :: u128)"
  have ab: "unat a = unat (slot_amount (F k))" "unat b = unat (slot_amount v)" by (simp_all add: a_def b_def)
  have "a \<le> s" using le ab Cons.prems(3) by (simp add: word_le_nat_alt)
  then have sub: "checked_sub s a = Some (s - a)" "unat (s - a) = unat s - unat a"
    by (simp_all add: checked_sub_def unat_minus_le)
  have eq: "unat (s - a) + unat b = slot_total L (F(k := v))"
    using upd le sub(2) ab Cons.prems(3) by simp
  have fits: "unat (s - a) + unat b < 2 ^ LENGTH(128)" unfolding eq using tot by simp
  then have add: "checked_add (s - a) b = Some (s - a + b)" "unat (s - a + b) = slot_total L (F(k := v))"
    using eq by (simp_all only: checked_add_def if_True unat_plus_lt[OF fits])
  have "\<forall>(j, x) \<in> set us. j < 2 ^ L \<and> (j < 2 ^ ss_log_slots st \<longrightarrow> seg_id_of st (of_nat j) \<notin> ss_evicted st) \<and> (F(k := v)) j = F0 j"
    using Cons.prems(1,2) w by (auto simp: rev_image_eqI)
  from Cons.IH[OF _ this add(2)] Cons.prems(1) w
  obtain s' where s': "supply_loop st us (s - a + b) = Some s'" "unat s' = slot_total L (upd_map us (F(k := v)))"
    by (auto simp del: fun_upd_apply)
  have "\<not> (k < num_slots st \<and> is_evicted st (seg_id_of st (of_nat k)))" using k(2) by (auto simp: num_slots_def is_evicted_def)
  moreover have "(if k < num_slots st then slot_of st (of_nat k) else EMPTY) = F k" using slot by (simp add: num_slots_def)
  ultimately have "supply_loop st (w # us) s = Some s'"
    unfolding w supply_loop.simps Let_def using sub(1) add(1) s'(1) by (simp only: if_False a_def b_def option.case)
  then show ?case using s'(2) w by (simp del: fun_upd_apply)
qed simp

section \<open>The checks of a transaction\<close>

lemma collect_input_slots_iff:
  "collect_input_slots xs seen = Inr s \<longleftrightarrow>
    distinct (map (\<lambda>x. in_slot_index (snd x)) xs) \<and> set (map (\<lambda>x. in_slot_index (snd x)) xs) \<inter> seen = {} \<and>
    s = set (map (\<lambda>x. in_slot_index (snd x)) xs) \<union> seen"
  by (induction xs seen rule: collect_input_slots.induct) auto

lemma check_output_slots_iff:
  "check_output_slots xs ins seen = Inr () \<longleftrightarrow>
    distinct (map (\<lambda>x. out_slot_index (snd x)) xs) \<and> set (map (\<lambda>x. out_slot_index (snd x)) xs) \<inter> (seen \<union> ins) = {}"
  by (induction xs ins seen rule: check_output_slots.induct) auto

lemma spend_deltas_iff:
  "spend_deltas st owner xs = Inr d \<longleftrightarrow>
    (\<forall>(_, i) \<in> set xs. unat (in_slot_index i) < num_slots st \<and> \<not> is_evicted st (seg_id_of st (in_slot_index i)) \<and>
      slot_of st (in_slot_index i) = with_owner_fields (in_amount i) (in_creation_id i) (digest_fields owner)) \<and>
    d = map (\<lambda>(_, i). (in_slot_index i, EMPTY)) xs"
  by (induction st owner xs arbitrary: d rule: spend_deltas.induct) auto

lemma mint_deltas_iff:
  "mint_deltas st body h xs a = Inr d \<longleftrightarrow>
    (\<forall>(_, out) \<in> set xs. unat (out_slot_index out) < num_slots st \<and> \<not> is_evicted st (seg_id_of st (out_slot_index out)) \<and>
      slot_of st (out_slot_index out) = EMPTY) \<and>
    unat a + length xs < 2 ^ 64 \<and> (xs \<noteq> [] \<and> is_primary_coinbase_shape body \<longrightarrow> h \<noteq> None) \<and>
    d = minted body h (unat a) xs"
proof (induction xs arbitrary: a d)
  case Nil
  then show ?case using unat_lt_pow[of a] by auto
next
  case (Cons x xs)
  obtain j out where x: "x = (j, out)" by (cases x)
  let ?ok = "unat (out_slot_index out) < num_slots st \<and> \<not> is_evicted st (seg_id_of st (out_slot_index out)) \<and>
    slot_of st (out_slot_index out) = EMPTY"
  show ?case
  proof (cases "?ok \<and> unat a + 1 < 2 ^ 64 \<and> (is_primary_coinbase_shape body \<longrightarrow> h \<noteq> None)")
    case True
    then have add: "checked_add a 1 = Some (a + 1)" and u: "unat (a + 1) = Suc (unat a)"
      by (simp_all add: checked_add_def unat_plus_lt)
    define cid where "cid = (if is_primary_coinbase_shape body then coinbase_creation_id (the h) else a + 1)"
    have id: "(if is_primary_coinbase_shape body
           then bind_res (ok_or ApCoinbaseMintHeightMissing h) (\<lambda>h. Inr (coinbase_creation_id h))
           else Inr (a + 1)) = Inr cid"
      using True by (auto simp: cid_def)
    have "(of_nat (Suc (unat a)) :: u64) = a + 1" by simp
    then have "minted body h (unat a) ((j, out) # xs) =
        (out_slot_index out, with_owner_fields (out_amount out) cid (digest_fields (out_owner out))) # minted body h (unat (a + 1)) xs"
      unfolding u by (simp add: cid_def del: of_nat_Suc)
    moreover have "mint_deltas st body h ((j, out) # xs) a = bind_res (mint_deltas st body h xs (a + 1)) (\<lambda>rest.
        Inr ((out_slot_index out, with_owner_fields (out_amount out) cid (digest_fields (out_owner out))) # rest))"
      using True id by (simp add: add del: bind_res_Inr_iff)
    ultimately show ?thesis
      using Cons.IH[of "a + 1"] True u by (auto simp: x)
  next
    case False
    then have "mint_deltas st body h ((j, out) # xs) a \<noteq> Inr d"
      by (auto simp: checked_add_def)
    with False show ?thesis by (auto simp: x simp del: mint_deltas.simps)
  qed
qed

lemma length_filter_enumerate: "length (filter (\<lambda>(i, _). P i) (enumerate 0 xs)) = length (filter P [0..<length xs])"
proof -
  have "length (filter P (map fst (enumerate 0 xs))) = length (filter (\<lambda>(i, _). P i) (enumerate 0 xs))"
    by (simp only: filter_map comp_def split_def length_map)
  then show ?thesis by (simp add: enumerate_eq_zip)
qed

lemma count_ones_mask:
  assumes "n \<le> LENGTH('a)"
  shows "count_ones (w AND mask n :: 'a::len word) = length (filter (bit w) [0..<n])"
proof -
  have "[0..<LENGTH('a)] = [0..<n] @ [n..<LENGTH('a)]" using assms by (metis le_add_diff_inverse upt_add_eq_append zero_le)
  moreover have "filter (bit (w AND mask n)) [0..<n] = filter (bit w) [0..<n]"
    using assms by (intro filter_cong) (auto simp: bit_simps)
  moreover have "filter (bit (w AND mask n)) [n..<LENGTH('a)] = []"
    by (auto simp: filter_empty_conv bit_simps)
  ultimately show ?thesis by (simp add: count_ones_def)
qed

lemma live_input_count_length: "wf_body body \<Longrightarrow> live_input_count body = length (live_inputs body)"
proof -
  assume "wf_body body"
  then have "length (inputs body) = 8" by (simp add: wf_body_def TX_INPUTS_def)
  then have "length (live_inputs body) = length (filter (input_is_live body) [0..<8])"
    by (simp add: live_inputs_def length_filter_enumerate)
  also have "filter (input_is_live body) [0..<8] = filter (bit (validity_bitmap body)) [0..<8]"
    by (intro filter_cong) (auto simp: input_is_live_iff)
  also have "length \<dots> = live_input_count body"
    using count_ones_mask[of 8 "validity_bitmap body"] by (simp add: live_input_count_def mask_eq_exp_minus_1)
  finally show ?thesis by simp
qed

lemma live_output_count_length: "wf_body body \<Longrightarrow> live_output_count body = length (live_outputs body)"
proof -
  assume "wf_body body"
  then have "length (outputs body) = 2" by (simp add: wf_body_def TX_OUTPUTS_def)
  then have "length (live_outputs body) = length (filter (output_is_live body) [0..<2])"
    by (simp add: live_outputs_def length_filter_enumerate)
  also have "filter (output_is_live body) [0..<2] = filter (bit (drop_bit TX_INPUTS (validity_bitmap body))) [0..<2]"
    by (intro filter_cong) (auto simp: output_is_live_iff TX_INPUTS_def bit_drop_bit_eq)
  also have "length \<dots> = live_output_count body"
    using count_ones_mask[of 2 "drop_bit TX_INPUTS (validity_bitmap body)"] by (simp add: live_output_count_def mask_eq_exp_minus_1)
  finally show ?thesis by simp
qed

lemma live_count_bounds: "wf_body body \<Longrightarrow> length (live_inputs body) \<le> 8 \<and> length (live_outputs body) \<le> 2"
  using length_live_inputs[of body] length_live_outputs[of body] by (simp add: wf_body_def TX_INPUTS_def TX_OUTPUTS_def)

lemma minted_slots: "map fst (minted body h a xs) = map (\<lambda>x. out_slot_index (snd x)) xs"
  by (induction body h a xs rule: minted.induct) auto

lemma utxo_deltas_slots: "map fst (utxo_deltas u body h) = live_input_slots body @ live_output_slots body"
  by (simp add: utxo_deltas_def minted_slots live_input_slots_def live_output_slots_def comp_def split_def)

section \<open>Refinement\<close>

text \<open>Every in-range segment a transaction touches is in memory.\<close>

definition touched_resident :: "tx_body \<Rightarrow> chain_state \<Rightarrow> bool" where
  "touched_resident body cs \<longleftrightarrow>
    (\<forall>slot \<in> set (live_input_slots body @ live_output_slots body).
      unat slot < num_slots (cs_state cs) \<longrightarrow> \<not> is_evicted (cs_state cs) (seg_id_of (cs_state cs) slot))"

lemma touched_resident_live:
  assumes "touched_resident body cs"
  shows "\<forall>(_, i) \<in> set (live_inputs body). unat (in_slot_index i) < num_slots (cs_state cs) \<longrightarrow>
      \<not> is_evicted (cs_state cs) (seg_id_of (cs_state cs) (in_slot_index i))"
    and "\<forall>(_, out) \<in> set (live_outputs body). unat (out_slot_index out) < num_slots (cs_state cs) \<longrightarrow>
      \<not> is_evicted (cs_state cs) (seg_id_of (cs_state cs) (out_slot_index out))"
  using assms by (force simp: touched_resident_def live_input_slots_def live_output_slots_def)+

lemma slot_total_extend:
  assumes "L \<le> M" "\<And>k. 2 ^ L \<le> k \<Longrightarrow> F k = EMPTY"
  shows "slot_total M F = slot_total L F"
proof -
  have "{..<(2 :: nat) ^ L} \<subseteq> {..<2 ^ M}" using power_increasing[OF assms(1), of "2 :: nat"] by auto
  then show ?thesis
    unfolding slot_total_def using assms(2) by (intro sum.mono_neutral_right) (auto simp: slot_amount_def EMPTY_def unpack_amount_creation_id_def)
qed

lemma supply_after_ok:
  assumes R: "state_repr (cs_state cs) F" "unat (cs_circulating_supply_micronoid cs) = slot_total (ss_log_slots (cs_state cs)) F"
    and L: "ss_log_slots (cs_state cs) \<le> L" "L \<le> 32"
    and ws: "\<forall>i \<in> set (map fst ws). unat i < 2 ^ L \<and> (unat i < 2 ^ ss_log_slots (cs_state cs) \<longrightarrow> seg_id_of (cs_state cs) i \<notin> ss_evicted (cs_state cs))"
  shows "\<exists>s. supply_after_slot_updates ws cs = Some s \<and> unat s = slot_total L (write_map ws F)"
proof -
  note C = canonical_updates_ok[of ws F]
  have tot: "unat (cs_circulating_supply_micronoid cs) = slot_total L F"
    using slot_total_extend[OF L(1), of F] R by (auto simp: state_repr_def)
  have "k < 2 ^ L \<and> (k < 2 ^ ss_log_slots (cs_state cs) \<longrightarrow> seg_id_of (cs_state cs) (of_nat k) \<notin> ss_evicted (cs_state cs))"
    if "k \<in> fst ` set (canonical_updates ws)" for k
  proof -
    have "k \<in> unat ` fst ` set ws" using that C by blast
    then obtain i where "k = unat i" "i \<in> set (map fst ws)" by auto
    moreover have "of_nat (unat i) = i" by simp
    ultimately show ?thesis using ws by metis
  qed
  then have "\<forall>(k, v) \<in> set (canonical_updates ws).
      k < 2 ^ L \<and> (k < 2 ^ ss_log_slots (cs_state cs) \<longrightarrow> seg_id_of (cs_state cs) (of_nat k) \<notin> ss_evicted (cs_state cs)) \<and> F k = F k"
    by (auto simp: rev_image_eqI)
  moreover have "distinct (map fst (canonical_updates ws))" using C by (auto simp: strict_sorted_iff)
  ultimately have "\<exists>s. supply_loop (cs_state cs) (canonical_updates ws) (cs_circulating_supply_micronoid cs) = Some s \<and>
      unat s = slot_total L (upd_map (canonical_updates ws) F)"
    by (intro supply_loop_ok[OF R(1) L _ _ tot])
  then show ?thesis using C by (simp add: supply_after_slot_updates_def)
qed

lemma checked_sub_of_nat:
  "n \<le> 8 \<Longrightarrow> checked_sub (x :: u64) (of_nat n) = Some y \<longleftrightarrow> unat y + n = unat x"
  by (simp add: checked_sub_Some_iff unat_of_nat_lt)

lemma checked_add_of_nat:
  "n \<le> 8 \<Longrightarrow> checked_add (x :: u64) (of_nat n) = Some y \<longleftrightarrow> unat y = unat x + n"
  by (simp add: checked_add_Some_iff unat_of_nat_lt)

lemma preflight_tx_eq:
  "preflight_tx body h cs = Inr (ds, active, alloc, supply) \<longleftrightarrow>
    (is_coinbase body \<longrightarrow> h \<noteq> None) \<and> distinct (live_input_slots body @ live_output_slots body) \<and>
    (\<exists>d y d'. spend_deltas (cs_state cs) (input_owner body) (live_inputs body) = Inr d \<and>
      checked_sub (cs_active_slot_count cs) (of_nat (live_input_count body)) = Some y \<and>
      checked_add y (of_nat (live_output_count body)) = Some active \<and>
      checked_add (cs_alloc_counter cs) (of_nat (live_output_count body)) = Some alloc \<and>
      \<not> is_coinbase_creation_id alloc \<and>
      mint_deltas (cs_state cs) body h (live_outputs body) (cs_alloc_counter cs) = Inr d' \<and>
      ds = d @ d' \<and> supply_after_slot_updates ds cs = Some supply)"
proof -
  have "distinct (live_input_slots body @ live_output_slots body) \<longleftrightarrow>
      collect_input_slots (live_inputs body) {} = Inr (set (live_input_slots body)) \<and>
      check_output_slots (live_outputs body) (set (live_input_slots body)) {} = Inr ()"
    by (auto simp: collect_input_slots_iff check_output_slots_iff live_input_slots_def live_output_slots_def)
  moreover have "collect_input_slots (live_inputs body) {} = Inr x \<Longrightarrow> x = set (live_input_slots body)" for x
    by (simp add: collect_input_slots_iff live_input_slots_def)
  ultimately show ?thesis by (auto simp: preflight_tx_def)
qed

lemma preflight_iff:
  assumes R: "chain_repr cs u" and wf: "wf_body body" and res: "touched_resident body cs"
  shows "preflight_tx body h cs = Inr (ds, active, alloc, supply) \<longleftrightarrow>
    utxo_accepts u body h \<and> ds = utxo_deltas u body h \<and> unat active = u_active (utxo_after u body h) \<and>
    unat alloc = u_alloc (utxo_after u body h) \<and> unat supply = slot_total (u_log u) (u_slots (utxo_after u body h))"
    (is "?lhs \<longleftrightarrow> ?rhs")
proof -
  let ?st = "cs_state cs" and ?F = "u_slots u" and ?n = "length (live_inputs body)" and ?m = "length (live_outputs body)"
  have st: "state_repr ?st ?F" "ss_log_slots ?st = u_log u" and cnt: "unat (cs_active_slot_count cs) = u_active u"
      "unat (cs_alloc_counter cs) = u_alloc u" "unat (cs_circulating_supply_micronoid cs) = slot_total (u_log u) ?F"
    using R by (auto simp: chain_repr_def)
  have slots: "num_slots ?st = 2 ^ u_log u" by (simp add: num_slots_def st)
  have slot: "slot_of ?st i = ?F (unat i)" if "unat i < 2 ^ u_log u" "\<not> is_evicted ?st (seg_id_of ?st i)" for i
    using slot_of_repr[OF st(1)] that st(2) by (simp add: is_evicted_def)
  note live = touched_resident_live[OF res, unfolded slots]
  have spend: "spend_deltas ?st (input_owner body) (live_inputs body) = Inr d \<longleftrightarrow>
      (\<forall>(_, i) \<in> set (live_inputs body). unat (in_slot_index i) < 2 ^ u_log u \<and> ?F (unat (in_slot_index i)) = claimed body i) \<and>
      d = map (\<lambda>(_, i). (in_slot_index i, EMPTY)) (live_inputs body)" for d
    unfolding spend_deltas_iff slots using live(1) slot by fastforce
  have mint: "mint_deltas ?st body h (live_outputs body) (cs_alloc_counter cs) = Inr d \<longleftrightarrow>
      (\<forall>(_, out) \<in> set (live_outputs body). unat (out_slot_index out) < 2 ^ u_log u \<and> ?F (unat (out_slot_index out)) = EMPTY) \<and>
      u_alloc u + ?m < 2 ^ 64 \<and> (live_outputs body \<noteq> [] \<and> is_primary_coinbase_shape body \<longrightarrow> h \<noteq> None) \<and>
      d = minted body h (u_alloc u) (live_outputs body)" for d
    unfolding mint_deltas_iff slots cnt using live(2) slot by fastforce
  have sup: "\<exists>s. supply_after_slot_updates (utxo_deltas u body h) cs = Some s \<and> unat s = slot_total (u_log u) (u_slots (utxo_after u body h))"
    if "utxo_accepts u body h"
  proof -
    have "\<forall>i \<in> set (map fst (utxo_deltas u body h)). unat i < 2 ^ u_log u"
      using that unfolding utxo_deltas_slots by (auto simp: utxo_accepts_def live_input_slots_def live_output_slots_def)
    then have "\<forall>i \<in> set (map fst (utxo_deltas u body h)). unat i < 2 ^ u_log u \<and> seg_id_of ?st i \<notin> ss_evicted ?st"
      using res unfolding utxo_deltas_slots by (auto simp: touched_resident_def slots is_evicted_def)
    moreover have "u_log u \<le> 32" using st by (simp add: state_repr_def geometry_def)
    ultimately show ?thesis using supply_after_ok[OF st(1), of "u_log u"] cnt(3) st(2) by (simp add: utxo_after_def)
  qed
  note nm = live_count_bounds[OF wf]
  have low: "\<not> is_coinbase_creation_id alloc \<longleftrightarrow> unat alloc < 2 ^ 63" by (simp add: coinbase_tag_bit bit_63_iff not_le)
  have "(\<exists>y :: u64. unat y + ?n = u_active u \<and> unat active = unat y + ?m) \<longleftrightarrow>
      ?n \<le> u_active u \<and> unat active = u_active u - ?n + ?m"
  proof safe
    assume a: "?n \<le> u_active u" "unat active = u_active u - ?n + ?m"
    have "u_active u < 2 ^ 64" using cnt(1) unat_lt_pow[of "cs_active_slot_count cs"] by simp
    then have "unat (of_nat (u_active u - ?n) :: u64) = u_active u - ?n" by (simp add: unat_of_nat_lt)
    then show "\<exists>y :: u64. unat y + ?n = u_active u \<and> unat active = unat y + ?m" using a by (metis le_add_diff_inverse2)
  qed auto
  then have "?lhs \<longleftrightarrow> (is_coinbase body \<longrightarrow> h \<noteq> None) \<and> distinct (live_input_slots body @ live_output_slots body) \<and>
      (\<forall>(_, i) \<in> set (live_inputs body). unat (in_slot_index i) < 2 ^ u_log u \<and> ?F (unat (in_slot_index i)) = claimed body i) \<and>
      (?n \<le> u_active u \<and> unat active = u_active u - ?n + ?m) \<and> (unat alloc = u_alloc u + ?m \<and> unat alloc < 2 ^ 63) \<and>
      ((\<forall>(_, out) \<in> set (live_outputs body). unat (out_slot_index out) < 2 ^ u_log u \<and> ?F (unat (out_slot_index out)) = EMPTY) \<and>
        u_alloc u + ?m < 2 ^ 64 \<and> (live_outputs body \<noteq> [] \<and> is_primary_coinbase_shape body \<longrightarrow> h \<noteq> None)) \<and>
      ds = utxo_deltas u body h \<and> supply_after_slot_updates ds cs = Some supply"
    unfolding preflight_tx_eq spend mint live_input_count_length[OF wf] live_output_count_length[OF wf] low
    using nm by (simp add: checked_sub_of_nat checked_add_of_nat cnt flip: utxo_deltas_def) blast
  also have "\<dots> \<longleftrightarrow> utxo_accepts u body h \<and> unat active = u_active u - ?n + ?m \<and> unat alloc = u_alloc u + ?m \<and>
      ds = utxo_deltas u body h \<and> supply_after_slot_updates ds cs = Some supply"
    using unat_lt_pow[of active] unfolding utxo_accepts_def is_primary_coinbase_shape_def by auto
  also have "\<dots> \<longleftrightarrow> ?rhs"
    using sup by (auto simp: utxo_after_def word_unat_eq_iff)
  finally show ?thesis .
qed

text \<open>Writing a batch of slots leaves the segment roots current except those of the dirty segments.\<close>

lemma seg_slots_all: "(\<And>s. seg_slots F e s = seg_slots G e s) \<Longrightarrow> F = G"
proof
  fix k
  assume "\<And>s. seg_slots F e s = seg_slots G e s"
  then have "seg_slots F e (k div 2 ^ e) (k mod 2 ^ e) = seg_slots G e (k div 2 ^ e) (k mod 2 ^ e)" by simp
  then show "F k = G k" unfolding seg_slots_def div_mult_mod_eq by simp
qed

lemma deferred_repr:
  assumes R: "chain_repr cs u" and ws: "\<forall>(i, v) \<in> set ws. unat i < 2 ^ u_log u \<and> seg_id_of (cs_state cs) i \<notin> ss_evicted (cs_state cs)"
    and u': "u_log u' = u_log u" "u_slots u' = write_map ws (u_slots u)"
    and cnt: "unat active = u_active u'" "unat alloc = u_alloc u'" "unat supply = slot_total (u_log u') (u_slots u')"
  shows "chain_repr (cs\<lparr> cs_state := fold write_slot ws (cs_state cs), cs_active_slot_count := active,
    cs_alloc_counter := alloc, cs_circulating_supply_micronoid := supply \<rparr>) u'"
proof -
  let ?st = "cs_state cs" and ?st' = "fold write_slot ws (cs_state cs)" and ?F = "u_slots u" and ?F' = "u_slots u'"
  have st: "state_repr ?st ?F" "ss_log_slots ?st = u_log u" "roots_current cs ?F (ss_exact_dirty ?st)"
    using R by (auto simp: chain_repr_def)
  have "\<forall>(i, v) \<in> set ws. unat i < 2 ^ ss_log_slots ?st \<and> seg_id_of ?st i \<notin> ss_evicted ?st" using ws st(2) by auto
  note W = fold_write_slot_repr[OF st(1) this, folded u'(2)]
  have node: "node_of (leaves_of ?F') (ss_effective_log_seg ?st) s = node_of (leaves_of ?F) (ss_effective_log_seg ?st) s"
    if "s \<notin> ss_exact_dirty ?st'" for s
    using W that node_of_seg_slots[of ?F' "ss_effective_log_seg ?st" s] node_of_seg_slots[of ?F "ss_effective_log_seg ?st" s] by simp
  have "?F' = ?F \<and> ss_exact_dirty ?st = {}" if "ss_exact_dirty ?st' = {}"
    using W that by (auto intro: seg_slots_all)
  then have root: "ss_exact_dirty ?st' = {} \<longrightarrow> cs_utxo_root cs = utxo_root u'"
    using R u'(1) by (auto simp: chain_repr_def)
  have "roots_current (cs\<lparr> cs_state := ?st', cs_active_slot_count := active, cs_alloc_counter := alloc,
      cs_circulating_supply_micronoid := supply \<rparr>) ?F' (ss_exact_dirty ?st')"
    using st(3) W node by (auto simp: roots_current_def)
  then show ?thesis using W root cnt u'(1) st(2) by (simp add: chain_repr_def)
qed

lemma try_state_root_repr:
  assumes R: "chain_repr cs u"
  shows "\<exists>cs'. try_state_root cs = Some (Inr (utxo_root u, cs')) \<and> chain_repr cs' u \<and>
    ss_exact_dirty (cs_state cs') = {} \<and> ss_evicted (cs_state cs') = ss_evicted (cs_state cs)"
proof -
  let ?D = "ss_exact_dirty (cs_state cs)"
  have geo: "geometry (cs_state cs)" using R by (simp add: chain_repr_def state_repr_def)
  then have "finite ?D" by (auto simp: geometry_def intro: finite_subset)
  then have D: "set (sorted_list_of_set ?D) = ?D" by simp
  have "?D \<subseteq> {..<ss_num_segments (cs_state cs)} - ss_evicted (cs_state cs)" using geo by (auto simp: geometry_def)
  then obtain c roots where T: "try_state_root cs = Some (Inr (utxo_root u,
      cs\<lparr> cs_state := (cs_state cs)\<lparr> ss_exact_segment_cache := c, ss_exact_dirty := {} \<rparr>, cs_exact_roots := roots, cs_utxo_root := utxo_root u \<rparr>))"
    "state_repr ((cs_state cs)\<lparr> ss_exact_segment_cache := c, ss_exact_dirty := {} \<rparr>) (u_slots u)"
    "roots_current (cs\<lparr> cs_state := (cs_state cs)\<lparr> ss_exact_segment_cache := c, ss_exact_dirty := {} \<rparr>, cs_exact_roots := roots \<rparr>) (u_slots u) {}"
    using try_state_root_in_repr[of cs "u_slots u" "sorted_list_of_set ?D"] R
    unfolding D chain_repr_def try_state_root_def by auto
  show ?thesis
    by (rule exI, intro conjI, rule T(1)) (use T(2,3) R in \<open>simp_all add: chain_repr_def roots_current_def\<close>)
qed

lemma deferred_refines:
  assumes R: "chain_repr cs u" and wf: "wf_body body" and res: "touched_resident body cs"
  shows "utxo_accepts u body h \<Longrightarrow> \<exists>cs'. apply_tx_checked_deferred_root body h cs = Some (Inr cs') \<and>
      chain_repr cs' (utxo_after u body h) \<and> ss_evicted (cs_state cs') = ss_evicted (cs_state cs)"
    and "\<not> utxo_accepts u body h \<Longrightarrow> \<exists>e. apply_tx_checked_deferred_root body h cs = Some (Inl e)"
proof -
  note P = preflight_iff[OF R wf res, of h]
  let ?u = "utxo_after u body h" and ?ws = "utxo_deltas u body h"
  have st: "state_repr (cs_state cs) (u_slots u)" "ss_log_slots (cs_state cs) = u_log u" using R by (auto simp: chain_repr_def)
  {
    assume acc: "utxo_accepts u body h"
    define active :: u64 where "active = of_nat (u_active ?u)"
    define alloc :: u64 where "alloc = of_nat (u_alloc ?u)"
    define total :: u128 where "total = of_nat (slot_total (u_log u) (u_slots ?u))"
    have bound: "u_active ?u < 2 ^ 64" "u_alloc ?u < 2 ^ 64" using acc by (auto simp: utxo_accepts_def utxo_after_def)
    have "u_log u \<le> 32" using st by (simp add: state_repr_def geometry_def)
    then have cnt: "unat active = u_active ?u" "unat alloc = u_alloc ?u" "unat total = slot_total (u_log u) (u_slots ?u)"
      using bound slot_total_bound[of "u_log u" "u_slots ?u"]
      by (simp_all add: active_def alloc_def total_def unat_of_nat_lt)
    then have pre: "preflight_tx body h cs = Inr (?ws, active, alloc, total)" using P acc by simp
    have in_range: "\<forall>i \<in> set (map fst ?ws). unat i < 2 ^ u_log u"
      using acc unfolding utxo_deltas_slots by (auto simp: utxo_accepts_def live_input_slots_def live_output_slots_def)
    then have ws: "\<forall>(i, v) \<in> set ?ws. unat i < 2 ^ u_log u \<and> seg_id_of (cs_state cs) i \<notin> ss_evicted (cs_state cs)"
      using res st(2) unfolding touched_resident_def utxo_deltas_slots[of u body h, symmetric] num_slots_def is_evicted_def by force
    let ?cs = "cs\<lparr> cs_state := fold write_slot ?ws (cs_state cs), cs_active_slot_count := active,
      cs_alloc_counter := alloc, cs_circulating_supply_micronoid := total \<rparr>"
    have "apply_delta_unrooted ?ws (cs_state cs) = Inr (fold write_slot ?ws (cs_state cs))"
      using ws st(2) by (auto simp: apply_delta_unrooted_def num_slots_def)
    then have "apply_tx_checked_deferred_root body h cs = Some (Inr ?cs)"
      by (simp add: apply_tx_checked_deferred_root_def pre)
    moreover have "chain_repr ?cs ?u" by (rule deferred_repr[OF R ws _ _ cnt(1,2)]) (simp_all add: utxo_after_def cnt(3))
    moreover have "ss_evicted (cs_state ?cs) = ss_evicted (cs_state cs)"
      using fold_write_slot_repr[OF st(1), of ?ws] ws st(2) by auto
    ultimately show "\<exists>cs'. apply_tx_checked_deferred_root body h cs = Some (Inr cs') \<and> chain_repr cs' ?u \<and>
        ss_evicted (cs_state cs') = ss_evicted (cs_state cs)" by blast
  next
    assume "\<not> utxo_accepts u body h"
    then have "preflight_tx body h cs \<noteq> Inr x" for x using P by (cases x) auto
    then obtain e where "preflight_tx body h cs = Inl e" by (cases "preflight_tx body h cs") blast+
    then show "\<exists>e. apply_tx_checked_deferred_root body h cs = Some (Inl e)"
      by (simp add: apply_tx_checked_deferred_root_def)
  }
qed

lemma apply_tx_refines_aux:
  assumes R: "chain_repr cs u" and wf: "wf_body body" and res: "touched_resident body cs"
  shows "utxo_accepts u body h \<Longrightarrow> \<exists>cs'. apply_tx_inner body h cs = Some (Inr (utxo_root (utxo_after u body h), cs')) \<and>
      chain_repr cs' (utxo_after u body h) \<and> ss_exact_dirty (cs_state cs') = {} \<and> ss_evicted (cs_state cs') = ss_evicted (cs_state cs)"
    and "\<not> utxo_accepts u body h \<Longrightarrow> \<exists>e. apply_tx_inner body h cs = Some (Inl e)"
proof -
  assume "utxo_accepts u body h"
  then obtain cs1 where 1: "apply_tx_checked_deferred_root body h cs = Some (Inr cs1)" "chain_repr cs1 (utxo_after u body h)"
    "ss_evicted (cs_state cs1) = ss_evicted (cs_state cs)" using deferred_refines(1)[OF R wf res] by blast
  then show "\<exists>cs'. apply_tx_inner body h cs = Some (Inr (utxo_root (utxo_after u body h), cs')) \<and>
      chain_repr cs' (utxo_after u body h) \<and> ss_exact_dirty (cs_state cs') = {} \<and> ss_evicted (cs_state cs') = ss_evicted (cs_state cs)"
    using try_state_root_repr[OF 1(2)] by (auto simp: apply_tx_inner_def)
next
  assume "\<not> utxo_accepts u body h"
  then show "\<exists>e. apply_tx_inner body h cs = Some (Inl e)"
    using deferred_refines(2)[OF R wf res, of h] by (auto simp: apply_tx_inner_def)
qed

section \<open>Monetary conservation\<close>

lemma slot_parts [simp]:
  "slot_amount (with_owner_fields a c ow) = a" "slot_creation_id (with_owner_fields a c ow) = c"
proof -
  show "slot_amount (with_owner_fields a c ow) = a"
    unfolding slot_amount_def with_owner_fields_def from_parts_def unpack_amount_creation_id_def pack_amount_creation_id_def
    by (intro bit_word_eqI) (auto simp: bit_simps)
  show "slot_creation_id (with_owner_fields a c ow) = c"
    unfolding slot_creation_id_def with_owner_fields_def from_parts_def unpack_amount_creation_id_def pack_amount_creation_id_def
    by (intro bit_word_eqI) (auto simp: bit_simps dest: bit_imp_le_length)
qed

lemma slot_amount_EMPTY [simp]: "slot_amount EMPTY = 0" "slot_creation_id EMPTY = 0"
  by (simp_all add: EMPTY_def slot_amount_def slot_creation_id_def unpack_amount_creation_id_def)

lemma minted_total: "sum_list (map (\<lambda>(i, v). unat (slot_amount v)) (minted body h a xs)) = sum_list (map (\<lambda>x. unat (out_amount (snd x))) xs)"
  by (induction body h a xs rule: minted.induct) auto

lemma minted_empty_before:
  "\<forall>(_, out) \<in> set xs. F (unat (out_slot_index out)) = EMPTY \<Longrightarrow>
    sum_list (map (\<lambda>(i, v). unat (slot_amount (F (unat i)))) (minted body h a xs)) = 0"
  by (induction body h a xs rule: minted.induct) auto

lemma supply_change:
  assumes "utxo_accepts u body h"
  shows "slot_total (u_log u) (u_slots (utxo_after u body h)) + input_total body = slot_total (u_log u) (u_slots u) + output_total body"
proof -
  let ?ws = "utxo_deltas u body h" and ?F = "u_slots u"
  note A = assms[unfolded utxo_accepts_def]
  have "distinct (map fst ?ws)" using A by (simp add: utxo_deltas_slots)
  moreover have "\<forall>i \<in> set (map fst ?ws). unat i < 2 ^ u_log u"
    using A unfolding utxo_deltas_slots by (auto simp: live_input_slots_def live_output_slots_def)
  ultimately have "slot_total (u_log u) (write_map ?ws ?F) + sum_list (map (\<lambda>(i, v). unat (slot_amount (?F (unat i)))) ?ws) =
      slot_total (u_log u) ?F + sum_list (map (\<lambda>(i, v). unat (slot_amount v)) ?ws)"
    by (intro slot_total_write_map) auto
  moreover have "map (\<lambda>x. unat (slot_amount (?F (unat (in_slot_index (snd x)))))) (live_inputs body) = map (\<lambda>x. unat (in_amount (snd x))) (live_inputs body)"
    using A by (intro map_cong) auto
  moreover have "sum_list (map (\<lambda>(i, v). unat (slot_amount (?F (unat i)))) (minted body h (u_alloc u) (live_outputs body))) = 0"
    using A by (intro minted_empty_before) auto
  ultimately have "slot_total (u_log u) (write_map ?ws ?F) + input_total body = slot_total (u_log u) ?F + sum_list (map (\<lambda>(i, v). unat (slot_amount v)) ?ws)"
    by (simp only: utxo_deltas_def input_total_def map_append sum_list_append map_map comp_def split_def fst_conv snd_conv add_0_right)
  moreover have "sum_list (map (\<lambda>(i, v). unat (slot_amount v)) ?ws) = output_total body"
    using minted_total[of body h "u_alloc u" "live_outputs body"] by (simp add: utxo_deltas_def output_total_def comp_def split_def)
  ultimately show ?thesis by (simp add: utxo_after_def)
qed

section \<open>A successful application\<close>

text \<open>The engine refuses to touch an evicted segment, so success needs no residency assumption.\<close>

lemma preflight_resident:
  assumes "preflight_tx body h cs = Inr r"
  shows "touched_resident body cs"
proof -
  obtain ds active alloc total where "r = (ds, active, alloc, total)" by (cases r)
  then have "\<forall>(_, i) \<in> set (live_inputs body). \<not> is_evicted (cs_state cs) (seg_id_of (cs_state cs) (in_slot_index i))"
    "\<forall>(_, out) \<in> set (live_outputs body). \<not> is_evicted (cs_state cs) (seg_id_of (cs_state cs) (out_slot_index out))"
    using assms by (auto simp: preflight_tx_eq spend_deltas_iff mint_deltas_iff)
  then show ?thesis by (auto simp: touched_resident_def live_input_slots_def live_output_slots_def)
qed

lemma deferred_success:
  assumes "chain_repr cs u" "wf_body body" "apply_tx_checked_deferred_root body h cs = Some (Inr cs')"
  shows "utxo_accepts u body h" "chain_repr cs' (utxo_after u body h)" "ss_evicted (cs_state cs') = ss_evicted (cs_state cs)"
proof -
  have "\<exists>r. preflight_tx body h cs = Inr r"
    using assms(3) by (cases "preflight_tx body h cs") (auto simp: apply_tx_checked_deferred_root_def)
  then have res: "touched_resident body cs" using preflight_resident by blast
  note D = deferred_refines[OF assms(1,2) res, of h]
  show acc: "utxo_accepts u body h" using D(2) assms(3) by auto
  show "chain_repr cs' (utxo_after u body h)" "ss_evicted (cs_state cs') = ss_evicted (cs_state cs)" using D(1)[OF acc] assms(3) by auto
qed

lemma apply_success:
  assumes "chain_repr cs u" "wf_body body" "apply_tx_inner body h cs = Some (Inr (root, cs'))"
  shows "utxo_accepts u body h" "chain_repr cs' (utxo_after u body h)" "root = utxo_root (utxo_after u body h)"
proof -
  obtain cs1 where cs1: "apply_tx_checked_deferred_root body h cs = Some (Inr cs1)"
    using assms(3) by (auto simp: apply_tx_inner_def elim!: bind_out.elims split: prod.splits)
  note D = deferred_success[OF assms(1,2) cs1]
  show "utxo_accepts u body h" by (rule D(1))
  show "chain_repr cs' (utxo_after u body h)" "root = utxo_root (utxo_after u body h)"
    using try_state_root_repr[OF D(2)] assms(3) cs1 by (auto simp: apply_tx_inner_def)
qed

section \<open>Genesis, growth and residency\<close>

definition empty_ledger :: "nat \<Rightarrow> utxo" where
  "empty_ledger L = \<lparr> u_log = L, u_slots = (\<lambda>_. EMPTY), u_active = 0, u_alloc = 0 \<rparr>"

lemma seg_slots_EMPTY [simp]: "seg_slots (\<lambda>_. EMPTY) e s = (\<lambda>_. EMPTY)"
  by (auto simp: seg_slots_def)

lemma seg_slots_high: "(\<And>k. n * 2 ^ e \<le> k \<Longrightarrow> F k = EMPTY) \<Longrightarrow> n \<le> s \<Longrightarrow> seg_slots F e s = (\<lambda>_. EMPTY)"
proof
  fix k
  assume "\<And>k. n * 2 ^ e \<le> k \<Longrightarrow> F k = EMPTY" "n \<le> s"
  moreover have "n * 2 ^ e \<le> s * 2 ^ e + k" using \<open>n \<le> s\<close> by (simp add: trans_le_add1)
  ultimately show "seg_slots F e s k = EMPTY" by (simp add: seg_slots_def)
qed

lemma live_count_empty [simp]: "live_count (\<lambda>_. EMPTY) = 0"
  by (simp add: live_count_def)

lemma with_log_slots_repr:
  assumes "1 \<le> L" "L \<le> 32"
  shows "\<exists>cs. with_log_slots L = Some cs \<and> chain_repr cs (empty_ledger L) \<and> ss_exact_dirty (cs_state cs) = {} \<and> ss_evicted (cs_state cs) = {}"
proof -
  obtain st where st: "new_empty L = Some st" using assms(1) by (simp add: new_empty_def Let_def)
  have n: "ss_num_segments st = 2 ^ (L - min L 16)" and geo: "geometry st" and dirty: "ss_exact_dirty st = {}" "ss_evicted st = {}"
    and L: "ss_log_slots st = L" "ss_effective_log_seg st = min L 16"
    using st assms by (auto simp: new_empty_def Let_def geometry_def)
  have "state_repr st (\<lambda>_. EMPTY)"
    using st assms geo by (auto simp: state_repr_def new_empty_def Let_def segment_repr_def)
  moreover have "rc_segment_roots (root_cache_empty L) ! s = node_of (\<lambda>_. empty_leaf) (min L 16) s" if "s < 2 ^ (L - min L 16)" for s
    using root_cache_empty_ok[of L] that by (simp add: rc_wf_def)
  ultimately show ?thesis
    using st n dirty L root_cache_empty_ok[of L] zero_slot_roots_nth[of L L 0]
    by (simp add: with_log_slots_def chain_repr_def empty_ledger_def roots_current_def slot_total_def)
qed

lemma cols_hold_grow:
  assumes "cols_hold cols e g" "\<And>k. 2 ^ e \<le> k \<Longrightarrow> g k = EMPTY" "extra = replicate (2 ^ e) 0"
  shows "cols_hold \<lparr> col_values = col_values cols @ extra, col_owners_hi = col_owners_hi cols @ extra, col_owners_lo = col_owners_lo cols @ extra \<rparr> (Suc e) g"
  unfolding cols_hold_def
proof (intro conjI allI impI)
  fix k :: nat assume "k < 2 ^ Suc e"
  then show "column_slot \<lparr> col_values = col_values cols @ extra, col_owners_hi = col_owners_hi cols @ extra, col_owners_lo = col_owners_lo cols @ extra \<rparr> k = g k"
    using assms by (cases "k < 2 ^ e") (auto simp: cols_hold_def column_slot_def nth_append EMPTY_def)
qed (use assms in \<open>simp_all add: cols_hold_def\<close>)

lemma expand_repr:
  assumes R: "state_repr st F" and L: "ss_log_slots st < 32"
    and D: "D \<subseteq> {..<ss_num_segments (expand st)}" "D \<inter> ss_evicted st = {}"
  shows "state_repr ((expand st)\<lparr> ss_exact_dirty := D \<rparr>) F"
proof -
  have geo: "geometry st" and seg: "\<And>j. j < ss_num_segments st \<Longrightarrow> segment_repr st F j"
    and top: "\<And>k. 2 ^ ss_log_slots st \<le> k \<Longrightarrow> F k = EMPTY" and ent: "entries_ok (tree_entry st F) (ss_exact_segment_cache st)"
    using R by (auto simp: state_repr_def)
  let ?L = "ss_log_slots st" and ?n = "ss_num_segments st" and ?st = "(expand st)\<lparr> ss_exact_dirty := D \<rparr>"
  have top': "\<forall>k \<ge> 2 ^ Suc ?L. F k = EMPTY"
  proof (intro allI impI)
    fix k :: nat assume "2 ^ Suc ?L \<le> k"
    then have "2 ^ ?L \<le> k" by simp
    then show "F k = EMPTY" by (rule top)
  qed
  show ?thesis
  proof (cases "?L < 16")
    case True
    define extra where "extra = replicate (2 ^ ?L) (0 :: u128)"
    define grow :: "segment_columns \<Rightarrow> segment_columns" where "grow = (\<lambda>cols. \<lparr> col_values = col_values cols @ extra, col_owners_hi = col_owners_hi cols @ extra, col_owners_lo = col_owners_lo cols @ extra \<rparr>)"
    have g: "ss_effective_log_seg st = ?L" "?n = 1" "length (ss_segments st) = 1" using geo True by (auto simp: geometry_def)
    have st: "?st = st\<lparr> ss_log_slots := Suc ?L, ss_effective_log_seg := Suc ?L, ss_exact_segment_cache := cache_remove 0 (ss_exact_segment_cache st),
        ss_segments := (ss_segments st)[0 := map_option grow (ss_segments st ! 0)], ss_exact_dirty := D \<rparr>"
      using True by (simp add: expand_def Let_def grow_def extra_def)
    have eq: "seg_slots F (Suc ?L) 0 = seg_slots F ?L 0" using top by (auto simp: seg_slots_def)
    have "cols_hold (grow cols) (Suc ?L) (seg_slots F ?L 0)" if "cols_hold cols ?L (seg_slots F ?L 0)" for cols
      unfolding grow_def by (rule cols_hold_grow[OF that _ extra_def]) (simp add: seg_slots_def)
    then have "segment_repr ?st F 0"
      using seg[of 0] g by (auto simp: st segment_repr_def eq Let_def split: option.splits if_splits)
    moreover have "geometry ?st" using geo True D g by (auto simp: st geometry_def expand_def Let_def)
    moreover have "entries_ok (tree_entry ?st F) (cache_remove 0 (ss_exact_segment_cache st))"
      using cache_remove_ok[OF ent, of 0] by (rule entries_ok_mono) (use g in auto)
    ultimately show ?thesis using top' g by (simp add: state_repr_def st)
  next
    case False
    have g: "ss_effective_log_seg st = 16" "?n = 2 ^ (?L - 16)" "length (ss_segments st) = ?n" "length (ss_live_counts st) = ?n"
      using geo False by (auto simp: geometry_def)
    have st: "?st = st\<lparr> ss_log_slots := Suc ?L, ss_num_segments := 2 * ?n, ss_segments := ss_segments st @ replicate ?n None,
        ss_live_counts := ss_live_counts st @ replicate ?n 0, ss_exact_dirty := D \<rparr>"
      using False by (simp add: expand_def Let_def mult.commute)
    have "?n * 2 ^ 16 = 2 ^ ?L" using False unfolding g(2) by (simp only: power_add[symmetric]) simp
    then have high: "seg_slots F 16 s = (\<lambda>_. EMPTY)" if "?n \<le> s" for s
      using that top by (intro seg_slots_high[of ?n]) auto
    have "segment_repr ?st F s" if "s < 2 * ?n" for s
    proof (cases "s < ?n")
      case True
      then show ?thesis using seg[of s] g by (auto simp: st segment_repr_def Let_def nth_append split: option.splits)
    next
      case False
      then have "s \<notin> ss_evicted st" using geo by (auto simp: geometry_def)
      then show ?thesis using False high[of s] that g by (simp add: st segment_repr_def Let_def nth_append)
    qed
    moreover have "Suc ?L - 16 = Suc (?L - 16)" using False by simp
    then have "geometry ?st" using geo False D g L by (auto simp: st geometry_def expand_def Let_def)
    moreover have "entries_ok (tree_entry ?st F) (ss_exact_segment_cache st)"
      using ent by (rule entries_ok_mono) (use g in \<open>auto simp: st nth_append\<close>)
    ultimately show ?thesis using top' by (simp add: state_repr_def st)
  qed
qed

lemma expand_frame [simp]:
  "ss_log_slots (expand st) = Suc (ss_log_slots st)" "ss_evicted (expand st) = ss_evicted st"
  "ss_exact_dirty (expand st) = (if ss_log_slots st < 16 then insert 0 (ss_exact_dirty st) else ss_exact_dirty st)"
  by (auto simp: expand_def Let_def)

lemma rc_geometry:
  "rc_wf c \<Longrightarrow> geometry st \<Longrightarrow> rc_log_slots c = ss_log_slots st \<Longrightarrow>
    rc_effective_log_seg c = ss_effective_log_seg st \<and> length (rc_segment_roots c) = ss_num_segments st"
  by (simp add: rc_wf_def geometry_def)

lemma chain_expand_repr:
  assumes R: "chain_repr cs u" and L: "u_log u < 32"
  shows "chain_repr (chain_expand_one cs) (u\<lparr> u_log := Suc (u_log u) \<rparr>)"
    and "ss_evicted (cs_state (chain_expand_one cs)) = ss_evicted (cs_state cs)"
proof -
  let ?st = "cs_state cs" and ?F = "u_slots u" and ?D = "ss_exact_dirty (cs_state cs)" and ?rc = "cs_exact_roots cs"
  have st: "state_repr ?st ?F" "ss_log_slots ?st = u_log u" "roots_current cs ?F ?D" using R by (auto simp: chain_repr_def)
  have geo: "geometry ?st" using st by (simp add: state_repr_def)
  have top: "\<And>k. 2 ^ u_log u \<le> k \<Longrightarrow> ?F k = EMPTY" using st by (auto simp: state_repr_def)
  have rc: "rc_wf ?rc" "rc_log_slots ?rc = u_log u" "rc_effective_log_seg ?rc = ss_effective_log_seg ?st" "length (rc_segment_roots ?rc) = ss_num_segments ?st"
    using st(2,3) roots_current_geometry[OF geo st(3)] by (auto simp: roots_current_def)
  have clean: "root_cache_root ?rc = cs_utxo_root cs" if "?D = {}"
    using rc_root_eq[of ?rc "leaves_of ?F"] that st(2,3) rc R by (simp add: roots_current_def chain_repr_def)
  define D where "D = (if ?D = {} then {} else ss_exact_dirty (expand ?st))"
  define root where "root = state_node_hash (cs_utxo_root cs) (zero_slot_roots (u_log u) ! u_log u)"
  have cs': "chain_expand_one cs = cs\<lparr> cs_state := (expand ?st)\<lparr> ss_exact_dirty := D \<rparr>,
      cs_exact_roots := root_cache_expand ?rc, cs_utxo_root := root \<rparr>"
    using clean rc(2) st(2) by (auto simp: chain_expand_one_def Let_def D_def root_def)
  have one: "u_log u < 16 \<Longrightarrow> ss_num_segments ?st = 1" using geo st(2) by (auto simp: geometry_def)
  have n: "ss_num_segments ?st \<le> ss_num_segments (expand ?st)" "0 < ss_num_segments ?st"
    using geo by (auto simp: expand_def Let_def geometry_def)
  have D: "D = ?D"
  proof (cases "?D = {} \<or> 16 \<le> u_log u")
    case False
    moreover from this obtain x where "x \<in> ?D" by auto
    moreover have "?D \<subseteq> {..<ss_num_segments ?st}" using geo unfolding geometry_def by blast
    ultimately have "0 \<in> ?D" using one by auto
    then show ?thesis by (auto simp: D_def)
  qed (use st(2) in \<open>auto simp: D_def\<close>)
  have disj: "D \<inter> ss_evicted ?st = {}" "D \<subseteq> {..<ss_num_segments (expand ?st)}"
    unfolding D using geo n(1) by (auto simp: geometry_def)
  have S: "state_repr ((expand ?st)\<lparr> ss_exact_dirty := D \<rparr>) ?F"
    using expand_repr[OF st(1)] disj L st(2) by simp
  have X: "rc_wf (root_cache_expand ?rc) \<and> rc_log_slots (root_cache_expand ?rc) = Suc (u_log u) \<and>
    (\<forall>s < length (rc_segment_roots (root_cache_expand ?rc)). s \<notin> ?D \<longrightarrow>
      rc_segment_roots (root_cache_expand ?rc) ! s = node_of (leaves_of ?F) (rc_effective_log_seg (root_cache_expand ?rc)) s)"
    using root_cache_expand_ok[OF rc(1), of "leaves_of ?F" ?D] top st(3) rc by (simp add: roots_current_def)
  moreover have "geometry ((expand ?st)\<lparr> ss_exact_dirty := D \<rparr>)" using S by (simp add: state_repr_def)
  ultimately have "rc_effective_log_seg (root_cache_expand ?rc) = ss_effective_log_seg (expand ?st) \<and>
      length (rc_segment_roots (root_cache_expand ?rc)) = ss_num_segments (expand ?st)"
    using rc_geometry[of "root_cache_expand ?rc" "(expand ?st)\<lparr> ss_exact_dirty := D \<rparr>"] st(2) by simp
  then have C: "roots_current (chain_expand_one cs) ?F D"
    using X st(2) by (simp add: roots_current_def cs' D)
  have "node_of (leaves_of ?F) (u_log u) (Suc 0) = zero_slot_roots (u_log u) ! u_log u"
    using top by (intro node_of_empty) auto
  then have "D = {} \<longrightarrow> root = node_of (leaves_of ?F) (Suc (u_log u)) 0"
    using R by (auto simp: D_def root_def chain_repr_def split: if_splits)
  moreover have "slot_total (Suc (u_log u)) ?F = slot_total (u_log u) ?F"
    using top by (intro slot_total_extend) auto
  ultimately show "chain_repr (chain_expand_one cs) (u\<lparr> u_log := Suc (u_log u) \<rparr>)"
    using S C R by (simp add: chain_repr_def cs')
  show "ss_evicted (cs_state (chain_expand_one cs)) = ss_evicted ?st" by (simp add: cs')
qed

text \<open>Two leaf assignments with different leaves but equal roots collide at some node on the way.\<close>

definition tree_collision :: "nat \<Rightarrow> (nat \<Rightarrow> slot_value) \<Rightarrow> (nat \<Rightarrow> slot_value) \<Rightarrow> bool" where
  "tree_collision L F G \<longleftrightarrow>
    (\<exists>k < 2 ^ L. F k \<noteq> G k \<and> slot_leaf_hash (F k) = slot_leaf_hash (G k)) \<or>
    (\<exists>l < L. \<exists>i < 2 ^ (L - Suc l).
      (node_of (leaves_of F) l (2 * i), node_of (leaves_of F) l (Suc (2 * i))) \<noteq>
      (node_of (leaves_of G) l (2 * i), node_of (leaves_of G) l (Suc (2 * i))) \<and>
      node_of (leaves_of F) (Suc l) i = node_of (leaves_of G) (Suc l) i)"

lemma tree_binding:
  assumes "node_of (leaves_of F) L 0 = node_of (leaves_of G) L 0" "\<not> tree_collision L F G"
  shows "\<forall>k < 2 ^ L. F k = G k"
proof -
  have "\<forall>i < 2 ^ (L - l). node_of (leaves_of F) l i = node_of (leaves_of G) l i" if "l \<le> L" for l
    using that
  proof (induction "L - l" arbitrary: l)
    case 0
    then show ?case using assms(1) by simp
  next
    case (Suc d)
    then have l: "l < L" and up: "\<forall>i < 2 ^ (L - Suc l). node_of (leaves_of F) (Suc l) i = node_of (leaves_of G) (Suc l) i"
      using Suc.hyps(1)[of "Suc l"] by auto
    show ?case
    proof (intro allI impI)
      fix i :: nat assume i: "i < 2 ^ (L - l)"
      have "L - l = Suc (L - Suc l)" using l by simp
      then have j: "i div 2 < 2 ^ (L - Suc l)" using i by (simp add: less_mult_imp_div_less)
      have i2: "i = 2 * (i div 2) \<or> i = Suc (2 * (i div 2))" by (metis dvd_mult_div_cancel even_Suc odd_two_times_div_two_succ Suc_eq_plus1)
      have "node_of (leaves_of F) l (2 * (i div 2)) = node_of (leaves_of G) l (2 * (i div 2)) \<and>
          node_of (leaves_of F) l (Suc (2 * (i div 2))) = node_of (leaves_of G) l (Suc (2 * (i div 2)))"
        using assms(2) l j up unfolding tree_collision_def by blast
      then show "node_of (leaves_of F) l i = node_of (leaves_of G) l i" using i2 by metis
    qed
  qed
  from this[of 0] show ?thesis using assms(2) unfolding tree_collision_def by fastforce
qed

lemma live_count_columns:
  assumes "cols_hold cols e g" "\<And>k. 2 ^ e \<le> k \<Longrightarrow> g k = EMPTY"
  shows "length (filter (\<lambda>k. \<not> slot_is_empty (column_slot cols k)) [0..<2 ^ e]) = live_count g"
proof -
  have "k < 2 ^ e" if "g k \<noteq> EMPTY" for k using assms(2)[of k] that not_le by blast
  then have "{k. g k \<noteq> EMPTY} = set (filter (\<lambda>k. \<not> slot_is_empty (column_slot cols k)) [0..<2 ^ e])"
    using assms(1) by (auto simp: cols_hold_def slot_is_empty_def)
  then show ?thesis unfolding live_count_def by (simp only: distinct_card distinct_filter distinct_upt)
qed

lemma count_live_columns:
  assumes "length (col_values cols) = n" "length (col_owners_hi cols) = n" "length (col_owners_lo cols) = n"
  shows "count_live cols = length (filter (\<lambda>k. \<not> slot_is_empty (column_slot cols k)) [0..<n])"
proof -
  have "zip (zip (col_values cols) (col_owners_hi cols)) (col_owners_lo cols) =
      map (\<lambda>k. ((col_values cols ! k, col_owners_hi cols ! k), col_owners_lo cols ! k)) [0..<n]"
    using assms by (intro nth_equalityI) auto
  then show ?thesis
    by (simp add: count_live_def filter_map comp_def slot_is_empty_def column_slot_def EMPTY_def)
qed

lemma evict_repr:
  assumes R: "chain_repr cs u" and s: "s < ss_num_segments (cs_state cs)" "s \<notin> ss_exact_dirty (cs_state cs)"
  shows "chain_repr (cs\<lparr> cs_state := evict_segment s (cs_state cs) \<rparr>) u"
proof -
  let ?st = "cs_state cs" and ?F = "u_slots u" and ?c = "cache_remove s (ss_exact_segment_cache (cs_state cs))"
  have st: "state_repr ?st ?F" using R by (simp add: chain_repr_def)
  then have geo: "geometry ?st" and seg: "\<And>j. j < ss_num_segments ?st \<Longrightarrow> segment_repr ?st ?F j"
    and ent: "entries_ok (tree_entry ?st ?F) (ss_exact_segment_cache ?st)" by (auto simp: state_repr_def)
  note E = cache_remove_ok[OF ent, of s]
  show ?thesis
  proof (cases "ss_segments ?st ! s")
    case None
    then have "evict_segment s ?st = ?st\<lparr> ss_exact_segment_cache := ?c \<rparr>" by (simp add: evict_segment_def)
    moreover have "entries_ok (tree_entry ?st ?F) ?c" using E by (rule entries_ok_mono) simp
    ultimately show ?thesis using R by (simp add: chain_repr_def state_repr_def roots_current_def)
  next
    case (Some cols)
    then have e: "evict_segment s ?st = ?st\<lparr> ss_exact_segment_cache := ?c, ss_segments := (ss_segments ?st)[s := None],
        ss_evicted := insert s (ss_evicted ?st) \<rparr>" by (simp add: evict_segment_def)
    have len: "length (ss_segments ?st) = ss_num_segments ?st" using geo by (simp add: geometry_def)
    have "geometry (evict_segment s ?st)" using geo s by (auto simp: e geometry_def)
    moreover have "segment_repr (evict_segment s ?st) ?F j" if "j < ss_num_segments ?st" for j
      using seg[OF that] len s(1) by (auto simp: e segment_repr_def Let_def nth_list_update split: if_splits option.splits)
    moreover have "entries_ok (tree_entry (evict_segment s ?st) ?F) ?c"
      using E by (rule entries_ok_mono) (simp add: e)
    ultimately have "state_repr (evict_segment s ?st) ?F" using st by (simp add: state_repr_def e)
    then show ?thesis using R by (simp add: chain_repr_def roots_current_def e)
  qed
qed

lemma restore_repr:
  assumes R: "chain_repr cs u" and s: "s < ss_num_segments (cs_state cs)" "s \<in> ss_evicted (cs_state cs)"
    and ok: "restore_evicted_segment s cols cs = Some (Inr cs')"
    and nc: "\<not> tree_collision (ss_effective_log_seg (cs_state cs)) (column_slot cols) (seg_slots (u_slots u) (ss_effective_log_seg (cs_state cs)) s)"
  shows "chain_repr cs' u" "cols_hold cols (ss_effective_log_seg (cs_state cs)) (seg_slots (u_slots u) (ss_effective_log_seg (cs_state cs)) s)"
    "ss_evicted (cs_state cs') = ss_evicted (cs_state cs) - {s}"
proof -
  let ?st = "cs_state cs" and ?F = "u_slots u" and ?e = "ss_effective_log_seg (cs_state cs)"
  let ?g = "seg_slots ?F ?e s"
  have st: "state_repr ?st ?F" using R by (simp add: chain_repr_def)
  then have geo: "geometry ?st" and seg: "\<And>j. j < ss_num_segments ?st \<Longrightarrow> segment_repr ?st ?F j"
    and ent: "entries_ok (tree_entry ?st ?F) (ss_exact_segment_cache ?st)" by (auto simp: state_repr_def)
  have rc: "roots_current cs ?F (ss_exact_dirty ?st)" using R by (simp add: chain_repr_def)
  have nd: "s \<notin> ss_exact_dirty ?st" using geo s by (auto simp: geometry_def)
  have len: "length (ss_segments ?st) = ss_num_segments ?st" "length (ss_live_counts ?st) = ss_num_segments ?st"
    using geo by (simp_all add: geometry_def)
  define live where "live = length (filter (\<lambda>k. \<not> slot_is_empty (column_slot cols k)) [0..<2 ^ ?e])"
  have lens: "length (col_values cols) = 2 ^ ?e" "length (col_owners_hi cols) = 2 ^ ?e" "length (col_owners_lo cols) = 2 ^ ?e"
    using ok by (auto simp: restore_evicted_segment_def Let_def split: if_splits)
  then obtain t where t: "from_columns ?e cols = Some t" "tree_of t ?e (column_slot cols)" using from_columns_ok[of cols ?e] by blast
  have root: "rc_segment_roots (cs_exact_roots cs) ! s = tree_root t" and cnt: "ss_live_counts ?st ! s = live"
    and cs': "\<exists>st'. remember_exact_segment_tree s t (restore_evicted_columns s cols ?st) = Some st' \<and> cs' = cs\<lparr> cs_state := st' \<rparr>"
    using ok lens t(1) s(1) len by (auto simp: restore_evicted_segment_def Let_def live_def split: if_splits)
  have "node_of (leaves_of (column_slot cols)) ?e 0 = node_of (leaves_of ?g) ?e 0"
    using root rc nd s(1) tree_root_ok[OF t(2)] node_of_seg_slots[of ?F ?e s] by (simp add: roots_current_def)
  from tree_binding[OF this nc] lens show hold: "cols_hold cols ?e ?g" by (simp add: cols_hold_def)
  have live: "live = live_count ?g" "count_live cols = live"
    using live_count_columns[OF hold] count_live_columns[OF lens] by (simp_all add: live_def seg_slots_def)
  define st1 where "st1 = restore_evicted_columns s cols ?st"
  have st1: "st1 = ?st\<lparr> ss_exact_segment_cache := cache_remove s (ss_exact_segment_cache ?st), ss_live_counts := (ss_live_counts ?st)[s := live],
      ss_segments := (ss_segments ?st)[s := (if live = 0 then None else Some cols)], ss_evicted := ss_evicted ?st - {s} \<rparr>"
    by (simp add: st1_def restore_evicted_columns_def Let_def live(2))
  have zero: "live = 0 \<Longrightarrow> ?g = (\<lambda>_. EMPTY)" using live(1) live_count_0[of ?g] by simp
  have "geometry st1" using geo by (auto simp: st1 geometry_def)
  moreover have "segment_repr st1 ?F j" if "j < ss_num_segments ?st" for j
  proof (cases "j = s")
    case True
    then show ?thesis using hold zero live s(1) len by (auto simp: st1 segment_repr_def Let_def)
  next
    case False
    then show ?thesis using seg[OF that] by (simp add: st1 segment_repr_def Let_def cong: option.case_cong)
  qed
  moreover have "entries_ok (tree_entry st1 ?F) (cache_remove s (ss_exact_segment_cache ?st))"
    using cache_remove_ok[OF ent, of s] by (rule entries_ok_mono) (simp add: st1)
  ultimately have S1: "state_repr st1 ?F" using st by (simp add: state_repr_def st1)
  have "tree_entry st1 ?F s t" if "live \<noteq> 0"
    using that t(2) tree_of_cong[of ?e "column_slot cols" ?g t] hold s(1) len by (simp add: st1 cols_hold_def)
  then have "live \<noteq> 0 \<Longrightarrow> \<exists>c. cache_insert s t (ss_exact_segment_cache st1) = Some c \<and> entries_ok (tree_entry st1 ?F) c"
    using cache_insert_ok[of "tree_entry st1 ?F" "ss_exact_segment_cache st1" s t] S1 by (auto simp: state_repr_def)
  moreover have "ss_live_counts st1 ! s = live" "\<not> is_evicted st1 s" using s(1) len by (simp_all add: st1 is_evicted_def)
  moreover have "entries_ok (tree_entry st1 ?F) (ss_exact_segment_cache st1)" using S1 unfolding state_repr_def by blast
  ultimately have "\<exists>c. remember_exact_segment_tree s t st1 = Some (st1\<lparr> ss_exact_segment_cache := c \<rparr>) \<and> entries_ok (tree_entry st1 ?F) c"
    unfolding remember_exact_segment_tree_def
    by (cases "live = 0") (auto intro: exI[of _ "ss_exact_segment_cache st1"])
  then obtain c where c: "remember_exact_segment_tree s t st1 = Some (st1\<lparr> ss_exact_segment_cache := c \<rparr>)" "entries_ok (tree_entry st1 ?F) c"
    by blast
  then have cs'': "cs' = cs\<lparr> cs_state := st1\<lparr> ss_exact_segment_cache := c \<rparr> \<rparr>" using cs' by (simp add: st1_def)
  have "state_repr (st1\<lparr> ss_exact_segment_cache := c \<rparr>) ?F" using S1 c(2) by (simp add: state_repr_def)
  then show "chain_repr cs' u" using R by (simp add: cs'' chain_repr_def roots_current_def st1)
  show "ss_evicted (cs_state cs') = ss_evicted ?st - {s}" by (simp add: cs'' st1)
qed

section \<open>The invariant of the ledger\<close>

text \<open>Every live slot carries a non-zero creation id, allocator ids are at most the counter and
  pairwise distinct, and the active count is the number of live slots.\<close>

definition ids_ok :: "(nat \<Rightarrow> slot_value) \<Rightarrow> nat \<Rightarrow> bool" where
  "ids_ok F a \<longleftrightarrow>
    (\<forall>k. F k \<noteq> EMPTY \<longrightarrow> slot_creation_id (F k) \<noteq> 0 \<and>
      (\<not> is_coinbase_creation_id (slot_creation_id (F k)) \<longrightarrow> unat (slot_creation_id (F k)) \<le> a)) \<and>
    (\<forall>j k. F j \<noteq> EMPTY \<and> F k \<noteq> EMPTY \<and> slot_creation_id (F j) = slot_creation_id (F k) \<and>
      \<not> is_coinbase_creation_id (slot_creation_id (F k)) \<longrightarrow> j = k)"

definition utxo_inv :: "utxo \<Rightarrow> bool" where
  "utxo_inv u \<longleftrightarrow> u_alloc u < 2 ^ 63 \<and> finite {k. u_slots u k \<noteq> EMPTY} \<and>
    u_active u = live_count (u_slots u) \<and> ids_ok (u_slots u) (u_alloc u)"

lemma ids_ok_clear: "ids_ok F a \<Longrightarrow> ids_ok (F(k := EMPTY)) a"
  by (auto simp: ids_ok_def)

lemma is_coinbase_creation_id_tagged: "is_coinbase_creation_id (coinbase_creation_id h)"
  unfolding coinbase_tag_bit coinbase_creation_id_def COINBASE_CREATION_TAG_def
  by (simp only: bit_or_iff bit_push_bit_iff) simp

lemma ids_ok_fresh:
  assumes "ids_ok F a" "F k = EMPTY" "Suc a < 2 ^ 63"
    and "c = of_nat (Suc a) \<or> is_coinbase_creation_id c" "slot_creation_id v = c"
  shows "ids_ok (F(k := v)) (Suc a)" "v \<noteq> EMPTY"
proof -
  have u: "unat (of_nat (Suc a) :: u64) = Suc a" using assms(3) by (intro unat_of_nat_lt) simp
  have c: "c \<noteq> 0" "is_coinbase_creation_id c \<or> unat c = Suc a"
    using assms(4) u by (auto simp: is_coinbase_creation_id_def)
  then show "v \<noteq> EMPTY" using assms(5) by auto
  show "ids_ok (F(k := v)) (Suc a)"
    using assms(1,2,5) c unfolding ids_ok_def by (auto simp: le_Suc_eq)
qed

lemma spends_inv:
  assumes "distinct (map (\<lambda>x. in_slot_index (snd x)) xs)" "\<forall>(_, i) \<in> set xs. F (unat (in_slot_index i)) \<noteq> EMPTY"
    and "ids_ok F a" "finite {k. F k \<noteq> EMPTY}"
  shows "let G = write_map (map (\<lambda>(_, i). (in_slot_index i, EMPTY)) xs) F
    in ids_ok G a \<and> finite {k. G k \<noteq> EMPTY} \<and> live_count G + length xs = live_count F"
  using assms
proof (induction xs arbitrary: F)
  case (Cons x xs)
  obtain j i where x: "x = (j, i)" by (cases x)
  let ?k = "unat (in_slot_index i)"
  have live: "F ?k \<noteq> EMPTY" using Cons.prems(2) x by simp
  have "\<forall>(_, i') \<in> set xs. (F(?k := EMPTY)) (unat (in_slot_index i')) \<noteq> EMPTY"
    using Cons.prems(1,2) x by (auto simp: image_iff simp flip: word_unat_eq_iff)
  moreover have "finite {k. (F(?k := EMPTY)) k \<noteq> EMPTY}" by (rule finite_subset[OF _ Cons.prems(4)]) auto
  moreover have "live_count (F(?k := EMPTY)) + 1 = live_count F"
    using live_count_upd[OF Cons.prems(4), of ?k EMPTY] live live_count_0[OF Cons.prems(4)] by (cases "live_count F") auto
  ultimately show ?case
    using Cons.IH[of "F(?k := EMPTY)"] ids_ok_clear[OF Cons.prems(3), of ?k] Cons.prems(1) x
    by (simp add: Let_def del: fun_upd_apply)
qed simp

lemma mints_inv:
  assumes "distinct (map (\<lambda>x. out_slot_index (snd x)) xs)" "\<forall>(_, out) \<in> set xs. F (unat (out_slot_index out)) = EMPTY"
    and "ids_ok F a" "finite {k. F k \<noteq> EMPTY}" "a + length xs < 2 ^ 63"
  shows "let G = write_map (minted body h a xs) F
    in ids_ok G (a + length xs) \<and> finite {k. G k \<noteq> EMPTY} \<and> live_count G = live_count F + length xs"
  using assms
proof (induction xs arbitrary: F a)
  case (Cons x xs)
  obtain j out where x: "x = (j, out)" by (cases x)
  let ?k = "unat (out_slot_index out)"
  define c where "c = (if is_primary_coinbase_shape body then coinbase_creation_id (the h) else of_nat (Suc a))"
  define v where "v = with_owner_fields (out_amount out) c (digest_fields (out_owner out))"
  have k: "F ?k = EMPTY" using Cons.prems(2) x by simp
  have "c = of_nat (Suc a) \<or> is_coinbase_creation_id c" by (simp add: c_def is_coinbase_creation_id_tagged)
  note N = ids_ok_fresh[OF Cons.prems(3) k _ this, of v]
  have N: "ids_ok (F(?k := v)) (Suc a)" "v \<noteq> EMPTY" using N Cons.prems(5) by (simp_all add: v_def)
  have "\<forall>(_, o') \<in> set xs. (F(?k := v)) (unat (out_slot_index o')) = EMPTY"
    using Cons.prems(1,2) x by (auto simp: image_iff simp flip: word_unat_eq_iff)
  moreover have "finite {k. (F(?k := v)) k \<noteq> EMPTY}" by (rule finite_subset[of _ "insert ?k {k. F k \<noteq> EMPTY}"]) (use Cons.prems(4) in auto)
  moreover have "live_count (F(?k := v)) = Suc (live_count F)" using live_count_upd[OF Cons.prems(4), of ?k v] k N(2) by simp
  moreover have "minted body h a (x # xs) = (out_slot_index out, v) # minted body h (Suc a) xs" by (simp add: x v_def c_def)
  ultimately show ?case
    using Cons.IH[of "F(?k := v)" "Suc a"] N(1) Cons.prems(1,5) x by (simp add: Let_def del: fun_upd_apply minted.simps)
qed simp

lemma write_map_notin: "k \<notin> unat ` fst ` set ws \<Longrightarrow> write_map ws F k = F k"
  by (induction ws arbitrary: F) auto

text \<open>No input claims the all-zero value of an empty slot.\<close>

definition claims_live :: "tx_body \<Rightarrow> bool" where
  "claims_live body \<longleftrightarrow> (\<forall>(_, i) \<in> set (live_inputs body). claimed body i \<noteq> EMPTY)"

lemma accepts_input:
  "utxo_accepts u body h \<Longrightarrow> (j, i) \<in> set (live_inputs body) \<Longrightarrow>
    unat (in_slot_index i) < 2 ^ u_log u \<and> u_slots u (unat (in_slot_index i)) = claimed body i"
  unfolding utxo_accepts_def by fast

lemma accepts_output:
  "utxo_accepts u body h \<Longrightarrow> (j, out) \<in> set (live_outputs body) \<Longrightarrow>
    unat (out_slot_index out) < 2 ^ u_log u \<and> u_slots u (unat (out_slot_index out)) = EMPTY"
  unfolding utxo_accepts_def by fast

lemma utxo_after_inv:
  assumes inv: "utxo_inv u" and acc: "utxo_accepts u body h" and cl: "claims_live body"
  shows "utxo_inv (utxo_after u body h)"
proof -
  note A = acc[unfolded utxo_accepts_def live_input_slots_def live_output_slots_def]
  let ?F = "u_slots u" and ?xs = "live_inputs body" and ?ys = "live_outputs body"
  define G where "G = write_map (map (\<lambda>(_, i). (in_slot_index i, EMPTY)) ?xs) ?F"
  have "\<forall>(_, i) \<in> set ?xs. ?F (unat (in_slot_index i)) \<noteq> EMPTY" 
    using accepts_input[OF acc] cl unfolding claims_live_def by fastforce
  then have S: "ids_ok G (u_alloc u)" "finite {k. G k \<noteq> EMPTY}" "live_count G + length ?xs = live_count ?F"
    using spends_inv[of ?xs ?F "u_alloc u"] A inv by (simp_all add: G_def utxo_inv_def Let_def)
  have "G (unat (out_slot_index out)) = EMPTY" if "(j, out) \<in> set ?ys" for j out
  proof -
    have "out_slot_index out \<in> (\<lambda>x. out_slot_index (snd x)) ` set ?ys" using that by force
    then have "out_slot_index out \<notin> (\<lambda>x. in_slot_index (snd x)) ` set ?xs" using A by auto
    then have "unat (out_slot_index out) \<notin> unat ` fst ` set (map (\<lambda>(_, i). (in_slot_index i, EMPTY)) ?xs)"
      by (auto simp: image_iff simp flip: word_unat_eq_iff)
    then show ?thesis using accepts_output[OF acc that] unfolding G_def by (subst write_map_notin) auto
  qed
  then have M: "let H = write_map (minted body h (u_alloc u) ?ys) G
    in ids_ok H (u_alloc u + length ?ys) \<and> finite {k. H k \<noteq> EMPTY} \<and> live_count H = live_count G + length ?ys"
    using A S by (intro mints_inv) auto
  have "u_slots (utxo_after u body h) = write_map (minted body h (u_alloc u) ?ys) G"
    by (simp add: utxo_after_def utxo_deltas_def G_def)
  then show ?thesis using M S(3) A inv by (auto simp: utxo_inv_def utxo_after_def Let_def)
qed

section \<open>The engine with its storage\<close>

text \<open>
  The engine as a machine: a transaction is applied without sealing, the root is
  sealed, the state grows by one level, a clean segment is written to storage and
  dropped from memory, and a dropped segment is read back.  Storage is a map from
  segment ids to columns.
\<close>

type_synonym storage = "nat \<Rightarrow> segment_columns option"

inductive engine_step :: "chain_state \<times> storage \<Rightarrow> chain_state \<times> storage \<Rightarrow> bool" where
  step_tx: "wf_body body \<Longrightarrow> claims_live body \<Longrightarrow> apply_tx_checked_deferred_root body h cs = Some (Inr cs') \<Longrightarrow>
    engine_step (cs, d) (cs', d)"
| step_seal: "try_state_root cs = Some (Inr (root, cs')) \<Longrightarrow> engine_step (cs, d) (cs', d)"
| step_expand: "ss_log_slots (cs_state cs) < 32 \<Longrightarrow> engine_step (cs, d) (chain_expand_one cs, d)"
| step_evict: "s < ss_num_segments (cs_state cs) \<Longrightarrow> s \<notin> ss_exact_dirty (cs_state cs) \<Longrightarrow> ss_segments (cs_state cs) ! s = Some cols \<Longrightarrow>
    engine_step (cs, d) (cs\<lparr> cs_state := evict_segment s (cs_state cs) \<rparr>, d(s \<mapsto> cols))"
| step_restore: "s \<in> ss_evicted (cs_state cs) \<Longrightarrow> d s = Some cols \<Longrightarrow> restore_evicted_segment s cols cs = Some (Inr cs') \<Longrightarrow>
    engine_step (cs, d) (cs', d)"

inductive engine_reach :: "nat \<Rightarrow> chain_state \<times> storage \<Rightarrow> bool" for L where
  reach_start: "with_log_slots L = Some cs \<Longrightarrow> engine_reach L (cs, d)"
| reach_step: "engine_reach L s \<Longrightarrow> engine_step s t \<Longrightarrow> engine_reach L t"

definition disk_ok :: "nat set \<Rightarrow> utxo \<Rightarrow> storage \<Rightarrow> bool" where
  "disk_ok E u d \<longleftrightarrow> (\<forall>s \<in> E. \<exists>cols. d s = Some cols \<and> length (col_values cols) \<le> 2 ^ min (u_log u) 16 \<and>
    (length (col_values cols) = 2 ^ min (u_log u) 16 \<longrightarrow>
      cols_hold cols (min (u_log u) 16) (seg_slots (u_slots u) (min (u_log u) 16) s)))"

definition engine_inv :: "nat \<Rightarrow> chain_state \<times> storage \<Rightarrow> utxo \<Rightarrow> bool" where
  "engine_inv L cd u \<longleftrightarrow> chain_repr (fst cd) u \<and> utxo_inv u \<and> L \<le> u_log u \<and>
    disk_ok (ss_evicted (cs_state (fst cd))) u (snd cd) \<and>
    (16 \<le> L \<longrightarrow> (\<forall>s \<in> ss_evicted (cs_state (fst cd)). \<exists>cols. snd cd s = Some cols \<and> length (col_values cols) = 2 ^ 16))"

lemma chain_repr_eff: "chain_repr cs u \<Longrightarrow> ss_effective_log_seg (cs_state cs) = min (u_log u) 16"
  by (simp add: chain_repr_def state_repr_def geometry_def)

lemma no_tree_collision:
  assumes "\<forall>k < 2 ^ L. F k = G k"
  shows "\<not> tree_collision L F G"
proof -
  have "node_of (leaves_of F) l i = node_of (leaves_of G) l i" if "Suc i * 2 ^ l \<le> 2 ^ L" for l i
    by (rule node_of_cong) (use that assms in auto)
  moreover have "Suc (Suc (2 * i)) * 2 ^ l \<le> (2 :: nat) ^ L" "Suc (2 * i) * 2 ^ l \<le> (2 :: nat) ^ L" if "l < L" "i < 2 ^ (L - Suc l)" for l i
  proof -
    have "Suc (Suc (2 * i)) * 2 ^ l = Suc i * (2 :: nat) ^ Suc l" by simp
    also have "\<dots> \<le> 2 ^ (L - Suc l) * 2 ^ Suc l" using that(2) by (intro mult_le_mono1) simp
    also have "\<dots> = 2 ^ L" using that(1) by (simp only: power_add[symmetric]) simp
    finally show "Suc (Suc (2 * i)) * 2 ^ l \<le> (2 :: nat) ^ L" .
    then show "Suc (2 * i) * 2 ^ l \<le> (2 :: nat) ^ L" by simp
  qed
  ultimately show ?thesis using assms by (simp add: tree_collision_def)
qed

lemma untouched_segment:
  assumes "\<forall>i \<in> fst ` set ws. seg_id_of st i \<noteq> s"
  shows "seg_slots (write_map ws F) (ss_effective_log_seg st) s = seg_slots F (ss_effective_log_seg st) s"
proof
  fix k
  have "s * 2 ^ ss_effective_log_seg st + k \<notin> unat ` fst ` set ws" if "k < 2 ^ ss_effective_log_seg st"
  proof
    assume "s * 2 ^ ss_effective_log_seg st + k \<in> unat ` fst ` set ws"
    then obtain i where "i \<in> fst ` set ws" "unat i = s * 2 ^ ss_effective_log_seg st + k" by (metis imageE)
    then show False using assms that by (auto simp: seg_id_of_def)
  qed
  then show "seg_slots (write_map ws F) (ss_effective_log_seg st) s k = seg_slots F (ss_effective_log_seg st) s k"
    by (simp add: seg_slots_def write_map_notin)
qed

lemma tx_keeps_disk:
  assumes R: "chain_repr cs u" and ok: "apply_tx_checked_deferred_root body h cs = Some (Inr cs')" and acc: "utxo_accepts u body h"
    and D: "disk_ok (ss_evicted (cs_state cs)) u d"
  shows "disk_ok (ss_evicted (cs_state cs)) (utxo_after u body h) d"
proof -
  let ?st = "cs_state cs" and ?e = "min (u_log u) 16"
  have "\<exists>r. preflight_tx body h cs = Inr r"
    using ok by (cases "preflight_tx body h cs") (auto simp: apply_tx_checked_deferred_root_def)
  then have res: "touched_resident body cs" using preflight_resident by blast
  have L: "ss_log_slots ?st = u_log u" using R by (simp add: chain_repr_def)
  have "unat i < 2 ^ u_log u" if "i \<in> set (live_input_slots body @ live_output_slots body)" for i
    using that accepts_input[OF acc] accepts_output[OF acc] by (auto simp: live_input_slots_def live_output_slots_def)
  then have "\<forall>i \<in> set (map fst (utxo_deltas u body h)). seg_id_of ?st i \<notin> ss_evicted ?st"
    using res unfolding utxo_deltas_slots touched_resident_def num_slots_def is_evicted_def L by blast
  then have "seg_slots (u_slots (utxo_after u body h)) ?e s = seg_slots (u_slots u) ?e s" if "s \<in> ss_evicted ?st" for s
    using untouched_segment[of "utxo_deltas u body h" ?st s "u_slots u"] that chain_repr_eff[OF R] by (auto simp: utxo_after_def)
  then show ?thesis using D by (simp add: disk_ok_def utxo_after_def)
qed

lemma expand_keeps_disk:
  assumes "disk_ok E u d" "\<And>k. 2 ^ u_log u \<le> k \<Longrightarrow> u_slots u k = EMPTY"
  shows "disk_ok E (u\<lparr> u_log := Suc (u_log u) \<rparr>) d"
proof (cases "u_log u < 16")
  case True
  have "length (col_values cols) \<le> 2 ^ u_log u \<Longrightarrow> length (col_values cols) < 2 ^ Suc (u_log u)" for cols :: segment_columns
    by (rule le_less_trans) auto
  then show ?thesis using assms(1) True unfolding disk_ok_def by (fastforce simp: min_def)
next
  case False
  then show ?thesis using assms(1) by (simp add: disk_ok_def)
qed

lemma restore_complete:
  assumes R: "chain_repr cs u" and s: "s \<in> ss_evicted (cs_state cs)"
    and h: "cols_hold cols (min (u_log u) 16) (seg_slots (u_slots u) (min (u_log u) 16) s)"
  shows "\<exists>cs'. restore_evicted_segment s cols cs = Some (Inr cs')"
proof -
  let ?st = "cs_state cs" and ?e = "min (u_log u) 16"
  have geo: "geometry ?st" and st: "state_repr ?st (u_slots u)" and e: "ss_effective_log_seg ?st = ?e"
    using R chain_repr_eff[OF R] by (auto simp: chain_repr_def state_repr_def)
  have n: "s < ss_num_segments ?st" "s \<notin> ss_exact_dirty ?st" "length (ss_live_counts ?st) = ss_num_segments ?st"
    using geo s by (auto simp: geometry_def)
  have rc: "roots_current cs (u_slots u) (ss_exact_dirty ?st)" using R by (simp add: chain_repr_def)
  have lens: "length (col_values cols) = 2 ^ ?e" "length (col_owners_hi cols) = 2 ^ ?e" "length (col_owners_lo cols) = 2 ^ ?e"
    using h by (simp_all add: cols_hold_def)
  obtain t where t: "from_columns ?e cols = Some t" "tree_of t ?e (column_slot cols)" using from_columns_ok[OF lens] by blast
  have "tree_of t ?e (seg_slots (u_slots u) ?e s)"
    using t(2) h tree_of_cong[of ?e "column_slot cols" "seg_slots (u_slots u) ?e s" t] by (simp add: cols_hold_def)
  then have "rc_segment_roots (cs_exact_roots cs) ! s = tree_root t"
    using rc n(1,2) tree_of_root e by (simp add: roots_current_def)
  moreover have "s < length (rc_segment_roots (cs_exact_roots cs))" using roots_current_geometry[OF geo rc] n(1) by simp
  moreover have "ss_live_counts ?st ! s = length (filter (\<lambda>k. \<not> slot_is_empty (column_slot cols k)) [0..<2 ^ ?e])"
    using st n(1) live_count_columns[OF h] e by (auto simp: state_repr_def segment_repr_def Let_def seg_slots_def)
  moreover have "\<exists>st'. remember_exact_segment_tree s t (restore_evicted_columns s cols ?st) = Some st'"
  proof -
    have "entries_ok (\<lambda>_ _. True) (ss_exact_segment_cache ?st)"
      using st unfolding state_repr_def by (auto intro: entries_ok_mono)
    then have "entries_ok (\<lambda>j t. True \<and> j \<noteq> s) (cache_remove s (ss_exact_segment_cache ?st))" by (rule cache_remove_ok)
    then have "entries_ok (\<lambda>_ _. True) (cache_remove s (ss_exact_segment_cache ?st))" by (rule entries_ok_mono) simp
    then show ?thesis
      using cache_insert_ok[of "\<lambda>_ _. True" "cache_remove s (ss_exact_segment_cache ?st)" s t]
      by (auto simp: remember_exact_segment_tree_def restore_evicted_columns_def Let_def)
  qed
  ultimately show ?thesis using lens t(1) n e by (auto simp: restore_evicted_segment_def Let_def)
qed

lemma engine_step_inv:
  assumes "engine_step s t" "engine_inv L s u"
  shows "\<exists>u'. engine_inv L t u'"
  using assms
proof (induction rule: engine_step.induct)
  case (step_tx body h cs cs' d)
  then have R: "chain_repr cs u" and inv: "utxo_inv u" by (simp_all add: engine_inv_def)
  note S = deferred_success[OF R step_tx.hyps(1,3)]
  have "utxo_inv (utxo_after u body h)" by (rule utxo_after_inv[OF inv S(1) step_tx.hyps(2)])
  moreover have "disk_ok (ss_evicted (cs_state cs)) (utxo_after u body h) d"
    using step_tx.prems by (intro tx_keeps_disk[OF R step_tx.hyps(3) S(1)]) (simp add: engine_inv_def)
  ultimately show ?case using S(2,3) step_tx.prems by (auto simp: engine_inv_def utxo_after_def)
next
  case (step_seal cs root cs' d)
  then have "chain_repr cs u" by (simp add: engine_inv_def)
  from try_state_root_repr[OF this] step_seal show ?case by (auto simp: engine_inv_def)
next
  case (step_expand cs d)
  then have R: "chain_repr cs u" by (simp add: engine_inv_def)
  then have L: "u_log u < 32" and top: "\<And>k. 2 ^ u_log u \<le> k \<Longrightarrow> u_slots u k = EMPTY"
    using step_expand.hyps by (auto simp: chain_repr_def state_repr_def)
  have "utxo_inv (u\<lparr> u_log := Suc (u_log u) \<rparr>)" using step_expand.prems by (simp add: engine_inv_def utxo_inv_def)
  moreover have "disk_ok (ss_evicted (cs_state cs)) (u\<lparr> u_log := Suc (u_log u) \<rparr>) d"
    using step_expand.prems top by (intro expand_keeps_disk) (auto simp: engine_inv_def)
  ultimately have "engine_inv L (chain_expand_one cs, d) (u\<lparr> u_log := Suc (u_log u) \<rparr>)"
    using chain_expand_repr[OF R L] step_expand.prems by (simp add: engine_inv_def)
  then show ?case by blast
next
  case (step_evict s cs cols d)
  then have R: "chain_repr cs u" by (simp add: engine_inv_def)
  then have st: "state_repr (cs_state cs) (u_slots u)" by (simp add: chain_repr_def)
  have "s \<notin> ss_evicted (cs_state cs)"
    using st step_evict.hyps(1,3) by (auto simp: state_repr_def segment_repr_def Let_def)
  then have hold: "cols_hold cols (min (u_log u) 16) (seg_slots (u_slots u) (min (u_log u) 16) s)"
    using st step_evict.hyps(1,3) chain_repr_eff[OF R] by (auto simp: state_repr_def segment_repr_def Let_def)
  have "length (col_values cols) = 2 ^ 16" if "16 \<le> L"
  proof -
    have "min (u_log u) 16 = 16" using that step_evict.prems by (simp add: engine_inv_def)
    then show ?thesis using hold by (simp add: cols_hold_def)
  qed
  moreover have "ss_evicted (evict_segment s (cs_state cs)) = insert s (ss_evicted (cs_state cs))"
    using step_evict.hyps(3) by (simp add: evict_segment_def Let_def)
  moreover have "disk_ok (insert s (ss_evicted (cs_state cs))) u (d(s \<mapsto> cols))"
    using step_evict.prems hold by (auto simp: engine_inv_def disk_ok_def cols_hold_def)
  ultimately show ?case
    using evict_repr[OF R step_evict.hyps(1,2)] step_evict.prems by (intro exI[of _ u]) (auto simp: engine_inv_def)
next
  case (step_restore s cs d cols cs')
  then have R: "chain_repr cs u" and D: "disk_ok (ss_evicted (cs_state cs)) u d" by (simp_all add: engine_inv_def)
  let ?e = "ss_effective_log_seg (cs_state cs)"
  have e: "?e = min (u_log u) 16" by (rule chain_repr_eff[OF R])
  have n: "s < ss_num_segments (cs_state cs)" using R step_restore.hyps(1) by (auto simp: chain_repr_def state_repr_def geometry_def)
  have "length (col_values cols) = 2 ^ ?e"
    using step_restore.hyps(3) by (auto simp: restore_evicted_segment_def Let_def split: if_splits)
  then have "cols_hold cols ?e (seg_slots (u_slots u) ?e s)" using D step_restore.hyps(1,2) e by (auto simp: disk_ok_def)
  then have nc: "\<not> tree_collision ?e (column_slot cols) (seg_slots (u_slots u) ?e s)"
    by (intro no_tree_collision) (simp add: cols_hold_def)
  note S = restore_repr[OF R n step_restore.hyps(1,3) nc]
  show ?case using S(1,3) step_restore.prems by (intro exI[of _ u]) (auto simp: engine_inv_def disk_ok_def)
qed

lemma engine_reach_inv:
  assumes "engine_reach L s" "1 \<le> L" "L \<le> 32"
  shows "\<exists>u. engine_inv L s u"
  using assms(1)
proof (induction rule: engine_reach.induct)
  case (reach_start cs d)
  then have "chain_repr cs (empty_ledger L)" "ss_evicted (cs_state cs) = {}" using with_log_slots_repr[OF assms(2,3)] by auto
  moreover have "utxo_inv (empty_ledger L)" by (simp add: utxo_inv_def empty_ledger_def ids_ok_def)
  ultimately show ?case by (intro exI[of _ "empty_ledger L"]) (simp add: engine_inv_def disk_ok_def empty_ledger_def)
next
  case (reach_step s t)
  then show ?case using engine_step_inv by blast
qed

section \<open>Properties\<close>

definition example_mint :: tx_body where
  "example_mint =
    \<lparr> epoch_anchor = replicate 32 3, fee = 0, input_owner = zero_digest,
      inputs = [dummy_input, dummy_input, dummy_input, dummy_input, dummy_input, dummy_input, dummy_input, dummy_input],
      outputs = [\<lparr> out_slot_index = 9, out_amount = 900, out_owner = replicate 32 2 \<rparr>, dummy_output],
      validity_bitmap = 0x100, is_coinbase = True \<rparr>"

lemma wf_example_mint: "wf_body example_mint"
  by (simp add: example_mint_def wf_simps dummy_output_def TX_INPUTS_def TX_OUTPUTS_def zero_digest_def)

lemma live_example_mint:
  "live_inputs example_mint = []"
  "live_outputs example_mint = [(0, \<lparr> out_slot_index = 9, out_amount = 900, out_owner = replicate 32 2 \<rparr>)]"
  by (simp_all add: live_inputs_def live_outputs_def input_is_live_iff output_is_live_iff example_mint_def)

lemma canonical_example_mint: "canonical_body example_mint"
proof -
  have "\<forall>i. bit (validity_bitmap example_mint) i \<longrightarrow> i < 10"
    unfolding high_bits_clear_iff[symmetric] by (simp add: example_mint_def TX_VALIDITY_MASK_def)
  moreover have "dead_lanes_zero example_mint"
    by (simp add: dead_lanes_zero_def example_mint_def TX_INPUTS_def TX_OUTPUTS_def input_is_live_iff
        output_is_live_iff eval_nat_numeral All_less_Suc2 All_less_Suc)
  ultimately show ?thesis
    by (simp add: canonical_body_def live_example_mint live_input_slots_def live_output_slots_def
        canonical_mint_def output_is_live_iff TX_INPUTS_def TX_OUTPUTS_def)
      (simp add: example_mint_def)
qed

lemma accepts_example_mint: "9 < (2 :: nat) ^ L \<Longrightarrow> utxo_accepts (empty_ledger L) example_mint (Some 1)"
  by (simp add: utxo_accepts_def empty_ledger_def live_example_mint live_input_slots_def live_output_slots_def)

lemma touched_example_mint: "ss_evicted (cs_state cs) = {} \<Longrightarrow> touched_resident example_mint cs"
  by (simp add: touched_resident_def is_evicted_def)

text \<open>
  C6: The state engine refines the ledger.  Started in a state that represents a
  ledger, with the touched segments in memory, applying a well-formed transaction
  never panics; it succeeds exactly when the ledger allows the transaction, and then
  the new state represents the updated ledger and the returned root is the root of
  the dense tree over the updated slots.
\<close>

theorem apply_tx_refines:
  assumes "chain_repr cs u" "wf_body body" "touched_resident body cs"
  shows "if utxo_accepts u body h
    then \<exists>cs'. apply_tx_inner body h cs = Some (Inr (utxo_root (utxo_after u body h), cs')) \<and> chain_repr cs' (utxo_after u body h)
    else \<exists>e. apply_tx_inner body h cs = Some (Inl e)"
  using apply_tx_refines_aux[OF assms, of h] by auto

theorem apply_tx_refines_witness:
  "\<exists>cs cs'. with_log_slots 4 = Some cs \<and> apply_tx_inner example_mint (Some 1) cs =
    Some (Inr (utxo_root (utxo_after (empty_ledger 4) example_mint (Some 1)), cs'))"
proof -
  obtain cs where cs: "with_log_slots 4 = Some cs" "chain_repr cs (empty_ledger 4)" "ss_evicted (cs_state cs) = {}"
    using with_log_slots_repr[of 4] by auto
  from apply_tx_refines[OF cs(2) wf_example_mint touched_example_mint[OF cs(3)], of "Some 1"] accepts_example_mint[of 4] cs(1)
  show ?thesis by auto
qed

text \<open>
  C7: Money is conserved.  After a canonical spend the circulating supply is lower by
  exactly the fee, after a mint it is higher by exactly the minted outputs; before
  and after it is the sum of the amounts of all slots.
\<close>

theorem supply_conserved:
  assumes "chain_repr cs u" "wf_body body" "validate_body_semantics_no_hash body = Inr ()"
    and "apply_tx_inner body h cs = Some (Inr (root, cs'))"
  shows "unat (cs_circulating_supply_micronoid cs) = slot_total (u_log u) (u_slots u) \<and>
    unat (cs_circulating_supply_micronoid cs') = slot_total (u_log u) (u_slots (utxo_after u body h)) \<and>
    (if is_coinbase body then unat (cs_circulating_supply_micronoid cs') = unat (cs_circulating_supply_micronoid cs) + output_total body
     else unat (cs_circulating_supply_micronoid cs') + unat (fee body) = unat (cs_circulating_supply_micronoid cs))"
proof -
  note S = apply_success[OF assms(1,2,4)]
  have can: "canonical_body body" using validate_canonical_body_iff[OF assms(2)] assms(3) by simp
  have "is_coinbase body \<Longrightarrow> input_total body = 0"
    using can by (simp add: canonical_body_def canonical_mint_def input_total_def)
  moreover have "\<not> is_coinbase body \<Longrightarrow> input_total body = output_total body + unat (fee body)"
    using can by (simp add: canonical_body_def canonical_spend_def)
  ultimately show ?thesis
    using supply_change[OF S(1)] assms(1) S(2) by (auto simp: chain_repr_def utxo_after_def)
qed

theorem supply_conserved_witness:
  "\<exists>cs root cs'. with_log_slots 4 = Some cs \<and> apply_tx_inner example_mint (Some 1) cs = Some (Inr (root, cs')) \<and>
    unat (cs_circulating_supply_micronoid cs') = unat (cs_circulating_supply_micronoid cs) + 900"
proof -
  obtain cs where cs: "with_log_slots 4 = Some cs" "chain_repr cs (empty_ledger 4)" "ss_evicted (cs_state cs) = {}"
    using with_log_slots_repr[of 4] by auto
  obtain root cs' where ok: "apply_tx_inner example_mint (Some 1) cs = Some (Inr (root, cs'))"
    using apply_tx_refines_aux(1)[OF cs(2) wf_example_mint touched_example_mint[OF cs(3)] accepts_example_mint] by force
  have "validate_body_semantics_no_hash example_mint = Inr ()"
    using validate_canonical_body_iff[OF wf_example_mint] canonical_example_mint by simp
  from supply_conserved[OF cs(2) wf_example_mint this ok]
  have "unat (cs_circulating_supply_micronoid cs') = unat (cs_circulating_supply_micronoid cs) + output_total example_mint"
    by (simp add: example_mint_def)
  then show ?thesis using cs(1) ok by (auto simp: output_total_def live_example_mint)
qed

text \<open>
  C5: In every state the engine can reach from an empty state, whatever the order of
  transactions with live claims, seals, growth, evictions and restores, the columns represent one
  slot map, the active count is the number of its live slots, the supply is its
  sum, every live slot has a non-zero creation id, allocator ids never exceed the
  counter and never repeat, and a sealed root is the root of the dense tree.
\<close>

theorem engine_invariant:
  assumes "engine_reach L (cs, d)" "1 \<le> L" "L \<le> 32"
  shows "\<exists>F. state_repr (cs_state cs) F \<and> unat (cs_active_slot_count cs) = live_count F \<and>
    unat (cs_circulating_supply_micronoid cs) = slot_total (ss_log_slots (cs_state cs)) F \<and>
    ids_ok F (unat (cs_alloc_counter cs)) \<and> unat (cs_alloc_counter cs) < 2 ^ 63 \<and>
    (ss_exact_dirty (cs_state cs) = {} \<longrightarrow> cs_utxo_root cs = node_of (leaves_of F) (ss_log_slots (cs_state cs)) 0)"
proof -
  obtain u where "engine_inv L (cs, d) u" using engine_reach_inv[OF assms] by blast
  then show ?thesis by (intro exI[of _ "u_slots u"]) (simp add: engine_inv_def chain_repr_def utxo_inv_def)
qed

theorem engine_invariant_witness:
  "\<exists>cs cs' F. with_log_slots 4 = Some cs \<and> apply_tx_checked_deferred_root example_mint (Some 1) cs = Some (Inr cs') \<and>
    state_repr (cs_state cs') F \<and> unat (cs_active_slot_count cs') = live_count F"
proof -
  obtain cs where cs: "with_log_slots 4 = Some cs" "chain_repr cs (empty_ledger 4)" "ss_evicted (cs_state cs) = {}"
    using with_log_slots_repr[of 4] by auto
  obtain cs' where ok: "apply_tx_checked_deferred_root example_mint (Some 1) cs = Some (Inr cs')"
    using deferred_refines(1)[OF cs(2) wf_example_mint touched_example_mint[OF cs(3)] accepts_example_mint] by force
  have "engine_step (cs, \<lambda>_. None) (cs', \<lambda>_. None)"
    by (rule step_tx[OF wf_example_mint _ ok]) (simp add: claims_live_def live_example_mint)
  then have "engine_reach 4 (cs', \<lambda>_. None)" using reach_start[OF cs(1)] reach_step by blast
  from engine_invariant[OF this] show ?thesis using cs(1) ok by auto
qed

text \<open>
  C34: A segment read back from storage is authenticated: if the engine accepts the
  columns for an evicted segment, then either they hold exactly the slots of the
  ledger and the engine represents the same ledger with the segment in memory, or
  the columns exhibit a hash collision with the true segment.
\<close>

theorem restore_authenticated:
  assumes "chain_repr cs u" "s \<in> ss_evicted (cs_state cs)" "restore_evicted_segment s cols cs = Some (Inr cs')"
  shows "cols_hold cols (ss_effective_log_seg (cs_state cs)) (seg_slots (u_slots u) (ss_effective_log_seg (cs_state cs)) s) \<and>
      chain_repr cs' u \<and> ss_evicted (cs_state cs') = ss_evicted (cs_state cs) - {s} \<or>
    tree_collision (ss_effective_log_seg (cs_state cs)) (column_slot cols) (seg_slots (u_slots u) (ss_effective_log_seg (cs_state cs)) s)"
proof -
  have "s < ss_num_segments (cs_state cs)" using assms(1,2) by (auto simp: chain_repr_def state_repr_def geometry_def)
  then show ?thesis using restore_repr[OF assms(1) _ assms(2,3)] by blast
qed

text \<open>A reachable state with its first segment in storage.\<close>

lemma example_evicted:
  assumes "4 \<le> L" "L \<le> 16"
  shows "\<exists>cs d u cols. engine_reach L (cs, d) \<and> chain_repr cs u \<and> 0 \<in> ss_evicted (cs_state cs) \<and>
    u_log u = L \<and> d 0 = Some cols \<and> cols_hold cols (min (u_log u) 16) (seg_slots (u_slots u) (min (u_log u) 16) 0)"
proof -
  have "(2 :: nat) ^ 4 \<le> 2 ^ L" using assms(1) by (intro power_increasing) auto
  then have nine: "9 < (2 :: nat) ^ L" by simp
  let ?u = "utxo_after (empty_ledger L) example_mint (Some 1)"
  obtain cs where cs: "with_log_slots L = Some cs" "chain_repr cs (empty_ledger L)" "ss_evicted (cs_state cs) = {}"
    using with_log_slots_repr[of L] assms by auto
  obtain cs1 where cs1: "apply_tx_checked_deferred_root example_mint (Some 1) cs = Some (Inr cs1)" "chain_repr cs1 ?u" "ss_evicted (cs_state cs1) = {}"
    using deferred_refines(1)[OF cs(2) wf_example_mint touched_example_mint[OF cs(3)] accepts_example_mint[OF nine]] cs(3) by auto
  obtain cs2 where cs2: "try_state_root cs1 = Some (Inr (utxo_root ?u, cs2))" "chain_repr cs2 ?u" "ss_exact_dirty (cs_state cs2) = {}" "ss_evicted (cs_state cs2) = {}"
    using try_state_root_repr[OF cs1(2)] cs1(3) by auto
  have e: "ss_effective_log_seg (cs_state cs2) = L" "u_log ?u = L"
    using chain_repr_eff[OF cs2(2)] assms(2) by (simp_all add: utxo_after_def empty_ledger_def)
  have n: "0 < ss_num_segments (cs_state cs2)" using cs2(2) by (simp add: chain_repr_def state_repr_def geometry_def)
  have seg: "segment_repr (cs_state cs2) (u_slots ?u) 0" using cs2(2) n by (simp add: chain_repr_def state_repr_def)
  have "seg_slots (u_slots ?u) L 0 9 \<noteq> EMPTY"
  proof
    assume "seg_slots (u_slots ?u) L 0 9 = EMPTY"
    then have "slot_amount (seg_slots (u_slots ?u) L 0 9) = 0" by simp
    then show False
      using nine by (simp add: seg_slots_def utxo_after_def utxo_deltas_def live_example_mint empty_ledger_def)
  qed
  then obtain cols where cols: "ss_segments (cs_state cs2) ! 0 = Some cols" "cols_hold cols L (seg_slots (u_slots ?u) L 0)"
    using seg cs2(4) e by (auto simp: segment_repr_def Let_def split: option.splits)
  let ?cs = "cs2\<lparr> cs_state := evict_segment 0 (cs_state cs2) \<rparr>"
  have "engine_step (cs, \<lambda>_. None) (cs1, \<lambda>_. None)"
    by (rule step_tx[OF wf_example_mint _ cs1(1)]) (simp add: claims_live_def live_example_mint)
  moreover have "engine_step (cs1, \<lambda>_. None) (cs2, \<lambda>_. None)" by (rule step_seal[OF cs2(1)])
  moreover have "engine_step (cs2, \<lambda>_. None) (?cs, [0 \<mapsto> cols])" using n cs2(3) cols(1) by (intro step_evict) auto
  ultimately have "engine_reach L (?cs, [0 \<mapsto> cols])" using reach_start[OF cs(1)] reach_step by blast
  moreover have "chain_repr ?cs ?u" using n cs2(3) by (intro evict_repr[OF cs2(2)]) auto
  moreover have "0 \<in> ss_evicted (cs_state ?cs)" using cols(1) by (simp add: evict_segment_def Let_def)
  moreover have "min (u_log ?u) 16 = L" using e(2) assms(2) by simp
  ultimately show ?thesis using cols(2) e(2) by (intro exI[of _ ?cs] exI[of _ "[0 \<mapsto> cols]"] exI[of _ ?u] exI[of _ cols]) auto
qed

theorem restore_authenticated_witness:
  "\<exists>cs cols cs' u. chain_repr cs u \<and> 0 \<in> ss_evicted (cs_state cs) \<and> restore_evicted_segment 0 cols cs = Some (Inr cs') \<and>
    (chain_repr cs' u \<and> 0 \<notin> ss_evicted (cs_state cs') \<or>
      tree_collision (ss_effective_log_seg (cs_state cs)) (column_slot cols) (seg_slots (u_slots u) (ss_effective_log_seg (cs_state cs)) 0))"
proof -
  obtain cs d u cols where c: "chain_repr cs u" "0 \<in> ss_evicted (cs_state cs)"
    "cols_hold cols (min (u_log u) 16) (seg_slots (u_slots u) (min (u_log u) 16) 0)" using example_evicted[of 16] by fastforce
  obtain cs' where r: "restore_evicted_segment 0 cols cs = Some (Inr cs')" using restore_complete[OF c] by blast
  from restore_authenticated[OF c(1,2) r] r c(1,2) show ?thesis by blast
qed



end
