(* ===== verification/ExactTransition.thy ===== *)
theory ExactTransition
  imports Ledger
begin

text \<open>
  The two paths of \<open>state.rs\<close> by which a verified block reaches the state engine: the
  sibling frontier of a set of slots, read from the hot trees, the columns and the
  compact root tree without a global node map (\<open>exact_frontier_siblings\<close>), and the
  child root and child state of a batch of slot updates, with or without one level
  of growth (\<open>exact_utxo_root_after_slot_updates\<close>, \<open>apply_verified_exact_transition\<close>).
  The frontier is shown to verify against the root of the ledger and to predict the
  root of every update, and the transition to represent the updated ledger.
\<close>

section \<open>Sibling frontier\<close>

datatype exact_frontier_error =
    EfSparseMerkle sparse_merkle_error
  | EfExactStateRead exact_state_read_error
  | EfCompactRootMismatch

definition frontier_node :: "chain_state \<Rightarrow> frontier_sibling_position \<Rightarrow> (exact_frontier_error, digest) outcome" where
  "frontier_node cs = (\<lambda>(level, node_index).
    let effective_log = ss_effective_log_seg (cs_state cs)
    in if level \<ge> effective_log
       then Some (ok_or EfCompactRootMismatch (segment_node_hash (level - effective_log) node_index (cs_exact_roots cs)))
       else
         let nodes_per_segment_shift = effective_log - level;
             segment_id = node_index div 2 ^ nodes_per_segment_shift mod 2 ^ 16
         in if is_evicted (cs_state cs) segment_id then Some (Inl (EfExactStateRead (EvictedSegment (of_nat segment_id))))
            else
              let local_node = node_index mod 2 ^ nodes_per_segment_shift
              in case Option.bind (cache_get segment_id (ss_exact_segment_cache (cs_state cs))) (\<lambda>tree. subtree_root tree level local_node) of
                   Some root \<Rightarrow> Some (Inr root)
                 | None \<Rightarrow> map_option Inr (exact_local_subtree_root (ss_segments (cs_state cs) ! segment_id) (local_node * 2 ^ level) level))"

fun frontier_nodes :: "chain_state \<Rightarrow> frontier_sibling_position list \<Rightarrow> (exact_frontier_error, digest list) outcome" where
  "frontier_nodes cs [] = Some (Inr [])"
| "frontier_nodes cs (position # positions) =
    bind_out (frontier_node cs position) (\<lambda>root. bind_out (frontier_nodes cs positions) (\<lambda>siblings. Some (Inr (root # siblings))))"

definition exact_frontier_siblings :: "u32 list \<Rightarrow> u32 \<Rightarrow> chain_state \<Rightarrow> (exact_frontier_error, digest list) outcome" where
  "exact_frontier_siblings touched_indices depth cs =
    (if unat depth \<noteq> ss_log_slots (cs_state cs) \<or> rc_log_slots (cs_exact_roots cs) \<noteq> ss_log_slots (cs_state cs)
     then Some (Inl (EfSparseMerkle (CacheDepthMismatch (of_nat (rc_log_slots (cs_exact_roots cs))) depth)))
     else if ss_exact_dirty (cs_state cs) \<noteq> {} \<or> root_cache_root (cs_exact_roots cs) \<noteq> cs_utxo_root cs
     then Some (Inl EfCompactRootMismatch)
     else bind_out (Some (map_err EfSparseMerkle (frontier_sibling_positions touched_indices depth))) (frontier_nodes cs))"

section \<open>The child root of a batch of updates\<close>

text \<open>Both levels of the nested ordered map are ascending association lists.\<close>

definition add_update :: "nat \<Rightarrow> u32 \<Rightarrow> slot_value \<Rightarrow> (nat \<times> (nat \<times> slot_value) list) list \<Rightarrow> (nat \<times> (nat \<times> slot_value) list) list" where
  "add_update effective_log index value groups =
    (let segment_id = unat index div 2 ^ effective_log; loc = unat index mod 2 ^ effective_log
     in bt_insert segment_id (bt_insert loc value (case map_of groups segment_id of None \<Rightarrow> [] | Some us \<Rightarrow> us)) groups)"

fun group_updates :: "nat \<Rightarrow> nat \<Rightarrow> (u32 \<times> slot_value) list \<Rightarrow> (nat \<times> (nat \<times> slot_value) list) list
    \<Rightarrow> apply_exact_transition_error + (nat \<times> (nat \<times> slot_value) list) list" where
  "group_updates target_slots effective_log [] groups = Inr groups"
| "group_updates target_slots effective_log ((index, value) # slot_updates) groups =
    (if unat index \<ge> target_slots then Inl AtSlotOutOfRange
     else group_updates target_slots effective_log slot_updates (add_update effective_log index value groups))"

text \<open>Local dirt is refreshed in a copy of the compact roots; \<open>ids\<close> is the order in which the
  dirty set is read.\<close>

fun refresh_copy :: "segmented_state \<Rightarrow> nat list \<Rightarrow> exact_segment_root_cache
    \<Rightarrow> (apply_exact_transition_error, exact_segment_root_cache) outcome" where
  "refresh_copy st [] roots = Some (Inr roots)"
| "refresh_copy st (segment_id # ids) roots =
    (if is_evicted st segment_id then Some (Inl (AtExactStateRead (EvictedSegment (of_nat segment_id))))
     else case (case cache_get segment_id (ss_exact_segment_cache st) of
                  Some tree \<Rightarrow> Some (tree_root tree)
                | None \<Rightarrow> exact_segment_root_with_updates (ss_effective_log_seg st) (ss_segments st ! segment_id) Map.empty) of
            None \<Rightarrow> None
          | Some root \<Rightarrow> refresh_copy st ids (set_segment_root segment_id root roots))"

fun overlay_segments :: "segmented_state \<Rightarrow> nat \<Rightarrow> (nat \<times> (nat \<times> slot_value) list) list \<Rightarrow> exact_segment_root_cache
    \<Rightarrow> (apply_exact_transition_error, exact_segment_root_cache) outcome" where
  "overlay_segments st effective_log [] roots = Some (Inr roots)"
| "overlay_segments st effective_log ((segment_id, local_updates) # groups) roots =
    (if segment_id < ss_num_segments st \<and> is_evicted st segment_id
     then Some (Inl (AtExactStateRead (EvictedSegment (of_nat segment_id))))
     else
       let columns = (if segment_id \<ge> ss_num_segments st then None else ss_segments st ! segment_id);
           streamed = exact_segment_root_with_updates effective_log columns (\<lambda>k. map_of local_updates (unat k))
       in case (case cache_get segment_id (ss_exact_segment_cache st) of
                  Some tree \<Rightarrow> if st_log_slots tree = effective_log then root_with_updates local_updates tree else streamed
                | None \<Rightarrow> streamed) of
            None \<Rightarrow> None
          | Some root \<Rightarrow> overlay_segments st effective_log groups (set_segment_root segment_id root roots))"

definition exact_utxo_root_after_slot_updates :: "u32 \<Rightarrow> (u32 \<times> slot_value) list \<Rightarrow> chain_state
    \<Rightarrow> (apply_exact_transition_error, digest) outcome" where
  "exact_utxo_root_after_slot_updates log_slots slot_updates cs =
    (let st = cs_state cs; current_depth = ss_log_slots st; target = unat log_slots
     in if target < current_depth \<or> target > min (current_depth + 1) (2 ^ 32 - 1) then Some (Inl AtHeaderLogSlotsMismatch)
        else
          bind_out (Some (ok_or AtHeaderLogSlotsMismatch (checked_shl_one target))) (\<lambda>target_slots.
          let target_effective_log = min target (unat LOG_SEGMENT_SIZE)
          in bind_out (Some (group_updates target_slots target_effective_log slot_updates [])) (\<lambda>updates_by_segment.
             bind_out (refresh_copy st (sorted_list_of_set (ss_exact_dirty st)) (cs_exact_roots cs)) (\<lambda>exact_roots.
             if root_cache_root exact_roots \<noteq> cs_utxo_root cs then Some (Inl AtCachedRootMismatch)
             else
               let exact_roots = (if target > current_depth then root_cache_expand exact_roots else exact_roots)
               in bind_out (overlay_segments st target_effective_log updates_by_segment exact_roots) (\<lambda>exact_roots.
                    Some (Inr (root_cache_root exact_roots)))))))"

section \<open>Applying a verified transition\<close>

text \<open>Growth above one segment without touching raw commitments; below that depth it is an error.\<close>

definition expand_exact_metadata_for_replay :: "chain_state \<Rightarrow> unit + chain_state" where
  "expand_exact_metadata_for_replay cs =
    (let st = cs_state cs; old_log_slots = ss_log_slots st; n = ss_num_segments st;
         empty_right = zero_slot_roots old_log_slots ! old_log_slots
     in if ss_effective_log_seg st \<noteq> unat LOG_SEGMENT_SIZE \<or> old_log_slots \<ge> 32 then Inl ()
        else Inr (cs\<lparr> cs_state := st\<lparr> ss_log_slots := old_log_slots + 1, ss_num_segments := n * 2,
                ss_segments := ss_segments st @ replicate n None, ss_live_counts := ss_live_counts st @ replicate n 0 \<rparr>,
              cs_exact_roots := root_cache_expand (cs_exact_roots cs),
              cs_utxo_root := state_node_hash (cs_utxo_root cs) empty_right \<rparr>))"

definition apply_verified_exact_transition :: "u32 \<Rightarrow> digest \<Rightarrow> (u32 \<times> slot_value) list \<Rightarrow> u64 \<Rightarrow> u64 \<Rightarrow> chain_state
    \<Rightarrow> (apply_exact_transition_error, digest \<times> chain_state) outcome" where
  "apply_verified_exact_transition log_slots child_state_root slot_updates active_slot_count alloc_counter cs =
    (let current_log_slots = ss_log_slots (cs_state cs); target = unat log_slots
     in if target < current_log_slots \<or> target > current_log_slots + 1 then Some (Inl AtHeaderLogSlotsMismatch)
        else
          bind_out (Some (ok_or AtHeaderLogSlotsMismatch (checked_shl_one target))) (\<lambda>target_slots.
          if \<exists>(slot_index, _) \<in> set slot_updates. unat slot_index \<ge> target_slots then Some (Inl AtSlotOutOfRange)
          else
            bind_out (exact_utxo_root_after_slot_updates log_slots slot_updates cs) (\<lambda>computed_child.
            if computed_child \<noteq> child_state_root then Some (Inl AtCachedRootMismatch)
            else
              bind_out (Some (ok_or AtCirculatingSupplyInvariant (supply_after_slot_updates slot_updates cs))) (\<lambda>circulating.
              bind_out
                (if target = current_log_slots + 1 then
                   if current_log_slots \<ge> unat LOG_SEGMENT_SIZE
                   then Some (map_err (\<lambda>_. AtHeaderLogSlotsMismatch) (expand_exact_metadata_for_replay cs))
                   else Some (Inr (chain_expand_one cs))
                 else Some (Inr cs)) (\<lambda>cs.
              bind_out (Some (map_err (\<lambda>_. AtSlotOutOfRange) (apply_delta_unrooted slot_updates (cs_state cs)))) (\<lambda>st.
              bind_out (map_option (map_err AtExactStateRead) (try_state_root (cs\<lparr> cs_state := st \<rparr>))) (\<lambda>(applied_root, cs).
                Some (Inr (applied_root, cs\<lparr> cs_active_slot_count := active_slot_count, cs_alloc_counter := alloc_counter,
                  cs_circulating_supply_micronoid := circulating \<rparr>)))))))))"

section \<open>The frontier reads nodes of the ledger tree\<close>

lemma frontier_mem:
  assumes "finite K" "(l, i) \<in> set (frontier K d)"
  shows "l < d" "i div 2 \<in> keys_at K (Suc l)"
proof -
  have *: "l < d \<and> i \<in> set (missing (keys_at K l))" using assms(2) by (auto simp: frontier_def)
  then show "l < d" by simp
  from * obtain p where "p \<in> (\<lambda>k. k div 2) ` keys_at K l" "i \<in> set (missing_of (keys_at K l) p)"
    using assms(1) by (auto simp: missing_def)
  moreover from this have "i div 2 = p" by (auto simp: missing_of_def split: if_splits)
  ultimately show "i div 2 \<in> keys_at K (Suc l)" by (simp add: keys_at_Suc)
qed

lemma node_of_segment:
  assumes "l \<le> e" "j < 2 ^ (e - l)"
  shows "node_of (leaves_of (seg_slots F e s)) l j = node_of (leaves_of F) l (s * 2 ^ (e - l) + j)"
proof -
  have split: "2 ^ (e - l) * 2 ^ l = (2 :: nat) ^ e" using assms(1) by (simp only: power_add[symmetric]) simp
  have "Suc j * 2 ^ l \<le> 2 ^ (e - l) * (2 :: nat) ^ l" using assms(2) by (intro mult_le_mono1) simp
  then have "node_of (leaves_of (seg_slots F e s)) l j = node_of (\<lambda>k. leaves_of F (s * 2 ^ e + k)) l j"
    unfolding split by (intro node_of_cong) (simp add: seg_slots_def)
  also have "s * 2 ^ e = s * 2 ^ (e - l) * 2 ^ l" using split by (simp add: mult.assoc)
  also have "node_of (\<lambda>k. leaves_of F (s * 2 ^ (e - l) * 2 ^ l + k)) l j = node_of (leaves_of F) l (s * 2 ^ (e - l) + j)"
    by (rule node_of_shift)
  finally show ?thesis .
qed

lemma frontier_node_upper:
  assumes R: "chain_repr cs u" and clean: "ss_exact_dirty (cs_state cs) = {}"
    and l: "ss_effective_log_seg (cs_state cs) \<le> l" "l \<le> u_log u" "i < 2 ^ (u_log u - l)"
  shows "frontier_node cs (l, i) = Some (Inr (node_of (leaves_of (u_slots u)) l i))"
proof -
  let ?e = "ss_effective_log_seg (cs_state cs)" and ?rc = "cs_exact_roots cs"
  have geo: "geometry (cs_state cs)" and L: "ss_log_slots (cs_state cs) = u_log u" and rc: "roots_current cs (u_slots u) {}"
    using R clean by (auto simp: chain_repr_def state_repr_def)
  have g: "rc_effective_log_seg ?rc = ?e" "length (rc_segment_roots ?rc) = ss_num_segments (cs_state cs)" "rc_wf ?rc" "rc_log_slots ?rc = u_log u"
    using roots_current_geometry[OF geo rc] rc L by (simp_all add: roots_current_def)
  have n: "ss_num_segments (cs_state cs) = 2 ^ (u_log u - ?e)" using geo L by (simp add: geometry_def)
  have sub: "u_log u - ?e - (l - ?e) = u_log u - l" using l by simp
  have "Suc i * 2 ^ (l - ?e) \<le> 2 ^ (u_log u - l) * (2 :: nat) ^ (l - ?e)" using l(3) by (intro mult_le_mono1) simp
  also have "\<dots> = 2 ^ (u_log u - ?e)" using l(1,2) by (simp only: power_add[symmetric]) simp
  finally have top: "Suc i * 2 ^ (l - ?e) \<le> ss_num_segments (cs_state cs)" by (simp only: n)
  have "node_of (nth (rc_segment_roots ?rc)) (l - ?e) i = node_of (\<lambda>s. node_of (leaves_of (u_slots u)) ?e s) (l - ?e) i"
  proof (rule node_of_cong)
    fix k assume "k < Suc i * 2 ^ (l - ?e)"
    then have "k < ss_num_segments (cs_state cs)" using top by linarith
    then show "rc_segment_roots ?rc ! k = node_of (leaves_of (u_slots u)) ?e k" using rc by (simp add: roots_current_def)
  qed
  also have "\<dots> = node_of (leaves_of (u_slots u)) l i" using node_of_node[of "leaves_of (u_slots u)" ?e "l - ?e" i] l(1) by simp
  finally show ?thesis
    using segment_node_hash_ok[OF g(3) refl, of "l - ?e" i] g l sub by (simp add: frontier_node_def Let_def)
qed

lemma frontier_node_lower:
  assumes R: "chain_repr cs u"
    and l: "l < ss_effective_log_seg (cs_state cs)" "s = i div 2 ^ (ss_effective_log_seg (cs_state cs) - l)"
    and s: "s < ss_num_segments (cs_state cs)" "s \<notin> ss_evicted (cs_state cs)"
  shows "frontier_node cs (l, i) = Some (Inr (node_of (leaves_of (u_slots u)) l i))"
proof -
  let ?st = "cs_state cs" and ?e = "ss_effective_log_seg (cs_state cs)" and ?F = "u_slots u"
  define j where "j = i mod 2 ^ (?e - l)"
  have st: "state_repr ?st ?F" and geo: "geometry ?st" using R by (auto simp: chain_repr_def state_repr_def)
  have seg: "segment_repr ?st ?F s" and ent: "entries_ok (tree_entry ?st ?F) (ss_exact_segment_cache ?st)"
    using st s(1) by (auto simp: state_repr_def)
  have e: "?e \<le> 16" by (rule geometry_eff[OF geo])
  have "ss_num_segments ?st \<le> 2 ^ 16"
  proof -
    have "ss_log_slots ?st - ?e \<le> 16" using geo by (auto simp: geometry_def)
    then show ?thesis using geo power_increasing[of "ss_log_slots ?st - ?e" 16 "2 :: nat"] by (simp add: geometry_def)
  qed
  then have id: "i div 2 ^ (?e - l) mod 2 ^ 16 = s" using s(1) l(2) by simp
  have j: "j < 2 ^ (?e - l)" by (simp add: j_def)
  have i: "s * 2 ^ (?e - l) + j = i" unfolding l(2) j_def by (rule div_mult_mod_eq)
  have node: "node_of (leaves_of (seg_slots ?F ?e s)) l j = node_of (leaves_of ?F) l i"
    using node_of_segment[of l ?e j ?F s] l(1) j i by simp
  have unfold_node: "frontier_node cs (l, i) = (case Option.bind (cache_get s (ss_exact_segment_cache ?st)) (\<lambda>tree. subtree_root tree l j) of
      Some root \<Rightarrow> Some (Inr root) | None \<Rightarrow> map_option Inr (exact_local_subtree_root (ss_segments ?st ! s) (j * 2 ^ l) l))"
    unfolding frontier_node_def prod.case Let_def id j_def[symmetric] using l(1) s(2) by (simp add: is_evicted_def)
  show ?thesis
  proof (cases "cache_get s (ss_exact_segment_cache ?st)")
    case (Some t)
    then have "tree_of t ?e (seg_slots ?F ?e s)" using cache_get_ok[OF ent] by simp
    then show ?thesis using Some node subtree_root_ok[of t ?e "seg_slots ?F ?e s" l j] l(1) j by (simp add: unfold_node)
  next
    case None
    have "exact_local_subtree_root (ss_segments ?st ! s) (j * 2 ^ l) l = Some (node_of (leaves_of (seg_slots ?F ?e s)) l j)"
    proof (cases "ss_segments ?st ! s")
      case no: None
      then have "seg_slots ?F ?e s = (\<lambda>_. EMPTY)" using seg s(2) by (simp add: segment_repr_def Let_def)
      then show ?thesis using no zero_slot_roots_nth[of l l j] by (simp add: exact_local_subtree_root_def)
    next
      case (Some cols)
      then have h: "cols_hold cols ?e (seg_slots ?F ?e s)" using seg s(2) by (simp add: segment_repr_def Let_def)
      have "Suc j * 2 ^ l \<le> 2 ^ (?e - l) * (2 :: nat) ^ l" using j by (intro mult_le_mono1) simp
      also have "\<dots> = 2 ^ ?e" using l(1) by (simp only: power_add[symmetric]) simp
      finally have "node_of (leaves_of (column_slot cols)) l j = node_of (leaves_of (seg_slots ?F ?e s)) l j"
        using h by (intro node_of_cong) (simp add: cols_hold_def)
      then show ?thesis using Some exact_local_subtree_root_node[of l cols j] l(1) e by simp
    qed
    then show ?thesis using None node by (simp add: unfold_node)
  qed
qed

lemma frontier_node_ok:
  assumes R: "chain_repr cs u" and clean: "ss_exact_dirty (cs_state cs) = {}"
    and K: "finite K" "\<And>k. k \<in> K \<Longrightarrow> k < 2 ^ u_log u" "\<And>k. k \<in> K \<Longrightarrow> k div 2 ^ ss_effective_log_seg (cs_state cs) \<notin> ss_evicted (cs_state cs)"
    and p: "(l, i) \<in> set (frontier K (u_log u))"
  shows "frontier_node cs (l, i) = Some (Inr (node_of (leaves_of (u_slots u)) l i))"
proof -
  let ?e = "ss_effective_log_seg (cs_state cs)"
  note M = frontier_mem[OF K(1) p]
  obtain k where k: "k \<in> K" "i div 2 = k div 2 ^ Suc l" using M(2) by (auto simp: keys_at_def)
  show ?thesis
  proof (cases "?e \<le> l")
    case True
    have "k < 2 ^ (u_log u - Suc l) * 2 ^ Suc l"
      using K(2)[OF k(1)] M(1) by (simp only: power_add[symmetric]) simp
    then have "i div 2 < 2 ^ (u_log u - Suc l)" unfolding k(2) by (rule less_mult_imp_div_less)
    moreover have "2 ^ (u_log u - l) = 2 * (2 :: nat) ^ (u_log u - Suc l)" using M(1) by (metis Suc_diff_Suc power_Suc)
    ultimately have "i < 2 ^ (u_log u - l)" by linarith
    then show ?thesis using frontier_node_upper[OF R clean True] M(1) by simp
  next
    case False
    then have el: "?e - l = Suc (?e - Suc l)" "Suc l + (?e - Suc l) = ?e" by simp_all
    have "i div 2 ^ (?e - l) = i div 2 div 2 ^ (?e - Suc l)" unfolding el(1) by (simp add: div_mult2_eq)
    also have "\<dots> = k div 2 ^ ?e" unfolding k(2) by (simp only: div_mult2_eq[symmetric] power_add[symmetric] el(2))
    finally have seg: "k div 2 ^ ?e = i div 2 ^ (?e - l)" by simp
    have geo: "geometry (cs_state cs)" "ss_log_slots (cs_state cs) = u_log u" using R by (auto simp: chain_repr_def state_repr_def)
    have "2 ^ u_log u = 2 ^ (u_log u - ?e) * (2 :: nat) ^ ?e" using geo by (simp add: geometry_def flip: power_add)
    then have "k div 2 ^ ?e < ss_num_segments (cs_state cs)"
      using K(2)[OF k(1)] geo by (simp add: geometry_def less_mult_imp_div_less)
    then show ?thesis using frontier_node_lower[OF R _ seg] False K(3)[OF k(1)] by simp
  qed
qed

lemma frontier_nodes_ok:
  "(\<And>l i. (l, i) \<in> set ps \<Longrightarrow> frontier_node cs (l, i) = Some (Inr (f l i))) \<Longrightarrow>
    frontier_nodes cs ps = Some (Inr (map (\<lambda>(l, i). f l i) ps))"
proof (induction ps)
  case (Cons p ps)
  then show ?case by (cases p) simp
qed simp

section \<open>Grouping updates by segment\<close>

lemma map_of_bt_insert: "ascending (map fst m) \<Longrightarrow> map_of (bt_insert k v m) = (map_of m)(k \<mapsto> v)"
proof (induction k v m rule: bt_insert.induct)
  case (2 k v k' v' m)
  have "map_of (bt_insert k v m) = (map_of m)(k \<mapsto> v)" if "k' < k"
    using 2 that by (simp del: fun_upd_apply)
  then show ?case by (simp add: fun_upd_twist del: fun_upd_apply)
qed simp

definition lookup2 :: "nat \<Rightarrow> (nat \<times> (nat \<times> 'v) list) list \<Rightarrow> nat \<Rightarrow> 'v option" where
  "lookup2 e groups i = Option.bind (map_of groups (i div 2 ^ e)) (\<lambda>us. map_of us (i mod 2 ^ e))"

definition groups_ok :: "nat \<Rightarrow> nat \<Rightarrow> (nat \<times> (nat \<times> 'v) list) list \<Rightarrow> bool" where
  "groups_ok e N groups \<longleftrightarrow> ascending (map fst groups) \<and>
    (\<forall>(s, us) \<in> set groups. s < N \<and> ascending (map fst us) \<and> (\<forall>k \<in> fst ` set us. k < 2 ^ e))"

lemma bt_insert_mem: "x \<in> set (bt_insert k v m) \<Longrightarrow> x = (k, v) \<or> x \<in> set m"
  by (induction k v m rule: bt_insert.induct) (auto split: if_splits)

lemma groups_ok_lookup:
  "groups_ok e N groups \<Longrightarrow> map_of groups s = Some us \<Longrightarrow> s < N \<and> ascending (map fst us) \<and> (\<forall>k \<in> fst ` set us. k < 2 ^ e)"
  unfolding groups_ok_def by (drule map_of_SomeD) fastforce

lemma add_update_ok:
  assumes G: "groups_ok e N groups" and i: "unat i div 2 ^ e < N"
  shows "groups_ok e N (add_update e i v groups)" "lookup2 e (add_update e i v groups) = (lookup2 e groups)(unat i \<mapsto> v)"
    "fst ` set (add_update e i v groups) = insert (unat i div 2 ^ e) (fst ` set groups)"
proof -
  define s k where "s = unat i div 2 ^ e" and "k = unat i mod 2 ^ e"
  define us where "us = (case map_of groups s of None \<Rightarrow> [] | Some us \<Rightarrow> us)"
  have A: "add_update e i v groups = bt_insert s (bt_insert k v us) groups" by (simp add: add_update_def s_def k_def us_def Let_def)
  have asc: "ascending (map fst groups)" using G by (simp add: groups_ok_def)
  have us: "ascending (map fst us)" "\<forall>k \<in> fst ` set us. k < 2 ^ e"
    using groups_ok_lookup[OF G, of s us] by (cases "map_of groups s"; simp add: us_def)+
  have "k < 2 ^ e" by (simp add: k_def)
  then have new: "ascending (map fst (bt_insert k v us))" "\<forall>j \<in> fst ` set (bt_insert k v us). j < 2 ^ e"
    using us by (simp_all add: bt_insert_ascending bt_insert_keys)
  show "groups_ok e N (add_update e i v groups)"
    using G new i bt_insert_ascending[OF asc] unfolding A groups_ok_def s_def by (auto dest!: bt_insert_mem)
  show "fst ` set (add_update e i v groups) = insert (unat i div 2 ^ e) (fst ` set groups)"
    by (simp add: A bt_insert_keys s_def)
  show "lookup2 e (add_update e i v groups) = (lookup2 e groups)(unat i \<mapsto> v)"
  proof
    fix n
    have "n = unat i \<longleftrightarrow> n div 2 ^ e = s \<and> n mod 2 ^ e = k" unfolding s_def k_def by (metis div_mult_mod_eq)
    moreover have "map_of us j = Option.bind (map_of groups s) (\<lambda>us. map_of us j)" for j by (simp add: us_def split: option.split)
    ultimately show "lookup2 e (add_update e i v groups) n = ((lookup2 e groups)(unat i \<mapsto> v)) n"
      using map_of_bt_insert[OF asc] map_of_bt_insert[OF us(1)] by (auto simp: lookup2_def A)
  qed
qed

lemma group_updates_ok:
  assumes "groups_ok e N groups" "\<forall>(i, v) \<in> set ups. unat i < S \<and> unat i div 2 ^ e < N"
  shows "\<exists>groups'. group_updates S e ups groups = Inr groups' \<and> groups_ok e N groups' \<and>
    fst ` set groups' = fst ` set groups \<union> (\<lambda>i. unat i div 2 ^ e) ` fst ` set ups \<and>
    (\<forall>n. (case lookup2 e groups' n of Some v \<Rightarrow> v | None \<Rightarrow> F n) =
      write_map ups (\<lambda>n. case lookup2 e groups n of Some v \<Rightarrow> v | None \<Rightarrow> F n) n)"
  using assms
proof (induction ups arbitrary: groups)
  case (Cons x ups)
  obtain i v where x: "x = (i, v)" by (cases x)
  have i: "unat i < S" "unat i div 2 ^ e < N" using Cons.prems(2) x by auto
  note A = add_update_ok[OF Cons.prems(1) i(2), of v]
  have "(\<lambda>n. case lookup2 e (add_update e i v groups) n of Some v \<Rightarrow> v | None \<Rightarrow> F n) =
      (\<lambda>n. case lookup2 e groups n of Some v \<Rightarrow> v | None \<Rightarrow> F n)(unat i := v)" by (auto simp: A(2))
  then show ?case using Cons.IH[OF A(1)] Cons.prems(2) i(1) A(3) x by (simp del: fun_upd_apply)
qed auto

section \<open>Overlaid segment roots\<close>

text \<open>The columns of a segment give its slots at the target depth, also one level up.\<close>

lemma segment_source:
  assumes R: "state_repr st F" and T: "T = ss_log_slots st \<or> T = Suc (ss_log_slots st)" and e: "e = min T 16"
    and s: "s < 2 ^ (T - e)" "s < ss_num_segments st \<longrightarrow> s \<notin> ss_evicted st" and k: "k < 2 ^ e"
    and c: "columns = (if s \<ge> ss_num_segments st then None else ss_segments st ! s)"
  shows "(case columns of None \<Rightarrow> EMPTY | Some cols \<Rightarrow> if k \<ge> length (col_values cols) then EMPTY else column_slot cols k) = F (s * 2 ^ e + k)"
proof -
  let ?L = "ss_log_slots st"
  have geo: "geometry st" and top: "\<And>k. 2 ^ ?L \<le> k \<Longrightarrow> F k = EMPTY" and seg: "\<And>j. j < ss_num_segments st \<Longrightarrow> segment_repr st F j"
    using R by (auto simp: state_repr_def)
  show ?thesis
  proof (cases "s < ss_num_segments st")
    case False
    have "2 ^ ?L = ss_num_segments st * 2 ^ ss_effective_log_seg st"
      using geo by (simp add: geometry_def flip: power_add)
    also have "\<dots> \<le> s * 2 ^ e" using False T e geo by (intro mult_le_mono power_increasing) (auto simp: geometry_def)
    finally have "F (s * 2 ^ e + k) = EMPTY" using top by simp
    then show ?thesis using False c by simp
  next
    case True
    then have ev: "s \<notin> ss_evicted st" using s(2) by simp
    have none: "F (s * 2 ^ ss_effective_log_seg st + j) = EMPTY" if "ss_segments st ! s = None" "j < 2 ^ ss_effective_log_seg st" for j
    proof -
      have "seg_slots F (ss_effective_log_seg st) s = (\<lambda>_. EMPTY)" using seg[OF True] ev that(1) by (simp add: segment_repr_def Let_def)
      from fun_cong[OF this, of j] that(2) show ?thesis by (simp add: seg_slots_def)
    qed
    have some: "cols_hold cols (ss_effective_log_seg st) (seg_slots F (ss_effective_log_seg st) s)" if "ss_segments st ! s = Some cols" for cols
      using seg[OF True] ev that by (simp add: segment_repr_def Let_def)
    show ?thesis
    proof (cases "ss_effective_log_seg st = e")
      case same: True
      then show ?thesis using none[of k] some k c True by (auto simp: cols_hold_def seg_slots_def split: option.split)
    next
      case False
      then have L: "?L < 16" "T = Suc ?L" "e = Suc ?L" "ss_effective_log_seg st = ?L" using T e geo by (auto simp: geometry_def)
      then have "s = 0" using s(1) by simp
      then show ?thesis
        using none[of k] some c True L top[of k] by (cases "k < 2 ^ ?L") (auto simp: cols_hold_def seg_slots_def split: option.split)
    qed
  qed
qed

lemma overlay_root_segment:
  assumes R: "state_repr st F" and T: "T = ss_log_slots st \<or> T = Suc (ss_log_slots st)" "T \<le> 32" and e: "e = min T 16"
    and s: "s < 2 ^ (T - e)" "s < ss_num_segments st \<longrightarrow> s \<notin> ss_evicted st"
    and us: "ascending (map fst us)" "\<forall>k \<in> fst ` set us. k < 2 ^ e"
    and G: "\<And>k. k < 2 ^ e \<Longrightarrow> G (s * 2 ^ e + k) = (case map_of us k of Some v \<Rightarrow> v | None \<Rightarrow> F (s * 2 ^ e + k))"
    and c: "columns = (if s \<ge> ss_num_segments st then None else ss_segments st ! s)"
  shows "(case cache_get s (ss_exact_segment_cache st) of
      Some tree \<Rightarrow> if st_log_slots tree = e then root_with_updates us tree
        else exact_segment_root_with_updates e columns (\<lambda>k. map_of us (unat k))
    | None \<Rightarrow> exact_segment_root_with_updates e columns (\<lambda>k. map_of us (unat k))) = Some (node_of (leaves_of G) e s)"
proof -
  have shift: "node_of f e 0 = node_of (leaves_of G) e s" if "\<And>k. k < 2 ^ e \<Longrightarrow> f k = leaves_of G (s * 2 ^ e + k)" for f
    using node_of_shift[of "leaves_of G" s e 0] node_of_cong[of 0 e f "\<lambda>k. leaves_of G (s * 2 ^ e + k)"] that by simp
  have e32: "e \<le> 32" using e by simp
  have "exact_segment_root_with_updates e columns (\<lambda>k. map_of us (unat k)) =
      Some (node_of (\<lambda>k. slot_leaf_hash (updated_slot columns (\<lambda>k. map_of us (unat k)) k)) e 0)"
    using stream_slots_root[OF e32] by (simp add: exact_segment_root_with_updates_def)
  also have "node_of (\<lambda>k. slot_leaf_hash (updated_slot columns (\<lambda>k. map_of us (unat k)) k)) e 0 = node_of (leaves_of G) e s"
  proof (rule shift)
    fix k :: nat assume k: "k < 2 ^ e"
    then have "k < 2 ^ 32" using power_increasing[OF e32, of "2 :: nat"] by linarith
    then have "unat (of_nat k :: u32) = k" by (intro unat_of_nat_lt) simp
    then show "slot_leaf_hash (updated_slot columns (\<lambda>k. map_of us (unat k)) k) = leaves_of G (s * 2 ^ e + k)"
      using G[OF k] segment_source[OF R T(1) e s k c] by (simp add: updated_slot_def split: option.split)
  qed
  finally have streamed: "exact_segment_root_with_updates e columns (\<lambda>k. map_of us (unat k)) = Some (node_of (leaves_of G) e s)" .
  show ?thesis
  proof (cases "cache_get s (ss_exact_segment_cache st)")
    case (Some t)
    have "entries_ok (tree_entry st F) (ss_exact_segment_cache st)" using R by (simp add: state_repr_def)
    from cache_get_ok[OF this Some] have t: "tree_of t (ss_effective_log_seg st) (seg_slots F (ss_effective_log_seg st) s)" by blast
    show ?thesis
    proof (cases "st_log_slots t = e")
      case True
      then have "tree_of t e (seg_slots F e s)" using t by (auto simp: tree_of_def)
      then have "root_with_updates us t = Some (node_of (\<lambda>i. slot_leaf_hash (overlaid (seg_slots F e s) us i)) e 0)"
        by (rule root_with_updates_ok[OF _ us])
      also have "node_of (\<lambda>i. slot_leaf_hash (overlaid (seg_slots F e s) us i)) e 0 = node_of (leaves_of G) e s"
        by (rule shift) (simp add: G seg_slots_def split: option.split)
      finally show ?thesis using Some True by simp
    qed (use Some streamed in simp)
  qed (use streamed in simp)
qed

lemma overlay_segments_ok:
  assumes R: "state_repr st F" and T: "T = ss_log_slots st \<or> T = Suc (ss_log_slots st)" "T \<le> 32" and e: "e = min T 16"
    and "groups_ok e (2 ^ (T - e)) groups" "\<forall>s \<in> fst ` set groups. s < ss_num_segments st \<longrightarrow> s \<notin> ss_evicted st"
    and G: "\<And>s us k. (s, us) \<in> set groups \<Longrightarrow> k < 2 ^ e \<Longrightarrow>
      G (s * 2 ^ e + k) = (case map_of us k of Some v \<Rightarrow> v | None \<Rightarrow> F (s * 2 ^ e + k))"
    and rc: "rc_wf roots" "rc_log_slots roots = T" "\<And>s. s < 2 ^ (T - e) \<Longrightarrow> s \<notin> fst ` set groups \<Longrightarrow> rc_segment_roots roots ! s = node_of (leaves_of G) e s"
  shows "\<exists>roots'. overlay_segments st e groups roots = Some (Inr roots') \<and> rc_wf roots' \<and> rc_log_slots roots' = T \<and>
    (\<forall>s < 2 ^ (T - e). rc_segment_roots roots' ! s = node_of (leaves_of G) e s)"
  using assms(5-)
proof (induction groups arbitrary: roots)
  case (Cons g groups)
  obtain s us where g: "g = (s, us)" by (cases g)
  define columns where "columns = (if s \<ge> ss_num_segments st then None else ss_segments st ! s)"
  have us: "s < 2 ^ (T - e)" "ascending (map fst us)" "\<forall>k \<in> fst ` set us. k < 2 ^ e" and ok: "groups_ok e (2 ^ (T - e)) groups"
    using Cons.prems(1) g by (auto simp: groups_ok_def)
  have ev: "s < ss_num_segments st \<longrightarrow> s \<notin> ss_evicted st" using Cons.prems(2) g by simp
  have root: "(case cache_get s (ss_exact_segment_cache st) of
      Some tree \<Rightarrow> if st_log_slots tree = e then root_with_updates us tree
        else exact_segment_root_with_updates e columns (\<lambda>k. map_of us (unat k))
    | None \<Rightarrow> exact_segment_root_with_updates e columns (\<lambda>k. map_of us (unat k))) = Some (node_of (leaves_of G) e s)"
    by (rule overlay_root_segment[OF R T e us(1) ev us(2,3) _ columns_def]) (rule Cons.prems(3), simp_all add: g)
  let ?roots = "set_segment_root s (node_of (leaves_of G) e s) roots"
  have len: "length (rc_segment_roots roots) = 2 ^ (T - e)" using Cons.prems(4,5) e by (simp add: rc_wf_def)
  note S = set_segment_root_ok[OF Cons.prems(4), of s "node_of (leaves_of G) e s"]
  have "rc_wf ?roots" "rc_log_slots ?roots = T" "rc_segment_roots ?roots = (rc_segment_roots roots)[s := node_of (leaves_of G) e s]"
    using S us(1) len Cons.prems(5) by auto
  moreover have "(rc_segment_roots roots)[s := node_of (leaves_of G) e s] ! j = node_of (leaves_of G) e j"
    if "j < 2 ^ (T - e)" "j \<notin> fst ` set groups" for j
    using Cons.prems(6)[of j] that len g by (cases "j = s") auto
  ultimately obtain roots' where "overlay_segments st e groups ?roots = Some (Inr roots')" "rc_wf roots'" "rc_log_slots roots' = T"
      "\<forall>s < 2 ^ (T - e). rc_segment_roots roots' ! s = node_of (leaves_of G) e s"
    using Cons.IH[OF ok _ _ \<open>rc_wf ?roots\<close> \<open>rc_log_slots ?roots = T\<close>] Cons.prems(2,3) by auto
  moreover have "\<not> (s < ss_num_segments st \<and> is_evicted st s)" using ev by (simp add: is_evicted_def)
  then have "overlay_segments st e (g # groups) roots = overlay_segments st e groups ?roots"
    unfolding g overlay_segments.simps Let_def columns_def[symmetric] root by (simp only: if_False option.case)
  ultimately show ?case by auto
qed auto

section \<open>The child root and the child state\<close>

lemma root_after_updates_ok:
  assumes R: "chain_repr cs u" and clean: "ss_exact_dirty (cs_state cs) = {}"
    and T: "unat T = u_log u \<or> unat T = Suc (u_log u)" "unat T \<le> 32"
    and ups: "\<forall>(i, v) \<in> set ups. unat i < 2 ^ unat T \<and> unat i div 2 ^ min (unat T) 16 \<notin> ss_evicted (cs_state cs)"
  shows "exact_utxo_root_after_slot_updates T ups cs = Some (Inr (node_of (leaves_of (write_map ups (u_slots u))) (unat T) 0))"
proof -
  let ?st = "cs_state cs" and ?F = "u_slots u" and ?T = "unat T" and ?G = "write_map ups (u_slots u)"
  define e where "e = min ?T 16"
  define N where "N = (2 :: nat) ^ (?T - e)"
  have st: "state_repr ?st ?F" "ss_log_slots ?st = u_log u" and rcur: "roots_current cs ?F {}" using R clean by (auto simp: chain_repr_def)
  have geo: "geometry ?st" and top: "\<And>k. 2 ^ u_log u \<le> k \<Longrightarrow> ?F k = EMPTY" using st by (auto simp: state_repr_def)
  have rc: "rc_wf (cs_exact_roots cs)" "rc_log_slots (cs_exact_roots cs) = u_log u" "rc_effective_log_seg (cs_exact_roots cs) = ss_effective_log_seg ?st"
      "length (rc_segment_roots (cs_exact_roots cs)) = ss_num_segments ?st"
    using rcur st(2) roots_current_geometry[OF geo rcur] by (auto simp: roots_current_def)
  have cur: "\<And>s. s < ss_num_segments ?st \<Longrightarrow> rc_segment_roots (cs_exact_roots cs) ! s = node_of (leaves_of ?F) (ss_effective_log_seg ?st) s"
    using rcur by (simp add: roots_current_def)
  have root0: "root_cache_root (cs_exact_roots cs) = cs_utxo_root cs"
    using rc_root_eq[OF rc(1), of "leaves_of ?F"] rc cur R clean by (simp add: chain_repr_def)
  define roots where "roots = (if ?T > u_log u then root_cache_expand (cs_exact_roots cs) else cs_exact_roots cs)"
  have roots: "rc_wf roots" "rc_log_slots roots = ?T" "\<forall>s < length (rc_segment_roots roots). rc_segment_roots roots ! s = node_of (leaves_of ?F) (rc_effective_log_seg roots) s"
    using T(1) rc cur root_cache_expand_ok[OF rc(1), of "leaves_of ?F" "{}"] top by (auto simp: roots_def)
  have eff: "rc_effective_log_seg roots = e" "length (rc_segment_roots roots) = N" using roots(1,2) by (simp_all add: rc_wf_def e_def N_def)
  have split: "N * 2 ^ e = 2 ^ ?T" unfolding N_def by (simp only: power_add[symmetric]) (simp add: e_def)
  have seg: "\<forall>(i, v) \<in> set ups. unat i < 2 ^ ?T \<and> unat i div 2 ^ e < N"
    using ups split by (auto simp: less_mult_imp_div_less)
  obtain groups where groups: "group_updates (2 ^ ?T) e ups [] = Inr groups" "groups_ok e N groups"
      "fst ` set groups = (\<lambda>i. unat i div 2 ^ e) ` fst ` set ups"
      "\<And>n. (case lookup2 e groups n of Some v \<Rightarrow> v | None \<Rightarrow> ?F n) = ?G n"
    using group_updates_ok[of e N "[]" ups "2 ^ ?T" ?F] seg by (auto simp: groups_ok_def lookup2_def)
  have G: "?G (s * 2 ^ e + k) = (case map_of us k of Some v \<Rightarrow> v | None \<Rightarrow> ?F (s * 2 ^ e + k))"
    if "(s, us) \<in> set groups" "k < 2 ^ e" for s us k
  proof -
    have "distinct (map fst groups)" using groups(2) by (auto simp: groups_ok_def strict_sorted_iff)
    then have "map_of groups s = Some us" using that(1) by simp
    then have "lookup2 e groups (s * 2 ^ e + k) = map_of us k" using that(2) by (simp add: lookup2_def)
    then show ?thesis using groups(4)[of "s * 2 ^ e + k"] by simp
  qed
  have other: "rc_segment_roots roots ! s = node_of (leaves_of ?G) e s" if "s < N" "s \<notin> fst ` set groups" for s
  proof -
    have none: "map_of groups s = None" using that(2) by (simp add: map_of_eq_None_iff)
    have "?G (s * 2 ^ e + k) = ?F (s * 2 ^ e + k)" if "k < 2 ^ e" for k
      using groups(4)[of "s * 2 ^ e + k"] none that by (simp add: lookup2_def)
    then have "node_of (\<lambda>k. leaves_of ?G (s * 2 ^ e + k)) e 0 = node_of (\<lambda>k. leaves_of ?F (s * 2 ^ e + k)) e 0"
      by (intro node_of_cong) simp
    then have "node_of (leaves_of ?G) e s = node_of (leaves_of ?F) e s"
      using node_of_shift[of "leaves_of ?G" s e 0] node_of_shift[of "leaves_of ?F" s e 0] by simp
    then show ?thesis using roots(3) eff that(1) by simp
  qed
  have ev: "\<forall>s \<in> fst ` set groups. s < ss_num_segments ?st \<longrightarrow> s \<notin> ss_evicted ?st"
    unfolding groups(3) using ups by (auto simp: e_def)
  have T': "?T = ss_log_slots ?st \<or> ?T = Suc (ss_log_slots ?st)" using T(1) st(2) by simp
  obtain roots' where roots': "overlay_segments ?st e groups roots = Some (Inr roots')" "rc_wf roots'" "rc_log_slots roots' = ?T"
      "\<forall>s < N. rc_segment_roots roots' ! s = node_of (leaves_of ?G) e s"
    using overlay_segments_ok[OF st(1) T' T(2) e_def groups(2)[unfolded N_def] ev G roots(1,2)] other unfolding N_def by blast
  have "root_cache_root roots' = node_of (leaves_of ?G) ?T 0"
    using rc_root_eq[OF roots'(2), of "leaves_of ?G"] roots'(2-4) by (simp add: rc_wf_def e_def N_def)
  moreover have "checked_shl_one ?T = Some (2 ^ ?T)" using T(2) by (simp add: checked_shl_one_def)
  ultimately show ?thesis
    using T T' groups(1) roots'(1) root0 clean unfolding exact_utxo_root_after_slot_updates_def Let_def roots_def e_def
    by (auto simp: st(2))
qed

lemma expand_metadata_eq:
  assumes R: "chain_repr cs u" and clean: "ss_exact_dirty (cs_state cs) = {}" and L: "16 \<le> u_log u" "u_log u < 32"
  shows "expand_exact_metadata_for_replay cs = Inr (chain_expand_one cs)"
proof -
  have st: "ss_log_slots (cs_state cs) = u_log u" using R by (simp add: chain_repr_def)
  have e: "ss_effective_log_seg (cs_state cs) = 16" using chain_repr_eff[OF R] L by simp
  show ?thesis
    using L clean by (simp add: expand_exact_metadata_for_replay_def chain_expand_one_def expand_def Let_def st e)
qed

lemma verified_transition_ok:
  assumes R: "chain_repr cs u" and clean: "ss_exact_dirty (cs_state cs) = {}"
    and T: "unat T = u_log u \<or> unat T = Suc (u_log u)" "unat T \<le> 32"
    and ups: "\<forall>(i, v) \<in> set ups. unat i < 2 ^ unat T \<and> unat i div 2 ^ min (unat T) 16 \<notin> ss_evicted (cs_state cs)"
    and u': "u' = \<lparr> u_log = unat T, u_slots = write_map ups (u_slots u), u_active = unat active, u_alloc = unat alloc \<rparr>"
  shows "\<exists>cs'. apply_verified_exact_transition T root ups active alloc cs =
      (if root = utxo_root u' then Some (Inr (root, cs')) else Some (Inl AtCachedRootMismatch)) \<and> chain_repr cs' u'"
proof -
  let ?st = "cs_state cs" and ?F = "u_slots u"
  define e where "e = min (unat T) 16"
  have st: "state_repr ?st ?F" "ss_log_slots ?st = u_log u" and tot: "unat (cs_circulating_supply_micronoid cs) = slot_total (u_log u) ?F"
    using R by (auto simp: chain_repr_def)
  have geo: "geometry ?st" using st by (simp add: state_repr_def)
  have root: "exact_utxo_root_after_slot_updates T ups cs = Some (Inr (utxo_root u'))"
    using root_after_updates_ok[OF R clean T ups] by (simp add: u')
  have seg: "seg_id_of ?st i = unat i div 2 ^ e" if "unat i < 2 ^ u_log u" for i
  proof (cases "ss_effective_log_seg ?st = e")
    case False
    then have "ss_effective_log_seg ?st = u_log u" "e = Suc (u_log u)" using T geo st(2) by (auto simp: e_def geometry_def)
    then show ?thesis using that by (simp add: seg_id_of_def)
  qed (simp add: seg_id_of_def)
  have "\<forall>i \<in> set (map fst ups). unat i < 2 ^ unat T \<and> (unat i < 2 ^ ss_log_slots ?st \<longrightarrow> seg_id_of ?st i \<notin> ss_evicted ?st)"
    using ups seg st(2) by (auto simp: e_def)
  moreover have "ss_log_slots ?st \<le> unat T" using T(1) st(2) by auto
  ultimately obtain total where total: "supply_after_slot_updates ups cs = Some total" "unat total = slot_total (unat T) (u_slots u')"
    using supply_after_ok[OF st(1), of "unat T" ups] tot st(2) T(2) by (auto simp: u')
  define cs1 where "cs1 = (if unat T = Suc (u_log u) then chain_expand_one cs else cs)"
  have cs1: "chain_repr cs1 (u\<lparr> u_log := unat T \<rparr>)" "ss_evicted (cs_state cs1) = ss_evicted ?st"
    using R T chain_expand_repr[OF R] by (auto simp: cs1_def)
  have e1: "ss_effective_log_seg (cs_state cs1) = e" using chain_repr_eff[OF cs1(1)] by (simp add: e_def)
  have ups1: "\<forall>(i, v) \<in> set ups. unat i < 2 ^ u_log (u\<lparr> u_log := unat T \<rparr>) \<and> seg_id_of (cs_state cs1) i \<notin> ss_evicted (cs_state cs1)"
    using ups cs1(2) e1 by (auto simp: seg_id_of_def e_def)
  define st2 where "st2 = fold write_slot ups (cs_state cs1)"
  have R2: "chain_repr (cs1\<lparr> cs_state := st2, cs_active_slot_count := active, cs_alloc_counter := alloc, cs_circulating_supply_micronoid := total \<rparr>) u'"
    unfolding st2_def using total(2) by (intro deferred_repr[OF cs1(1) ups1]) (simp_all add: u')
  then have S2: "state_repr st2 (u_slots u')" "ss_log_slots st2 = unat T" "roots_current (cs1\<lparr> cs_state := st2 \<rparr>) (u_slots u') (ss_exact_dirty st2)"
    by (auto simp: chain_repr_def u' roots_current_def)
  let ?ids = "sorted_list_of_set (ss_exact_dirty st2)"
  have D: "ss_exact_dirty st2 \<subseteq> {..<ss_num_segments st2} - ss_evicted st2" using S2(1) by (auto simp: state_repr_def geometry_def)
  then have "finite (ss_exact_dirty st2)" by (rule finite_subset) simp
  then have ids: "set ?ids = ss_exact_dirty st2" by simp
  obtain c roots where seal: "try_state_root (cs1\<lparr> cs_state := st2 \<rparr>) = Some (Inr (utxo_root u',
      cs1\<lparr> cs_state := st2\<lparr> ss_exact_segment_cache := c, ss_exact_dirty := {} \<rparr>, cs_exact_roots := roots, cs_utxo_root := utxo_root u' \<rparr>))"
    "state_repr (st2\<lparr> ss_exact_segment_cache := c, ss_exact_dirty := {} \<rparr>) (u_slots u')"
    "roots_current (cs1\<lparr> cs_state := st2\<lparr> ss_exact_segment_cache := c, ss_exact_dirty := {} \<rparr>, cs_exact_roots := roots \<rparr>) (u_slots u') {}"
    using try_state_root_in_repr[of "cs1\<lparr> cs_state := st2 \<rparr>" "u_slots u'" ?ids] S2 D unfolding ids
    by (auto simp: try_state_root_def u')
  let ?cs' = "cs1\<lparr> cs_state := st2\<lparr> ss_exact_segment_cache := c, ss_exact_dirty := {} \<rparr>, cs_exact_roots := roots, cs_utxo_root := utxo_root u',
    cs_active_slot_count := active, cs_alloc_counter := alloc, cs_circulating_supply_micronoid := total \<rparr>"
  have "chain_repr ?cs' u'" using seal(2,3) S2(2) total(2) by (simp add: chain_repr_def roots_current_def u')
  moreover have shl: "checked_shl_one (unat T) = Some (2 ^ unat T)" using T(2) by (simp add: checked_shl_one_def)
  have range1: "\<not> (\<exists>(i, v) \<in> set ups. 2 ^ unat T \<le> unat i)" using ups by force
  have delta: "apply_delta_unrooted ups (cs_state cs1) = Inr st2"
    using range1 cs1(1) by (simp add: apply_delta_unrooted_def num_slots_def st2_def chain_repr_def)
  have grow: "(if unat T = ss_log_slots ?st + 1 then if ss_log_slots ?st \<ge> unat LOG_SEGMENT_SIZE
      then Some (map_err (\<lambda>_. AtHeaderLogSlotsMismatch) (expand_exact_metadata_for_replay cs)) else Some (Inr (chain_expand_one cs))
      else Some (Inr cs)) = (Some (Inr cs1) :: (apply_exact_transition_error, chain_state) outcome)"
    using expand_metadata_eq[OF R clean] T st(2) by (auto simp: cs1_def)
  have "apply_verified_exact_transition T root ups active alloc cs =
      (if root = utxo_root u' then Some (Inr (root, ?cs')) else Some (Inl AtCachedRootMismatch))"
    unfolding apply_verified_exact_transition_def Let_def grow
    using T st(2) range1 root total(1) delta seal(1) by (auto simp: shl)
  ultimately show ?thesis by blast
qed

lemma chain_expand_sealed:
  assumes R: "chain_repr cs u" and sealed: "ss_exact_dirty (cs_state cs) = {}"
  shows "ss_exact_dirty (cs_state (chain_expand_one cs)) = {}"
proof -
  have rc: "roots_current cs (u_slots u) {}" and root: "cs_utxo_root cs = utxo_root u" and st: "ss_log_slots (cs_state cs) = u_log u" "geometry (cs_state cs)"
    using R sealed by (auto simp: chain_repr_def state_repr_def)
  have rcl: "rc_log_slots (cs_exact_roots cs) = u_log u" "rc_wf (cs_exact_roots cs)" using rc st(1) by (auto simp: roots_current_def)
  have "root_cache_root (cs_exact_roots cs) = utxo_root u"
    using rc_root_eq[OF rcl(2), of "leaves_of (u_slots u)"] rc rcl roots_current_geometry[OF st(2) rc] by (simp add: roots_current_def)
  then show ?thesis using rcl root st sealed by (simp add: chain_expand_one_def Let_def)
qed

lemma frontier_multiproof:
  assumes "chain_repr cs u" "ss_exact_dirty (cs_state cs) = {}" "valid_indices indices depth" "unat depth = u_log u"
    "\<forall>i \<in> set indices. seg_id_of (cs_state cs) i \<notin> ss_evicted (cs_state cs)"
  shows "\<exists>siblings. exact_frontier_siblings indices depth cs = Some (Inr siblings) \<and>
    length siblings = length (frontier (unat ` set indices) (unat depth)) \<and>
    reconstruct_root indices (map (\<lambda>i. slot_leaf_hash (u_slots u (unat i))) indices) siblings depth = Inr (cs_utxo_root cs) \<and>
    (\<forall>G. (\<forall>k. k \<notin> unat ` set indices \<longrightarrow> G k = u_slots u k) \<longrightarrow>
      reconstruct_root indices (map (\<lambda>i. slot_leaf_hash (G (unat i))) indices) siblings depth = Inr (node_of (leaves_of G) (u_log u) 0))"
proof -
  let ?K = "index_set indices" and ?f = "leaves_of (u_slots u)"
  let ?ss = "map (\<lambda>(l, i). node_of ?f l i) (frontier ?K (unat depth))"
  have st: "ss_log_slots (cs_state cs) = u_log u" "geometry (cs_state cs)" and rc: "roots_current cs (u_slots u) {}" and root: "cs_utxo_root cs = utxo_root u"
    using assms(1,2) by (auto simp: chain_repr_def state_repr_def)
  have rcl: "rc_log_slots (cs_exact_roots cs) = u_log u" "rc_wf (cs_exact_roots cs)" using rc st(1) by (auto simp: roots_current_def)
  have "root_cache_root (cs_exact_roots cs) = utxo_root u"
    using rc_root_eq[OF rcl(2), of ?f] rc rcl roots_current_geometry[OF st(2) rc] by (simp add: roots_current_def)
  moreover have "frontier_nodes cs (frontier ?K (unat depth)) = Some (Inr ?ss)"
    by (rule frontier_nodes_ok, rule frontier_node_ok[OF assms(1,2), of ?K])
      (use assms(3-5) in \<open>auto simp: valid_indices_def seg_id_of_def\<close>)
  moreover have "frontier_sibling_positions indices depth = Inr (frontier ?K (unat depth))"
    using assms(3) by (simp add: frontier_sibling_positions_iff)
  ultimately have sib: "exact_frontier_siblings indices depth cs = Some (Inr ?ss)"
    using assms(2,4) st(1) rcl root by (simp add: exact_frontier_siblings_def)
  have rec: "reconstruct_root indices (map (\<lambda>i. leaves_of G (unat i)) indices) ?ss depth = Inr (node_of (leaves_of G) (u_log u) 0)"
    if "\<forall>k. k \<notin> unat ` set indices \<longrightarrow> G k = u_slots u k" for G
    using reconstruct_complete[OF assms(3), of "leaves_of G" ?f] that assms(4) by (simp add: image_image)
  show ?thesis using sib rec[of "u_slots u"] rec root by auto
qed

section \<open>Properties\<close>

text \<open>
  C36: The frontier the engine reads is a multiproof of the ledger.  On a sealed state
  with the touched segments in memory it is read without error, the current values
  of the touched slots verify against the state root, and for any new values of
  those slots the same siblings reconstruct exactly the root of the updated ledger.
\<close>

theorem frontier_authenticates:
  assumes "chain_repr cs u" "ss_exact_dirty (cs_state cs) = {}" "valid_indices indices depth" "unat depth = u_log u"
    "\<forall>i \<in> set indices. seg_id_of (cs_state cs) i \<notin> ss_evicted (cs_state cs)"
  shows "\<exists>siblings. exact_frontier_siblings indices depth cs = Some (Inr siblings) \<and>
    reconstruct_root indices (map (\<lambda>i. slot_leaf_hash (u_slots u (unat i))) indices) siblings depth = Inr (cs_utxo_root cs) \<and>
    (\<forall>G. (\<forall>k. k \<notin> unat ` set indices \<longrightarrow> G k = u_slots u k) \<longrightarrow>
      reconstruct_root indices (map (\<lambda>i. slot_leaf_hash (G (unat i))) indices) siblings depth = Inr (node_of (leaves_of G) (u_log u) 0))"
  using frontier_multiproof[OF assms] by blast

theorem frontier_authenticates_witness:
  "\<exists>cs siblings. with_log_slots 4 = Some cs \<and> exact_frontier_siblings [3, 9] 4 cs = Some (Inr siblings) \<and>
    reconstruct_root [3, 9] [empty_leaf, empty_leaf] siblings 4 = Inr (cs_utxo_root cs)"
proof -
  obtain cs where cs: "with_log_slots 4 = Some cs" "chain_repr cs (empty_ledger 4)" "ss_exact_dirty (cs_state cs) = {}" "ss_evicted (cs_state cs) = {}"
    using with_log_slots_repr[of 4] by auto
  have "valid_indices [3, 9] 4" by (simp add: valid_indices_def)
  from frontier_authenticates[OF cs(2,3) this] cs(1,4) show ?thesis by (auto simp: empty_ledger_def)
qed



end
