(* ===== verification/StateDelta.thy ===== *)
theory StateDelta
  imports ExactTransition
begin

text \<open>
  The ordered touched-slot surface of a block (\<open>state_delta.rs\<close>): the relation a
  light verifier checks instead of applying the transactions.  Every live input and
  output becomes one action with the value read before and written after it; no
  slot may be touched twice in a block, and the slots of the next depth may already
  be minted to.  The builder is shown to accept exactly the blocks that the ledger
  accepts transaction by transaction with pairwise distinct slots, to write the same
  slots, and its sorted form, together with the sibling frontier of the engine, to
  reconstruct the parent root and the root of the ledger after the block.  The raw
  root of \<open>build_state_delta_witness\<close> belongs to the storage commitments and is not
  modelled.
\<close>

section \<open>Actions and surfaces\<close>

datatype state_delta_action_kind = Spend | Mint

record state_delta_action =
  sda_tx_index :: u32
  sda_op_index :: u8
  sda_slot_index :: u32
  sda_pre :: slot_value
  sda_post :: slot_value
  sda_kind :: state_delta_action_kind

record state_delta_action_surface =
  sas_actions :: "state_delta_action list"
  sas_spends :: u32
  sas_mints :: u32

record exact_action_surface =
  eas_actions :: "state_delta_action list"
  eas_touched_indices :: "u32 list"
  eas_old_slots :: "slot_value list"
  eas_new_slots :: "slot_value list"
  eas_spends :: u32
  eas_mints :: u32

datatype state_delta_error =
    SdInputMismatch nat nat
  | SdOutputSlotOccupied nat nat
  | SdClaimsCommitmentMismatch nat
  | SdDuplicateInputSlot nat
  | SdDuplicateOutputSlot nat
  | SdInputOutputSlotOverlap nat
  | SdBlockSlotConflict nat nat
  | SdSlotOutOfRange nat
  | SdInvalidSlotDomain
  | SdAllocationCounterOverflow nat nat
  | SdActionCountOverflow

text \<open>The local variables of the loop over the bodies.\<close>

record surface_state =
  sst_overlay :: "u32 \<rightharpoonup> slot_value"
  sst_actions :: "state_delta_action list"
  sst_spends :: u32
  sst_mints :: u32
  sst_alloc_counter :: u64
  sst_block_touched :: "u32 set"

definition prefix_read :: "segmented_state \<Rightarrow> surface_state \<Rightarrow> u32 \<Rightarrow> slot_value" where
  "prefix_read st ss slot =
    (case sst_overlay ss slot of
       Some v \<Rightarrow> v
     | None \<Rightarrow> if unat slot < num_slots st then slot_of st slot else EMPTY)"

definition push_action :: "state_delta_action \<Rightarrow> surface_state \<Rightarrow> surface_state" where
  "push_action a ss = ss\<lparr> sst_overlay := (sst_overlay ss)(sda_slot_index a \<mapsto> sda_post a),
     sst_actions := sst_actions ss @ [a], sst_block_touched := insert (sda_slot_index a) (sst_block_touched ss) \<rparr>"

definition slot_value_from_input :: "tx_input \<Rightarrow> address \<Rightarrow> slot_value" where
  "slot_value_from_input input owner = with_owner_fields (in_amount input) (in_creation_id input) (digest_fields owner)"

definition slot_value_from_output :: "tx_output \<Rightarrow> u64 \<Rightarrow> slot_value" where
  "slot_value_from_output output creation_id = with_owner_fields (out_amount output) creation_id (digest_fields (out_owner output))"

fun shape_inputs :: "nat \<Rightarrow> (nat \<times> tx_input) list \<Rightarrow> u32 set \<Rightarrow> state_delta_error + u32 set" where
  "shape_inputs tx_idx [] seen = Inr seen"
| "shape_inputs tx_idx ((_, input) # xs) seen =
    (if in_slot_index input \<in> seen then Inl (SdDuplicateInputSlot tx_idx)
     else shape_inputs tx_idx xs (insert (in_slot_index input) seen))"

fun shape_outputs :: "nat \<Rightarrow> (nat \<times> tx_output) list \<Rightarrow> u32 set \<Rightarrow> u32 set \<Rightarrow> state_delta_error + unit" where
  "shape_outputs tx_idx [] ins seen = Inr ()"
| "shape_outputs tx_idx ((_, output) # xs) ins seen =
    (if out_slot_index output \<in> seen then Inl (SdDuplicateOutputSlot tx_idx)
     else if out_slot_index output \<in> ins then Inl (SdInputOutputSlotOverlap tx_idx)
     else shape_outputs tx_idx xs ins (insert (out_slot_index output) seen))"

definition check_tx_slot_shape :: "tx_body \<Rightarrow> nat \<Rightarrow> state_delta_error + unit" where
  "check_tx_slot_shape body tx_idx =
    bind_res (shape_inputs tx_idx (live_inputs body) {}) (\<lambda>ins. shape_outputs tx_idx (live_outputs body) ins {})"

fun surface_inputs :: "segmented_state \<Rightarrow> nat \<Rightarrow> nat \<Rightarrow> address \<Rightarrow> (nat \<times> tx_input) list \<Rightarrow> surface_state
    \<Rightarrow> state_delta_error + surface_state" where
  "surface_inputs st slot_domain tx_idx owner [] ss = Inr ss"
| "surface_inputs st slot_domain tx_idx owner ((i, input) # xs) ss =
    (let slot = in_slot_index input; pre = prefix_read st ss slot
     in if unat slot \<ge> slot_domain then Inl (SdSlotOutOfRange tx_idx)
        else if slot \<in> sst_block_touched ss then Inl (SdBlockSlotConflict tx_idx i)
        else if pre \<noteq> slot_value_from_input input owner then Inl (SdInputMismatch tx_idx i)
        else
          bind_res (ok_or SdActionCountOverflow (checked_add (sst_spends ss) 1)) (\<lambda>spends.
            surface_inputs st slot_domain tx_idx owner xs
              ((push_action \<lparr> sda_tx_index = of_nat tx_idx, sda_op_index = of_nat i, sda_slot_index = slot,
                  sda_pre = pre, sda_post = EMPTY, sda_kind = Spend \<rparr> ss)\<lparr> sst_spends := spends \<rparr>)))"

fun surface_outputs :: "segmented_state \<Rightarrow> nat \<Rightarrow> nat \<Rightarrow> tx_body \<Rightarrow> u64 \<Rightarrow> (nat \<times> tx_output) list \<Rightarrow> surface_state
    \<Rightarrow> state_delta_error + surface_state" where
  "surface_outputs st slot_domain tx_idx body block_height [] ss = Inr ss"
| "surface_outputs st slot_domain tx_idx body block_height ((j, output) # xs) ss =
    (let slot = out_slot_index output; pre = prefix_read st ss slot
     in if unat slot \<ge> slot_domain then Inl (SdSlotOutOfRange tx_idx)
        else if slot \<in> sst_block_touched ss then Inl (SdBlockSlotConflict tx_idx j)
        else if pre \<noteq> EMPTY then Inl (SdOutputSlotOccupied tx_idx j)
        else
          bind_res (ok_or (SdAllocationCounterOverflow tx_idx j) (checked_add (sst_alloc_counter ss) 1)) (\<lambda>next_alloc.
          if is_coinbase_creation_id next_alloc then Inl (SdAllocationCounterOverflow tx_idx j)
          else
            let creation_id = (if is_primary_coinbase_shape body then coinbase_creation_id block_height else next_alloc);
                post = slot_value_from_output output creation_id
            in bind_res (ok_or SdActionCountOverflow (checked_add (sst_mints ss) 1)) (\<lambda>mints.
                 surface_outputs st slot_domain tx_idx body block_height xs
                   ((push_action \<lparr> sda_tx_index = of_nat tx_idx, sda_op_index = of_nat j, sda_slot_index = slot,
                       sda_pre = pre, sda_post = post, sda_kind = Mint \<rparr> ss)\<lparr> sst_mints := mints, sst_alloc_counter := next_alloc \<rparr>))))"

definition surface_tx :: "segmented_state \<Rightarrow> nat \<Rightarrow> (nat \<Rightarrow> digest option) \<Rightarrow> u64 \<Rightarrow> nat \<times> tx_body \<Rightarrow> surface_state
    \<Rightarrow> state_delta_error + surface_state" where
  "surface_tx st slot_domain expected_commitment_at block_height = (\<lambda>(tx_idx, body) ss.
    bind_res (check_tx_slot_shape body tx_idx) (\<lambda>_.
    if (case expected_commitment_at tx_idx of None \<Rightarrow> False | Some c \<Rightarrow> compute_claims_commitment body \<noteq> c)
    then Inl (SdClaimsCommitmentMismatch tx_idx)
    else
      bind_res (surface_inputs st slot_domain tx_idx (input_owner body) (live_inputs body) ss) (\<lambda>ss.
        surface_outputs st slot_domain tx_idx body block_height (live_outputs body) ss)))"

definition build_state_delta_action_surface_in_domain :: "segmented_state \<Rightarrow> nat \<Rightarrow> tx_body list \<Rightarrow> (nat \<Rightarrow> digest option) \<Rightarrow> u64 \<Rightarrow> u64
    \<Rightarrow> state_delta_error + state_delta_action_surface" where
  "build_state_delta_action_surface_in_domain st slot_domain bodies expected_commitment_at parent_alloc_counter block_height =
    (if slot_domain < num_slots st then Inl SdInvalidSlotDomain
     else
       bind_res (fold_res (surface_tx st slot_domain expected_commitment_at block_height) (enumerate 0 bodies)
           \<lparr> sst_overlay = Map.empty, sst_actions = [], sst_spends = 0, sst_mints = 0,
             sst_alloc_counter = parent_alloc_counter, sst_block_touched = {} \<rparr>) (\<lambda>ss.
         Inr \<lparr> sas_actions = sst_actions ss, sas_spends = sst_spends ss, sas_mints = sst_mints ss \<rparr>))"

definition touch_entry :: "state_delta_action \<Rightarrow> (nat \<times> slot_value \<times> slot_value) list \<Rightarrow> (nat \<times> slot_value \<times> slot_value) list" where
  "touch_entry action touched =
    (case map_of touched (unat (sda_slot_index action)) of
       Some (old, _) \<Rightarrow> bt_insert (unat (sda_slot_index action)) (old, sda_post action) touched
     | None \<Rightarrow> bt_insert (unat (sda_slot_index action)) (sda_pre action, sda_post action) touched)"

definition exact_action_surface_from_surface :: "state_delta_action_surface \<Rightarrow> exact_action_surface" where
  "exact_action_surface_from_surface surface =
    (let touched = fold touch_entry (sas_actions surface) []
     in \<lparr> eas_actions = sas_actions surface, eas_touched_indices = map (\<lambda>(idx, _). of_nat idx) touched,
          eas_old_slots = map (\<lambda>(_, old, _). old) touched, eas_new_slots = map (\<lambda>(_, _, new). new) touched,
          eas_spends = sas_spends surface, eas_mints = sas_mints surface \<rparr>)"

definition build_exact_action_surface_at_log_slots_from_source :: "segmented_state \<Rightarrow> u32 \<Rightarrow> tx_body list \<Rightarrow> (nat \<Rightarrow> digest option) \<Rightarrow> u64 \<Rightarrow> u64
    \<Rightarrow> state_delta_error + exact_action_surface" where
  "build_exact_action_surface_at_log_slots_from_source st target_log_slots bodies expected_commitment_at parent_alloc_counter block_height =
    (let current = ss_log_slots st; target = unat target_log_slots
     in if target \<noteq> current \<and> target \<noteq> current + 1 then Inl SdInvalidSlotDomain
        else
          bind_res (ok_or SdInvalidSlotDomain (checked_shl_one target)) (\<lambda>slot_domain.
          bind_res (build_state_delta_action_surface_in_domain st slot_domain bodies expected_commitment_at parent_alloc_counter block_height) (\<lambda>surface.
            Inr (exact_action_surface_from_surface surface))))"

text \<open>The entry points with one expected commitment per body panic when the lists have
  different lengths; the one over resident transactions checks no commitments.\<close>

definition build_state_delta_action_surface :: "segmented_state \<Rightarrow> tx_body list \<Rightarrow> digest list \<Rightarrow> u64 \<Rightarrow> u64
    \<Rightarrow> (state_delta_error, state_delta_action_surface) outcome" where
  "build_state_delta_action_surface st bodies expected_commitments parent_alloc_counter block_height =
    (if length bodies \<noteq> length expected_commitments then None
     else Some (build_state_delta_action_surface_in_domain st (num_slots st) bodies (\<lambda>i. Some (expected_commitments ! i))
       parent_alloc_counter block_height))"

definition build_exact_action_surface :: "segmented_state \<Rightarrow> tx_body list \<Rightarrow> digest list \<Rightarrow> u64 \<Rightarrow> u64
    \<Rightarrow> (state_delta_error, exact_action_surface) outcome" where
  "build_exact_action_surface st bodies expected_commitments parent_alloc_counter block_height =
    bind_out (build_state_delta_action_surface st bodies expected_commitments parent_alloc_counter block_height) (\<lambda>surface.
      Some (Inr (exact_action_surface_from_surface surface)))"

definition build_exact_action_surface_at_log_slots :: "segmented_state \<Rightarrow> u32 \<Rightarrow> tx_body list \<Rightarrow> digest list \<Rightarrow> u64 \<Rightarrow> u64
    \<Rightarrow> (state_delta_error, exact_action_surface) outcome" where
  "build_exact_action_surface_at_log_slots st target_log_slots bodies expected_commitments parent_alloc_counter block_height =
    (if length bodies \<noteq> length expected_commitments then None
     else Some (build_exact_action_surface_at_log_slots_from_source st target_log_slots bodies (\<lambda>i. Some (expected_commitments ! i))
       parent_alloc_counter block_height))"

definition build_exact_action_surface_for_transactions_at_log_slots :: "segmented_state \<Rightarrow> u32 \<Rightarrow> tx_body list \<Rightarrow> u64 \<Rightarrow> u64
    \<Rightarrow> state_delta_error + exact_action_surface" where
  "build_exact_action_surface_for_transactions_at_log_slots st target_log_slots transactions parent_alloc_counter block_height =
    build_exact_action_surface_at_log_slots_from_source st target_log_slots transactions (\<lambda>_. None) parent_alloc_counter block_height"

section \<open>What one transaction contributes\<close>

lemma shape_inputs_iff:
  "shape_inputs t xs seen = Inr s \<longleftrightarrow>
    distinct (map (\<lambda>x. in_slot_index (snd x)) xs) \<and> set (map (\<lambda>x. in_slot_index (snd x)) xs) \<inter> seen = {} \<and>
    s = set (map (\<lambda>x. in_slot_index (snd x)) xs) \<union> seen"
  by (induction t xs seen rule: shape_inputs.induct) auto

lemma shape_outputs_iff:
  "shape_outputs t xs ins seen = Inr () \<longleftrightarrow>
    distinct (map (\<lambda>x. out_slot_index (snd x)) xs) \<and> set (map (\<lambda>x. out_slot_index (snd x)) xs) \<inter> (seen \<union> ins) = {}"
  by (induction t xs ins seen rule: shape_outputs.induct) auto

lemma check_tx_slot_shape_iff:
  "check_tx_slot_shape body t = Inr () \<longleftrightarrow> distinct (live_input_slots body @ live_output_slots body)"
  by (auto simp: check_tx_slot_shape_def shape_inputs_iff shape_outputs_iff live_input_slots_def live_output_slots_def)

definition spend_acts :: "nat \<Rightarrow> address \<Rightarrow> (nat \<times> tx_input) list \<Rightarrow> state_delta_action list" where
  "spend_acts t owner = map (\<lambda>(i, input). \<lparr> sda_tx_index = of_nat t, sda_op_index = of_nat i, sda_slot_index = in_slot_index input,
    sda_pre = slot_value_from_input input owner, sda_post = EMPTY, sda_kind = Spend \<rparr>)"

fun mint_acts :: "nat \<Rightarrow> tx_body \<Rightarrow> u64 \<Rightarrow> nat \<Rightarrow> (nat \<times> tx_output) list \<Rightarrow> state_delta_action list" where
  "mint_acts t body h a [] = []"
| "mint_acts t body h a ((j, out) # xs) =
    \<lparr> sda_tx_index = of_nat t, sda_op_index = of_nat j, sda_slot_index = out_slot_index out, sda_pre = EMPTY,
      sda_post = slot_value_from_output out (if is_primary_coinbase_shape body then coinbase_creation_id h else of_nat (Suc a)),
      sda_kind = Mint \<rparr> # mint_acts t body h (Suc a) xs"

abbreviation act_writes :: "state_delta_action list \<Rightarrow> (u32 \<times> slot_value) list" where
  "act_writes \<equiv> map (\<lambda>a. (sda_slot_index a, sda_post a))"

lemma act_slots [simp]:
  "map sda_slot_index (spend_acts t owner xs) = map (\<lambda>x. in_slot_index (snd x)) xs"
  "map sda_slot_index (mint_acts t body h a ys) = map (\<lambda>x. out_slot_index (snd x)) ys"
  by (simp add: spend_acts_def split_def) (induction t body h a ys rule: mint_acts.induct; simp)

lemma act_lengths [simp]: "length (spend_acts t owner xs) = length xs" "length (mint_acts t body h a ys) = length ys"
  by (simp add: spend_acts_def) (induction t body h a ys rule: mint_acts.induct; simp)

lemma act_writes_tx:
  "act_writes (spend_acts t (input_owner body) (live_inputs body) @ mint_acts t body h (u_alloc u) (live_outputs body)) =
    utxo_deltas u body (Some h)"
proof -
  have "act_writes (mint_acts t body h a ys) = minted body (Some h) a ys" for a ys
    by (induction t body h a ys rule: mint_acts.induct) (simp_all add: slot_value_from_output_def)
  then show ?thesis by (simp add: utxo_deltas_def spend_acts_def split_def)
qed

lemma fold_push_parts [simp]:
  "sst_spends (fold push_action as ss) = sst_spends ss" "sst_mints (fold push_action as ss) = sst_mints ss"
  "sst_alloc_counter (fold push_action as ss) = sst_alloc_counter ss"
  "sst_actions (fold push_action as ss) = sst_actions ss @ as"
  "sst_block_touched (fold push_action as ss) = sst_block_touched ss \<union> set (map sda_slot_index as)"
  by (induction as arbitrary: ss) (auto simp: push_action_def)

lemma push_counters [simp]:
  "push_action a (ss\<lparr> sst_spends := n \<rparr>) = (push_action a ss)\<lparr> sst_spends := n \<rparr>"
  "push_action a (ss\<lparr> sst_mints := n \<rparr>) = (push_action a ss)\<lparr> sst_mints := n \<rparr>"
  "push_action a (ss\<lparr> sst_alloc_counter := c \<rparr>) = (push_action a ss)\<lparr> sst_alloc_counter := c \<rparr>"
  by (simp_all add: push_action_def)

lemma fold_push_counters [simp]:
  "fold push_action as (ss\<lparr> sst_spends := n \<rparr>) = (fold push_action as ss)\<lparr> sst_spends := n \<rparr>"
  "fold push_action as (ss\<lparr> sst_mints := n \<rparr>) = (fold push_action as ss)\<lparr> sst_mints := n \<rparr>"
  "fold push_action as (ss\<lparr> sst_alloc_counter := c \<rparr>) = (fold push_action as ss)\<lparr> sst_alloc_counter := c \<rparr>"
  by (induction as arbitrary: ss) simp_all

lemma prefix_read_parts [simp]:
  "prefix_read st (ss\<lparr> sst_spends := n \<rparr>) s = prefix_read st ss s" "prefix_read st (ss\<lparr> sst_mints := n \<rparr>) s = prefix_read st ss s"
  "prefix_read st (ss\<lparr> sst_alloc_counter := c \<rparr>) s = prefix_read st ss s"
  by (simp_all add: prefix_read_def)

lemma prefix_read_push [simp]:
  "prefix_read st (push_action a ss) s = (if s = sda_slot_index a then sda_post a else prefix_read st ss s)"
  by (simp add: prefix_read_def push_action_def)

lemma prefix_read_fold: "s \<notin> set (map sda_slot_index as) \<Longrightarrow> prefix_read st (fold push_action as ss) s = prefix_read st ss s"
  by (induction as arbitrary: ss) simp_all

lemma surface_inputs_iff:
  assumes "distinct (map (\<lambda>x. in_slot_index (snd x)) xs)"
  shows "surface_inputs st bnd t owner xs ss = Inr ss' \<longleftrightarrow>
    (\<forall>(_, i) \<in> set xs. unat (in_slot_index i) < bnd \<and> in_slot_index i \<notin> sst_block_touched ss \<and>
      prefix_read st ss (in_slot_index i) = slot_value_from_input i owner) \<and>
    unat (sst_spends ss) + length xs < 2 ^ 32 \<and>
    ss' = (fold push_action (spend_acts t owner xs) ss)\<lparr> sst_spends := sst_spends ss + of_nat (length xs) \<rparr>"
  using assms
proof (induction xs arbitrary: ss)
  case Nil
  then show ?case using unat_lt_pow[of "sst_spends ss"] by (auto simp: spend_acts_def)
next
  case (Cons x xs)
  obtain j i where x: "x = (j, i)" by (cases x)
  let ?s = "in_slot_index i"
  show ?case
  proof (cases "unat ?s < bnd \<and> ?s \<notin> sst_block_touched ss \<and> prefix_read st ss ?s = slot_value_from_input i owner \<and> unat (sst_spends ss) + 1 < 2 ^ 32")
    case True
    then have add: "checked_add (sst_spends ss) 1 = Some (sst_spends ss + 1)" and u: "unat (sst_spends ss + 1) = Suc (unat (sst_spends ss))"
      by (simp_all add: checked_add_def unat_plus_lt)
    define a where "a = \<lparr> sda_tx_index = of_nat t, sda_op_index = of_nat j, sda_slot_index = ?s,
      sda_pre = slot_value_from_input i owner, sda_post = EMPTY, sda_kind = Spend \<rparr>"
    define ss1 where "ss1 = (push_action a ss)\<lparr> sst_spends := sst_spends ss + 1 \<rparr>"
    have "surface_inputs st bnd t owner (x # xs) ss = surface_inputs st bnd t owner xs ss1"
      using True by (simp add: x add Let_def ss1_def a_def)
    moreover have "spend_acts t owner (x # xs) = a # spend_acts t owner xs" by (simp add: spend_acts_def x a_def)
    moreover have touched1: "sst_block_touched ss1 = insert ?s (sst_block_touched ss)" "sst_spends ss1 = sst_spends ss + 1"
      by (simp_all add: ss1_def push_action_def a_def)
    moreover have "prefix_read st ss1 (in_slot_index i') = prefix_read st ss (in_slot_index i')" "in_slot_index i' \<noteq> ?s" if "(k, i') \<in> set xs" for k i'
    proof -
      show "in_slot_index i' \<noteq> ?s" using Cons.prems that x by force
      then show "prefix_read st ss1 (in_slot_index i') = prefix_read st ss (in_slot_index i')" by (simp add: ss1_def a_def)
    qed
    then have "(\<forall>(_, i') \<in> set xs. unat (in_slot_index i') < bnd \<and> in_slot_index i' \<notin> sst_block_touched ss1 \<and>
        prefix_read st ss1 (in_slot_index i') = slot_value_from_input i' owner) \<longleftrightarrow>
      (\<forall>(_, i') \<in> set xs. unat (in_slot_index i') < bnd \<and> in_slot_index i' \<notin> sst_block_touched ss \<and>
        prefix_read st ss (in_slot_index i') = slot_value_from_input i' owner)"
      using touched1(1) by fastforce
    ultimately show ?thesis
      using Cons.IH[of ss1] Cons.prems True u by (simp add: x ss1_def ac_simps)
  next
    case False
    then have "surface_inputs st bnd t owner (x # xs) ss \<noteq> Inr ss'"
      by (auto simp: x Let_def checked_add_def)
    with False show ?thesis by (auto simp: x simp del: surface_inputs.simps)
  qed
qed

lemma surface_outputs_iff:
  assumes "distinct (map (\<lambda>x. out_slot_index (snd x)) xs)" "unat (sst_alloc_counter ss) < 2 ^ 63"
  shows "surface_outputs st bnd t body h xs ss = Inr ss' \<longleftrightarrow>
    (\<forall>(_, out) \<in> set xs. unat (out_slot_index out) < bnd \<and> out_slot_index out \<notin> sst_block_touched ss \<and>
      prefix_read st ss (out_slot_index out) = EMPTY) \<and>
    unat (sst_alloc_counter ss) + length xs < 2 ^ 63 \<and> unat (sst_mints ss) + length xs < 2 ^ 32 \<and>
    ss' = (fold push_action (mint_acts t body h (unat (sst_alloc_counter ss)) xs) ss)
      \<lparr> sst_mints := sst_mints ss + of_nat (length xs), sst_alloc_counter := sst_alloc_counter ss + of_nat (length xs) \<rparr>"
  using assms
proof (induction xs arbitrary: ss)
  case Nil
  then show ?case using unat_lt_pow[of "sst_mints ss"] by auto
next
  case (Cons x xs)
  obtain j out where x: "x = (j, out)" by (cases x)
  let ?s = "out_slot_index out" and ?n = "sst_alloc_counter ss"
  have add: "checked_add ?n 1 = Some (?n + 1)" and u: "unat (?n + 1) = Suc (unat ?n)"
    using Cons.prems(2) by (simp_all add: checked_add_def unat_plus_lt)
  have tag: "is_coinbase_creation_id (?n + 1) \<longleftrightarrow> \<not> Suc (unat ?n) < 2 ^ 63" by (auto simp: coinbase_tag_bit bit_63_iff u)
  show ?case
  proof (cases "unat ?s < bnd \<and> ?s \<notin> sst_block_touched ss \<and> prefix_read st ss ?s = EMPTY \<and> Suc (unat ?n) < 2 ^ 63 \<and> unat (sst_mints ss) + 1 < 2 ^ 32")
    case True
    then have addm: "checked_add (sst_mints ss) 1 = Some (sst_mints ss + 1)" and um: "unat (sst_mints ss + 1) = Suc (unat (sst_mints ss))"
      by (simp_all add: checked_add_def unat_plus_lt)
    define a where "a = \<lparr> sda_tx_index = of_nat t, sda_op_index = of_nat j, sda_slot_index = ?s, sda_pre = EMPTY,
      sda_post = slot_value_from_output out (if is_primary_coinbase_shape body then coinbase_creation_id h else ?n + 1), sda_kind = Mint \<rparr>"
    define ss1 where "ss1 = (push_action a ss)\<lparr> sst_mints := sst_mints ss + 1, sst_alloc_counter := ?n + 1 \<rparr>"
    have "surface_outputs st bnd t body h (x # xs) ss = surface_outputs st bnd t body h xs ss1"
      using True tag by (simp add: x add addm Let_def ss1_def a_def)
    moreover have "(of_nat (Suc (unat ?n)) :: u64) = ?n + 1" by simp
    then have "mint_acts t body h (unat ?n) (x # xs) = a # mint_acts t body h (unat (?n + 1)) xs"
      unfolding u by (simp add: x a_def del: of_nat_Suc)
    moreover have ss1: "sst_block_touched ss1 = insert ?s (sst_block_touched ss)" "sst_mints ss1 = sst_mints ss + 1" "sst_alloc_counter ss1 = ?n + 1"
      by (simp_all add: ss1_def push_action_def a_def)
    moreover have "prefix_read st ss1 (out_slot_index o') = prefix_read st ss (out_slot_index o')" "out_slot_index o' \<noteq> ?s" if "(k, o') \<in> set xs" for k o'
    proof -
      show "out_slot_index o' \<noteq> ?s" using Cons.prems that x by force
      then show "prefix_read st ss1 (out_slot_index o') = prefix_read st ss (out_slot_index o')" by (simp add: ss1_def a_def)
    qed
    then have "(\<forall>(_, o') \<in> set xs. unat (out_slot_index o') < bnd \<and> out_slot_index o' \<notin> sst_block_touched ss1 \<and>
        prefix_read st ss1 (out_slot_index o') = EMPTY) \<longleftrightarrow>
      (\<forall>(_, o') \<in> set xs. unat (out_slot_index o') < bnd \<and> out_slot_index o' \<notin> sst_block_touched ss \<and>
        prefix_read st ss (out_slot_index o') = EMPTY)"
      using ss1(1) by fastforce
    ultimately show ?thesis
      using Cons.IH[of ss1] Cons.prems True u um by (simp add: x ss1_def ac_simps)
  next
    case False
    then have "surface_outputs st bnd t body h (x # xs) ss \<noteq> Inr ss'"
      using tag by (auto simp: x Let_def add checked_add_def[of "sst_mints ss"])
    with False show ?thesis by (auto simp: x simp del: surface_outputs.simps)
  qed
qed

section \<open>A block on the ledger\<close>

fun utxo_block :: "u64 \<Rightarrow> tx_body list \<Rightarrow> utxo \<Rightarrow> utxo option" where
  "utxo_block h [] u = Some u"
| "utxo_block h (body # bodies) u =
    (if utxo_accepts u body (Some h) then utxo_block h bodies (utxo_after u body (Some h)) else None)"

abbreviation body_slots :: "tx_body \<Rightarrow> u32 list" where
  "body_slots body \<equiv> live_input_slots body @ live_output_slots body"

text \<open>What a light verifier cannot see of the ledger's checks: the active count.  It
  follows from the invariant of the ledger.\<close>

lemma active_enough:
  assumes "utxo_inv u" "claims_live body" "distinct (body_slots body)" "u_log u \<le> 32" "\<forall>k \<ge> 2 ^ u_log u. u_slots u k = EMPTY"
    and "\<forall>(_, i) \<in> set (live_inputs body). u_slots u (unat (in_slot_index i)) = claimed body i" "wf_body body"
  shows "length (live_inputs body) \<le> u_active u" "u_active u - length (live_inputs body) + length (live_outputs body) < 2 ^ 64"
proof -
  let ?K = "{k. u_slots u k \<noteq> EMPTY}" and ?xs = "live_inputs body"
  have fin: "finite ?K" and act: "u_active u = card ?K" using assms(1) by (auto simp: utxo_inv_def live_count_def)
  have "distinct (map (\<lambda>x. unat (in_slot_index (snd x))) ?xs)"
    using assms(3) by (auto simp: live_input_slots_def distinct_map inj_on_def word_unat_eq_iff)
  then have "length ?xs = card (set (map (\<lambda>x. unat (in_slot_index (snd x))) ?xs))" using distinct_card by fastforce
  also have "\<dots> \<le> card ?K" by (rule card_mono[OF fin]) (use assms(2,6) in \<open>fastforce simp: claims_live_def\<close>)
  finally show "length ?xs \<le> u_active u" by (simp add: act)
  have "?K \<subseteq> {..<2 ^ u_log u}" using assms(5) by (auto simp: not_less[symmetric])
  then have "card ?K \<le> 2 ^ u_log u" using card_mono[of "{..<(2 :: nat) ^ u_log u}" ?K] by simp
  also have "\<dots> \<le> 2 ^ 32" using assms(4) by (intro power_increasing) auto
  finally show "u_active u - length ?xs + length (live_outputs body) < 2 ^ 64"
    using live_count_bounds[OF assms(7)] by (simp add: act, linarith)
qed

abbreviation slot_resident :: "segmented_state \<Rightarrow> u32 \<Rightarrow> bool" where
  "slot_resident st s \<equiv> unat s < num_slots st \<longrightarrow> \<not> is_evicted st (seg_id_of st s)"

definition commitment_ok :: "(nat \<Rightarrow> digest option) \<Rightarrow> nat \<Rightarrow> tx_body \<Rightarrow> bool" where
  "commitment_ok c t body \<longleftrightarrow> (case c t of None \<Rightarrow> True | Some d \<Rightarrow> compute_claims_commitment body = d)"

definition tx_acts :: "nat \<Rightarrow> tx_body \<Rightarrow> u64 \<Rightarrow> nat \<Rightarrow> state_delta_action list" where
  "tx_acts t body h a = spend_acts t (input_owner body) (live_inputs body) @ mint_acts t body h a (live_outputs body)"

definition surface_after :: "nat \<Rightarrow> tx_body \<Rightarrow> u64 \<Rightarrow> surface_state \<Rightarrow> surface_state" where
  "surface_after t body h ss =
    (fold push_action (tx_acts t body h (unat (sst_alloc_counter ss))) ss)
      \<lparr> sst_spends := sst_spends ss + of_nat (length (live_inputs body)), sst_mints := sst_mints ss + of_nat (length (live_outputs body)),
        sst_alloc_counter := sst_alloc_counter ss + of_nat (length (live_outputs body)) \<rparr>"

lemma tx_acts_slots: "map sda_slot_index (tx_acts t body h a) = body_slots body"
  by (simp add: tx_acts_def live_input_slots_def live_output_slots_def)

lemma surface_tx_iff:
  assumes "unat (sst_alloc_counter ss) < 2 ^ 63"
  shows "surface_tx st bnd c h (t, body) ss = Inr ss' \<longleftrightarrow>
    distinct (body_slots body) \<and> commitment_ok c t body \<and>
    (\<forall>s \<in> set (body_slots body). unat s < bnd \<and> s \<notin> sst_block_touched ss) \<and>
    (\<forall>(_, i) \<in> set (live_inputs body). prefix_read st ss (in_slot_index i) = claimed body i) \<and>
    (\<forall>(_, out) \<in> set (live_outputs body). prefix_read st ss (out_slot_index out) = EMPTY) \<and>
    unat (sst_spends ss) + length (live_inputs body) < 2 ^ 32 \<and> unat (sst_mints ss) + length (live_outputs body) < 2 ^ 32 \<and>
    unat (sst_alloc_counter ss) + length (live_outputs body) < 2 ^ 63 \<and> ss' = surface_after t body h ss"
proof (cases "distinct (body_slots body) \<and> commitment_ok c t body")
  case False
  then have "surface_tx st bnd c h (t, body) ss \<noteq> Inr ss'"
    by (auto simp: surface_tx_def check_tx_slot_shape_iff commitment_ok_def split: option.splits)
  with False show ?thesis by blast
next
  case True
  let ?xs = "live_inputs body" and ?ys = "live_outputs body"
  define ss1 where "ss1 = (fold push_action (spend_acts t (input_owner body) ?xs) ss)\<lparr> sst_spends := sst_spends ss + of_nat (length ?xs) \<rparr>"
  have d: "distinct (map (\<lambda>x. in_slot_index (snd x)) ?xs)" "distinct (map (\<lambda>x. out_slot_index (snd x)) ?ys)"
    "set (map (\<lambda>x. in_slot_index (snd x)) ?xs) \<inter> set (map (\<lambda>x. out_slot_index (snd x)) ?ys) = {}"
    using True by (simp_all add: live_input_slots_def live_output_slots_def)
  have run: "surface_tx st bnd c h (t, body) ss =
      bind_res (surface_inputs st bnd t (input_owner body) ?xs ss) (surface_outputs st bnd t body h ?ys)"
    using True check_tx_slot_shape_iff[of body t] by (simp add: surface_tx_def commitment_ok_def split: option.splits)
  have ss1: "sst_alloc_counter ss1 = sst_alloc_counter ss" "sst_mints ss1 = sst_mints ss"
    "sst_block_touched ss1 = sst_block_touched ss \<union> set (map (\<lambda>x. in_slot_index (snd x)) ?xs)"
    by (simp_all add: ss1_def del: set_map)
  have out: "out_slot_index out \<notin> sst_block_touched ss1 \<longleftrightarrow> out_slot_index out \<notin> sst_block_touched ss"
    "prefix_read st ss1 (out_slot_index out) = prefix_read st ss (out_slot_index out)" if "(j, out) \<in> set ?ys" for j out
  proof -
    have "out_slot_index out \<in> set (map (\<lambda>x. out_slot_index (snd x)) ?ys)" using that by force
    then have n: "out_slot_index out \<notin> set (map (\<lambda>x. in_slot_index (snd x)) ?xs)" using d(3) by blast
    then show "out_slot_index out \<notin> sst_block_touched ss1 \<longleftrightarrow> out_slot_index out \<notin> sst_block_touched ss" by (simp add: ss1(3))
    show "prefix_read st ss1 (out_slot_index out) = prefix_read st ss (out_slot_index out)"
      unfolding ss1_def using n by (simp only: prefix_read_parts, subst prefix_read_fold) (simp_all del: set_map)
  qed
  have after: "(fold push_action (mint_acts t body h (unat (sst_alloc_counter ss1)) ?ys) ss1)
      \<lparr> sst_mints := sst_mints ss1 + of_nat (length ?ys), sst_alloc_counter := sst_alloc_counter ss1 + of_nat (length ?ys) \<rparr> = surface_after t body h ss"
    unfolding ss1(1,2) by (simp add: ss1_def surface_after_def tx_acts_def)
  have "surface_outputs st bnd t body h ?ys ss1 = Inr ss' \<longleftrightarrow>
    (\<forall>(_, out) \<in> set ?ys. unat (out_slot_index out) < bnd \<and> out_slot_index out \<notin> sst_block_touched ss \<and>
      prefix_read st ss (out_slot_index out) = EMPTY) \<and>
    unat (sst_alloc_counter ss) + length ?ys < 2 ^ 63 \<and> unat (sst_mints ss) + length ?ys < 2 ^ 32 \<and> ss' = surface_after t body h ss"
  proof -
    have "(\<forall>(_, out) \<in> set ?ys. unat (out_slot_index out) < bnd \<and> out_slot_index out \<notin> sst_block_touched ss1 \<and>
        prefix_read st ss1 (out_slot_index out) = EMPTY) \<longleftrightarrow>
      (\<forall>(_, out) \<in> set ?ys. unat (out_slot_index out) < bnd \<and> out_slot_index out \<notin> sst_block_touched ss \<and>
        prefix_read st ss (out_slot_index out) = EMPTY)"
    proof (rule ball_cong[OF refl])
      show "(case x of (_, out) \<Rightarrow> unat (out_slot_index out) < bnd \<and> out_slot_index out \<notin> sst_block_touched ss1 \<and>
          prefix_read st ss1 (out_slot_index out) = EMPTY) \<longleftrightarrow>
        (case x of (_, out) \<Rightarrow> unat (out_slot_index out) < bnd \<and> out_slot_index out \<notin> sst_block_touched ss \<and>
          prefix_read st ss (out_slot_index out) = EMPTY)" if "x \<in> set ?ys" for x
        using out[of "fst x" "snd x"] that by (simp add: split_def)
    qed
    then show ?thesis using surface_outputs_iff[OF d(2), of ss1 st bnd t body h ss'] assms by (simp add: ss1(1,2) after[unfolded ss1(1,2)])
  qed
  moreover have "bind_res (surface_inputs st bnd t (input_owner body) ?xs ss) (surface_outputs st bnd t body h ?ys) = Inr ss' \<longleftrightarrow>
    (\<forall>(_, i) \<in> set ?xs. unat (in_slot_index i) < bnd \<and> in_slot_index i \<notin> sst_block_touched ss \<and>
      prefix_read st ss (in_slot_index i) = slot_value_from_input i (input_owner body)) \<and>
    unat (sst_spends ss) + length ?xs < 2 ^ 32 \<and> surface_outputs st bnd t body h ?ys ss1 = Inr ss'"
    unfolding bind_res_Inr_iff surface_inputs_iff[OF d(1)] ss1_def by simp
  moreover have "(\<forall>s \<in> set (body_slots body). unat s < bnd \<and> s \<notin> sst_block_touched ss) \<longleftrightarrow>
    (\<forall>(_, i) \<in> set ?xs. unat (in_slot_index i) < bnd \<and> in_slot_index i \<notin> sst_block_touched ss) \<and>
    (\<forall>(_, out) \<in> set ?ys. unat (out_slot_index out) < bnd \<and> out_slot_index out \<notin> sst_block_touched ss)"
    by (simp add: live_input_slots_def live_output_slots_def ball_Un split_def)
  ultimately show ?thesis using True unfolding run slot_value_from_input_def by fast
qed

section \<open>The surface follows the ledger\<close>

definition surface_inv :: "segmented_state \<Rightarrow> utxo \<Rightarrow> surface_state \<Rightarrow> utxo \<Rightarrow> bool" where
  "surface_inv st u0 ss u \<longleftrightarrow>
    (\<forall>s. unat s < 2 ^ u_log u \<longrightarrow> slot_resident st s \<longrightarrow> prefix_read st ss s = u_slots u (unat s)) \<and>
    u_log u = u_log u0 \<and> u_log u \<le> 32 \<and> (\<forall>k \<ge> 2 ^ u_log u. u_slots u k = EMPTY) \<and> utxo_inv u \<and>
    unat (sst_alloc_counter ss) = u_alloc u \<and> sst_block_touched ss = set (map sda_slot_index (sst_actions ss)) \<and>
    distinct (map sda_slot_index (sst_actions ss)) \<and>
    (\<forall>a \<in> set (sst_actions ss). unat (sda_slot_index a) < 2 ^ u_log u \<and> sda_pre a = u_slots u0 (unat (sda_slot_index a))) \<and>
    u_slots u = write_map (act_writes (sst_actions ss)) (u_slots u0) \<and>
    u_active u + unat (sst_spends ss) = u_active u0 + unat (sst_mints ss) \<and> u_alloc u = u_alloc u0 + unat (sst_mints ss)"

lemma write_map_high:
  assumes "\<forall>(i, v) \<in> set ws. unat i < n" "\<forall>k \<ge> n. F k = EMPTY"
  shows "\<forall>k \<ge> n. write_map ws F k = EMPTY"
proof clarify
  fix k assume "n \<le> k"
  then have "k \<notin> unat ` fst ` set ws" using assms(1) by fastforce
  then show "write_map ws F k = EMPTY" using assms(2) \<open>n \<le> k\<close> by (subst write_map_notin) auto
qed

lemma prefix_read_writes:
  assumes "prefix_read st ss s = F (unat s)"
  shows "prefix_read st (fold push_action as ss) s = write_map (act_writes as) F (unat s)"
  using assms
proof (induction as arbitrary: ss F)
  case (Cons a as)
  have "prefix_read st (push_action a ss) s = (F(unat (sda_slot_index a) := sda_post a)) (unat s)"
    using Cons.prems by (simp add: word_unat_eq_iff)
  then show ?case using Cons.IH[of "push_action a ss" "F(unat (sda_slot_index a) := sda_post a)"] by (simp del: fun_upd_apply)
qed simp

text \<open>The values before the actions of an accepted transaction are those of the ledger.\<close>

lemma tx_acts_pre:
  assumes "utxo_accepts u body (Some h)" "a \<in> set (tx_acts t body h n)"
  shows "unat (sda_slot_index a) < 2 ^ u_log u \<and> sda_pre a = u_slots u (unat (sda_slot_index a))"
proof -
  have m: "a \<in> set (mint_acts t body h n ys) \<Longrightarrow> \<exists>x \<in> set ys. sda_slot_index a = out_slot_index (snd x) \<and> sda_pre a = EMPTY" for ys
    by (induction t body h n ys rule: mint_acts.induct) auto
  have s: "a \<in> set (spend_acts t (input_owner body) xs) \<Longrightarrow>
      \<exists>x \<in> set xs. sda_slot_index a = in_slot_index (snd x) \<and> sda_pre a = claimed body (snd x)" for xs
    by (force simp: spend_acts_def slot_value_from_input_def)
  from assms(2) consider "a \<in> set (spend_acts t (input_owner body) (live_inputs body))" | "a \<in> set (mint_acts t body h n (live_outputs body))"
    by (auto simp: tx_acts_def)
  then show ?thesis
  proof cases
    case 1
    then show ?thesis using s accepts_input[OF assms(1)] by (metis prod.collapse)
  next
    case 2
    then show ?thesis using m accepts_output[OF assms(1)] by (metis prod.collapse)
  qed
qed

lemma surface_inv_after:
  assumes inv: "surface_inv st u0 ss u" and acc: "utxo_accepts u body (Some h)" and cl: "claims_live body"
    and free: "set (body_slots body) \<inter> sst_block_touched ss = {}"
    and fits: "unat (sst_spends ss) + length (live_inputs body) < 2 ^ 32" "unat (sst_mints ss) + length (live_outputs body) < 2 ^ 32"
  shows "surface_inv st u0 (surface_after t body h ss) (utxo_after u body (Some h))"
proof -
  let ?as = "tx_acts t body h (u_alloc u)" and ?ss = "surface_after t body h ss" and ?u = "utxo_after u body (Some h)"
  have I: "\<And>s. unat s < 2 ^ u_log u \<Longrightarrow> slot_resident st s \<Longrightarrow> prefix_read st ss s = u_slots u (unat s)"
      "u_log u = u_log u0" "u_log u \<le> 32" "\<forall>k \<ge> 2 ^ u_log u. u_slots u k = EMPTY" "utxo_inv u"
    and a: "unat (sst_alloc_counter ss) = u_alloc u"
    and t: "sst_block_touched ss = set (map sda_slot_index (sst_actions ss))" "distinct (map sda_slot_index (sst_actions ss))"
      "\<forall>a \<in> set (sst_actions ss). unat (sda_slot_index a) < 2 ^ u_log u \<and> sda_pre a = u_slots u0 (unat (sda_slot_index a))"
    and m: "u_slots u = write_map (act_writes (sst_actions ss)) (u_slots u0)"
    and c: "u_active u + unat (sst_spends ss) = u_active u0 + unat (sst_mints ss)" "u_alloc u = u_alloc u0 + unat (sst_mints ss)"
    using inv unfolding surface_inv_def by blast+
  have w: "act_writes ?as = utxo_deltas u body (Some h)" by (simp only: tx_acts_def act_writes_tx)
  have parts: "sst_actions ?ss = sst_actions ss @ ?as" "sst_block_touched ?ss = sst_block_touched ss \<union> set (body_slots body)"
    by (simp_all add: surface_after_def a tx_acts_slots[of t body h "u_alloc u", symmetric])
  have d: "distinct (body_slots body)" and lim: "u_alloc u + length (live_outputs body) < 2 ^ 63" "length (live_inputs body) \<le> u_active u"
    using acc by (auto simp: utxo_accepts_def)
  have pre: "unat (sda_slot_index b) < 2 ^ u_log u \<and> sda_pre b = u_slots u (unat (sda_slot_index b))" if "b \<in> set ?as" for b
    using tx_acts_pre[OF acc that] .
  have same: "u_slots u (unat s) = u_slots u0 (unat s)" if "s \<in> set (body_slots body)" for s
  proof -
    have "s \<notin> set (map sda_slot_index (sst_actions ss))" using free that t(1) by blast
    then have "unat s \<notin> unat ` fst ` set (act_writes (sst_actions ss))" by (auto simp: image_iff simp flip: word_unat_eq_iff)
    from write_map_notin[OF this, of "u_slots u0"] show ?thesis by (simp only: m)
  qed
  have slots: "sda_slot_index b \<in> set (body_slots body)" if "b \<in> set ?as" for b
    using that tx_acts_slots[of t body h "u_alloc u"] by (metis image_eqI list.set_map)
  have "\<forall>(i, v) \<in> set (utxo_deltas u body (Some h)). unat i < 2 ^ u_log u"
    unfolding w[symmetric] using pre by auto
  then have high: "\<forall>k \<ge> 2 ^ u_log u. u_slots ?u k = EMPTY"
    using write_map_high[of "utxo_deltas u body (Some h)" "2 ^ u_log u" "u_slots u"] I(4) by (simp add: utxo_after_def)
  have reads: "prefix_read st ?ss s = u_slots ?u (unat s)" if "unat s < 2 ^ u_log u" "slot_resident st s" for s
    using prefix_read_writes[of st ss s "u_slots u" ?as] I(1)[OF that] unfolding w by (simp add: surface_after_def a utxo_after_def)
  have ids: "utxo_inv ?u" using utxo_after_inv[OF I(5) acc cl] .
  have counters: "unat (sst_spends ?ss) = unat (sst_spends ss) + length (live_inputs body)"
    "unat (sst_mints ?ss) = unat (sst_mints ss) + length (live_outputs body)"
    "unat (sst_alloc_counter ?ss) = u_alloc u + length (live_outputs body)"
    using fits lim a by (simp_all add: surface_after_def unat_plus_lt unat_of_nat_lt)
  have u: "u_log ?u = u_log u" "u_slots ?u = write_map (utxo_deltas u body (Some h)) (u_slots u)"
    "u_active ?u = u_active u - length (live_inputs body) + length (live_outputs body)" "u_alloc ?u = u_alloc u + length (live_outputs body)"
    by (simp_all add: utxo_after_def)
  show ?thesis
    unfolding surface_inv_def u(1)
  proof (intro conjI allI impI)
    show "distinct (map sda_slot_index (sst_actions ?ss))"
      using t(1,2) d free unfolding parts(1) map_append tx_acts_slots by (simp only: distinct_append) blast
    show "\<forall>a \<in> set (sst_actions ?ss). unat (sda_slot_index a) < 2 ^ u_log u \<and> sda_pre a = u_slots u0 (unat (sda_slot_index a))"
      using t(3) pre same slots by (auto simp: parts(1))
    show "u_slots ?u = write_map (act_writes (sst_actions ?ss)) (u_slots u0)"
      by (simp only: u(2) parts(1) w m map_append fold_append comp_apply)
    show "sst_block_touched ?ss = set (map sda_slot_index (sst_actions ?ss))"
      by (simp only: parts t(1) map_append set_append tx_acts_slots)
  qed (use I(2,3) reads high ids counters u lim c in \<open>simp_all\<close>)
qed

lemma surface_step:
  assumes inv: "surface_inv st u0 ss u" and body: "wf_body body" "claims_live body" "\<forall>s \<in> set (body_slots body). slot_resident st s"
    and fits: "unat (sst_spends ss) + 8 < 2 ^ 32" "unat (sst_mints ss) + 2 < 2 ^ 32" and com: "commitment_ok c t body"
  shows "surface_tx st (2 ^ u_log u) c h (t, body) ss = Inr ss' \<longleftrightarrow>
    utxo_accepts u body (Some h) \<and> set (body_slots body) \<inter> sst_block_touched ss = {} \<and> ss' = surface_after t body h ss"
proof -
  have I: "\<And>s. unat s < 2 ^ u_log u \<Longrightarrow> slot_resident st s \<Longrightarrow> prefix_read st ss s = u_slots u (unat s)"
    "u_log u \<le> 32" "\<forall>k \<ge> 2 ^ u_log u. u_slots u k = EMPTY" "utxo_inv u" "unat (sst_alloc_counter ss) = u_alloc u"
    using inv unfolding surface_inv_def by blast+
  have lens: "length (live_inputs body) \<le> 8" "length (live_outputs body) \<le> 2" using live_count_bounds[OF body(1)] by simp_all
  have slot: "in_slot_index i \<in> set (body_slots body)" if "(j, i) \<in> set (live_inputs body)" for j i
    using that by (force simp: live_input_slots_def)
  have slot': "out_slot_index out \<in> set (body_slots body)" if "(j, out) \<in> set (live_outputs body)" for j out
    using that by (force simp: live_output_slots_def)
  define ok where "ok \<longleftrightarrow> distinct (body_slots body) \<and> (\<forall>s \<in> set (body_slots body). unat s < 2 ^ u_log u) \<and>
    (\<forall>(_, i) \<in> set (live_inputs body). u_slots u (unat (in_slot_index i)) = claimed body i) \<and>
    (\<forall>(_, out) \<in> set (live_outputs body). u_slots u (unat (out_slot_index out)) = EMPTY) \<and> u_alloc u + length (live_outputs body) < 2 ^ 63"
  have "unat (sst_alloc_counter ss) < 2 ^ 63" using I(4,5) by (simp add: utxo_inv_def)
  note T = surface_tx_iff[OF this, of st "2 ^ u_log u" c h t body ss']
  have "surface_tx st (2 ^ u_log u) c h (t, body) ss = Inr ss' \<longleftrightarrow>
    ok \<and> set (body_slots body) \<inter> sst_block_touched ss = {} \<and> ss' = surface_after t body h ss"
  proof (cases "\<forall>s \<in> set (body_slots body). unat s < 2 ^ u_log u")
    case True
    then have "(\<forall>(_, i) \<in> set (live_inputs body). prefix_read st ss (in_slot_index i) = claimed body i) \<longleftrightarrow>
        (\<forall>(_, i) \<in> set (live_inputs body). u_slots u (unat (in_slot_index i)) = claimed body i)"
      using I(1) body(3) slot by (intro ball_cong refl) (auto simp del: set_append)
    moreover have "(\<forall>(_, out) \<in> set (live_outputs body). prefix_read st ss (out_slot_index out) = EMPTY) \<longleftrightarrow>
        (\<forall>(_, out) \<in> set (live_outputs body). u_slots u (unat (out_slot_index out)) = EMPTY)"
      using I(1) body(3) slot' True by (intro ball_cong refl) (auto simp del: set_append)
    moreover have "unat (sst_spends ss) + length (live_inputs body) < 2 ^ 32" "unat (sst_mints ss) + length (live_outputs body) < 2 ^ 32"
      using lens fits by linarith+
    ultimately show ?thesis unfolding T using True com I(5) by (simp only: ok_def) blast
  next
    case False
    then show ?thesis unfolding T ok_def by blast
  qed
  moreover have "ok \<longleftrightarrow> utxo_accepts u body (Some h)"
  proof
    assume ok
    then have o: "distinct (body_slots body)" "\<forall>s \<in> set (body_slots body). unat s < 2 ^ u_log u"
      "\<forall>(_, i) \<in> set (live_inputs body). u_slots u (unat (in_slot_index i)) = claimed body i"
      "\<forall>(_, out) \<in> set (live_outputs body). u_slots u (unat (out_slot_index out)) = EMPTY" "u_alloc u + length (live_outputs body) < 2 ^ 63"
      unfolding ok_def by blast+
    note A = active_enough[OF I(4) body(2) o(1) I(2,3) o(3) body(1)]
    have "unat (in_slot_index i) < 2 ^ u_log u \<and> u_slots u (unat (in_slot_index i)) = claimed body i" if "(j, i) \<in> set (live_inputs body)" for j i
      using o(2,3) slot[OF that] that by fast
    moreover have "unat (out_slot_index out) < 2 ^ u_log u \<and> u_slots u (unat (out_slot_index out)) = EMPTY" if "(j, out) \<in> set (live_outputs body)" for j out
      using o(2,4) slot'[OF that] that by fast
    ultimately show "utxo_accepts u body (Some h)" unfolding utxo_accepts_def using o(1,5) A by blast
  next
    assume acc: "utxo_accepts u body (Some h)"
    have "unat s < 2 ^ u_log u" if "s \<in> set (body_slots body)" for s
      using that accepts_input[OF acc] accepts_output[OF acc] by (auto simp: live_input_slots_def live_output_slots_def)
    then show ok using acc accepts_input[OF acc] accepts_output[OF acc] unfolding ok_def utxo_accepts_def by fast
  qed
  ultimately show ?thesis by blast
qed

lemma surface_fold:
  assumes "surface_inv st u0 ss u" "\<forall>body \<in> set bodies. wf_body body \<and> claims_live body \<and> (\<forall>s \<in> set (body_slots body). slot_resident st s)"
    and "unat (sst_spends ss) + 8 * length bodies < 2 ^ 32" "unat (sst_mints ss) + 2 * length bodies < 2 ^ 32"
    and "\<forall>(k, body) \<in> set (enumerate t bodies). commitment_ok c k body" "u_log u = T"
  shows "case fold_res (surface_tx st (2 ^ T) c h) (enumerate t bodies) ss of
      Inr ss' \<Rightarrow> \<exists>u'. utxo_block h bodies u = Some u' \<and> surface_inv st u0 ss' u' \<and>
        sst_block_touched ss' = sst_block_touched ss \<union> set (concat (map body_slots bodies)) \<and> distinct (concat (map body_slots bodies)) \<and>
        set (concat (map body_slots bodies)) \<inter> sst_block_touched ss = {}
    | Inl e \<Rightarrow> \<not> (utxo_block h bodies u \<noteq> None \<and> distinct (concat (map body_slots bodies)) \<and>
        set (concat (map body_slots bodies)) \<inter> sst_block_touched ss = {})"
  using assms
proof (induction bodies arbitrary: ss u t)
  case Nil
  then show ?case by auto
next
  case (Cons body bodies)
  let ?ss = "surface_after t body h ss" and ?u = "utxo_after u body (Some h)" and ?B = "set (body_slots body)"
  have body: "wf_body body" "claims_live body" "\<forall>s \<in> ?B. slot_resident st s" using Cons.prems(2) by simp_all
  have lens: "length (live_inputs body) \<le> 8" "length (live_outputs body) \<le> 2" using live_count_bounds[OF body(1)] by simp_all
  have com: "commitment_ok c t body" using Cons.prems(5) by simp
  have step: "surface_tx st (2 ^ T) c h (t, body) ss = Inr s' \<longleftrightarrow>
      utxo_accepts u body (Some h) \<and> ?B \<inter> sst_block_touched ss = {} \<and> s' = ?ss" for s'
    using surface_step[OF Cons.prems(1) body _ _ com, of h s'] Cons.prems(3,4,6) by simp
  show ?case
  proof (cases "utxo_accepts u body (Some h) \<and> ?B \<inter> sst_block_touched ss = {}")
    case True
    then have run: "surface_tx st (2 ^ T) c h (t, body) ss = Inr ?ss" using step by simp
    have fits: "unat (sst_spends ss) + length (live_inputs body) < 2 ^ 32" "unat (sst_mints ss) + length (live_outputs body) < 2 ^ 32"
      using Cons.prems(3,4) lens by simp_all
    have inv: "surface_inv st u0 ?ss ?u" using surface_inv_after[OF Cons.prems(1) _ body(2) _ fits] True by simp
    have "unat (sst_spends ?ss) \<le> unat (sst_spends ss) + 8" "unat (sst_mints ?ss) \<le> unat (sst_mints ss) + 2"
      using fits lens by (simp_all add: surface_after_def unat_plus_lt unat_of_nat_lt)
    then have "unat (sst_spends ?ss) + 8 * length bodies < 2 ^ 32" "unat (sst_mints ?ss) + 2 * length bodies < 2 ^ 32"
      using Cons.prems(3,4) by simp_all
    note IH = Cons.IH[OF inv _ this, of "Suc t"]
    have touched: "sst_block_touched ?ss = sst_block_touched ss \<union> ?B"
      by (simp add: surface_after_def tx_acts_slots[of t body h "unat (sst_alloc_counter ss)", symmetric])
    have d: "distinct (body_slots body)" using True by (auto simp: utxo_accepts_def)
    have sets: "distinct (concat (map body_slots (body # bodies))) \<and> set (concat (map body_slots (body # bodies))) \<inter> sst_block_touched ss = {} \<longleftrightarrow>
      distinct (concat (map body_slots bodies)) \<and> set (concat (map body_slots bodies)) \<inter> sst_block_touched ?ss = {}"
      unfolding touched list.map concat.simps distinct_append[of "body_slots body"] set_append[of "body_slots body"] using d True by blast
    have all: "sst_block_touched ss \<union> set (concat (map body_slots (body # bodies))) = sst_block_touched ?ss \<union> set (concat (map body_slots bodies))"
      unfolding touched by auto
    have log: "u_log ?u = T" using Cons.prems(6) by (simp add: utxo_after_def)
    have block: "utxo_block h (body # bodies) u = utxo_block h bodies ?u" using True by simp
    have rest: "fold_res (surface_tx st (2 ^ T) c h) (enumerate t (body # bodies)) ss = fold_res (surface_tx st (2 ^ T) c h) (enumerate (Suc t) bodies) ?ss"
      by (simp add: run)
    show ?thesis unfolding block rest sets all by (rule IH[OF _ _ log]) (use Cons.prems(2,5) in simp_all)
  next
    case False
    then obtain e where "surface_tx st (2 ^ T) c h (t, body) ss = Inl e" using step by (cases "surface_tx st (2 ^ T) c h (t, body) ss") auto
    then have "fold_res (surface_tx st (2 ^ T) c h) (enumerate t (body # bodies)) ss = Inl e" by simp
    moreover have "\<not> (utxo_block h (body # bodies) u \<noteq> None \<and> set (concat (map body_slots (body # bodies))) \<inter> sst_block_touched ss = {})"
      using False by auto
    ultimately show ?thesis by auto
  qed
qed

section \<open>The sorted surface\<close>

lemma set_bt_insert: "k \<notin> fst ` set m \<Longrightarrow> set (bt_insert k v m) = insert (k, v) (set m)"
  by (induction k v m rule: bt_insert.induct) (auto split: if_splits)

lemma touch_entries:
  assumes "distinct (map sda_slot_index as)" "ascending (map fst m)" "\<forall>a \<in> set as. unat (sda_slot_index a) \<notin> fst ` set m"
  shows "ascending (map fst (fold touch_entry as m)) \<and>
    set (fold touch_entry as m) = set m \<union> (\<lambda>a. (unat (sda_slot_index a), sda_pre a, sda_post a)) ` set as"
  using assms
proof (induction as arbitrary: m)
  case (Cons a as)
  let ?k = "unat (sda_slot_index a)" and ?m = "bt_insert (unat (sda_slot_index a)) (sda_pre a, sda_post a) m"
  have k: "?k \<notin> fst ` set m" using Cons.prems(3) by simp
  then have "map_of m ?k = None" by (simp add: map_of_eq_None_iff)
  then have "touch_entry a m = ?m" by (simp add: touch_entry_def)
  moreover have "\<forall>b \<in> set as. unat (sda_slot_index b) \<notin> fst ` set ?m"
    using Cons.prems(1,3) by (auto simp: bt_insert_keys image_iff simp flip: word_unat_eq_iff)
  ultimately show ?case
    using Cons.IH[of ?m] Cons.prems(1) bt_insert_ascending[OF Cons.prems(2)] set_bt_insert[OF k] by simp
qed simp

lemma write_map_mem: "distinct (map fst ws) \<Longrightarrow> (i, v) \<in> set ws \<Longrightarrow> write_map ws F (unat i) = v"
proof (induction ws arbitrary: F)
  case (Cons w ws)
  show ?case
  proof (cases "w = (i, v)")
    case True
    then have "unat i \<notin> unat ` fst ` set ws" using Cons.prems(1) by (auto simp: image_iff simp flip: word_unat_eq_iff)
    then show ?thesis using True by (simp add: write_map_notin del: fun_upd_apply) simp
  next
    case False
    then show ?thesis using Cons by (auto simp del: fun_upd_apply)
  qed
qed simp

text \<open>The sorted slots with the values of the ledger before and after the block.\<close>

lemma exact_surface_ok:
  fixes s
  defines "e \<equiv> exact_action_surface_from_surface s"
  assumes d: "distinct (map sda_slot_index (sas_actions s))" and pre: "\<forall>a \<in> set (sas_actions s). sda_pre a = F (unat (sda_slot_index a))"
    and G: "G = write_map (act_writes (sas_actions s)) F"
  shows "sorted_wrt (<) (eas_touched_indices e)" "set (eas_touched_indices e) = set (map sda_slot_index (sas_actions s))"
    "eas_old_slots e = map (\<lambda>i. F (unat i)) (eas_touched_indices e)" "eas_new_slots e = map (\<lambda>i. G (unat i)) (eas_touched_indices e)"
    "G = write_map (zip (eas_touched_indices e) (eas_new_slots e)) F"
proof -
  let ?as = "sas_actions s" and ?entry = "\<lambda>a. (unat (sda_slot_index a), sda_pre a, sda_post a)"
  define m where "m = fold touch_entry ?as []"
  have m: "ascending (map fst m)" "set m = ?entry ` set ?as" using touch_entries[OF d, of "[]"] by (simp_all add: m_def)
  have e: "eas_touched_indices e = map (\<lambda>(idx, _). of_nat idx) m" "eas_old_slots e = map (\<lambda>(_, old, _). old) m" "eas_new_slots e = map (\<lambda>(_, _, new). new) m"
    by (simp_all add: e_def exact_action_surface_from_surface_def m_def Let_def)
  have small: "unat (of_nat k :: u32) = k" if "(k, v) \<in> set m" for k v using that m(2) by auto
  then have keys: "map unat (eas_touched_indices e) = map fst m" by (auto simp: e(1))
  then show sorted: "sorted_wrt (<) (eas_touched_indices e)"
    using m(1) by (metis (mono_tags, lifting) sorted_wrt_map sorted_wrt_mono_rel word_less_nat_alt)
  have "unat ` set (eas_touched_indices e) = unat ` set (map sda_slot_index ?as)"
    using arg_cong[OF keys, of set] m(2) by (simp add: image_image)
  then show set: "set (eas_touched_indices e) = set (map sda_slot_index ?as)"
    using inj_image_eq_iff[of "unat :: u32 \<Rightarrow> nat"] by (simp add: inj_on_def word_unat_eq_iff)
  have dw: "distinct (map fst (act_writes ?as))" using d by (simp add: comp_def)
  have row: "old = F k \<and> new = G k" if in_m: "(k, old, new) \<in> set m" for k old new
  proof -
    obtain a where a: "a \<in> set ?as" "k = unat (sda_slot_index a)" "old = sda_pre a" "new = sda_post a" using in_m m(2) by auto
    have "(sda_slot_index a, sda_post a) \<in> set (act_writes ?as)" using a(1) by auto
    then show ?thesis using a pre write_map_mem[OF dw, of "sda_slot_index a" "sda_post a" F] by (simp add: G)
  qed
  show "eas_old_slots e = map (\<lambda>i. F (unat i)) (eas_touched_indices e)" using row small by (auto simp: e)
  show new: "eas_new_slots e = map (\<lambda>i. G (unat i)) (eas_touched_indices e)" using row small by (auto simp: e)
  show "G = write_map (zip (eas_touched_indices e) (eas_new_slots e)) F"
  proof
    fix k
    show "G k = write_map (zip (eas_touched_indices e) (eas_new_slots e)) F k"
    proof (cases "k \<in> unat ` set (eas_touched_indices e)")
      case True
      then obtain i where i: "i \<in> set (eas_touched_indices e)" "k = unat i" by blast
      have "(i, G (unat i)) \<in> set (zip (eas_touched_indices e) (eas_new_slots e))"
        using i(1) by (auto simp: new zip_map2 zip_same_conv_map)
      moreover have "distinct (map fst (zip (eas_touched_indices e) (eas_new_slots e)))"
        using sorted strict_sorted_iff by (simp add: new) blast
      ultimately show ?thesis using write_map_mem i(2) by metis
    next
      case False
      then have "k \<notin> unat ` fst ` set (zip (eas_touched_indices e) (eas_new_slots e))" by (auto dest: set_zip_leftD)
      then have "write_map (zip (eas_touched_indices e) (eas_new_slots e)) F k = F k" by (rule write_map_notin)
      moreover have "k \<notin> unat ` fst ` set (act_writes ?as)" using False set by (simp add: image_image)
      then have "write_map (act_writes ?as) F k = F k" by (rule write_map_notin)
      ultimately show ?thesis by (simp only: G)
    qed
  qed
qed

text \<open>The builder of the sorted surface follows the ledger at the target depth.\<close>

lemma surface_follows:
  fixes u :: utxo and T :: u32
  defines "u0 \<equiv> (u\<lparr> u_log := unat T \<rparr> :: utxo)"
  assumes R: "chain_repr cs u" and inv: "utxo_inv u" and T: "unat T = u_log u \<or> unat T = Suc (u_log u)" "unat T \<le> 32"
    and bodies: "\<forall>body \<in> set bodies. wf_body body \<and> claims_live body \<and> touched_resident body cs" "length bodies < 2 ^ 28"
    and com: "\<forall>(k, body) \<in> set (enumerate 0 bodies). commitment_ok c k body"
  shows "case build_exact_action_surface_at_log_slots_from_source (cs_state cs) T bodies c (cs_alloc_counter cs) h of
      Inr e \<Rightarrow> distinct (concat (map body_slots bodies)) \<and> (\<exists>u'. utxo_block h bodies u0 = Some u' \<and>
        sorted_wrt (<) (eas_touched_indices e) \<and> (\<forall>i \<in> set (eas_touched_indices e). unat i < 2 ^ unat T) \<and>
        set (eas_touched_indices e) = set (concat (map body_slots bodies)) \<and>
        eas_old_slots e = map (\<lambda>i. u_slots u (unat i)) (eas_touched_indices e) \<and>
        eas_new_slots e = map (\<lambda>i. u_slots u' (unat i)) (eas_touched_indices e) \<and>
        u_slots u' = write_map (zip (eas_touched_indices e) (eas_new_slots e)) (u_slots u) \<and> u_log u' = unat T \<and> utxo_inv u' \<and>
        u_active u' + unat (eas_spends e) = u_active u + unat (eas_mints e) \<and> u_alloc u' = u_alloc u + unat (eas_mints e))
    | Inl _ \<Rightarrow> \<not> (distinct (concat (map body_slots bodies)) \<and> utxo_block h bodies u0 \<noteq> None)"
proof -
  let ?st = "cs_state cs"
  define ss0 where "ss0 = \<lparr> sst_overlay = Map.empty, sst_actions = [], sst_spends = 0, sst_mints = 0,
    sst_alloc_counter = cs_alloc_counter cs, sst_block_touched = {} \<rparr>"
  have st: "state_repr ?st (u_slots u)" "ss_log_slots ?st = u_log u" "geometry ?st" "unat (cs_alloc_counter cs) = u_alloc u"
    using R by (auto simp: chain_repr_def state_repr_def)
  have n: "num_slots ?st = 2 ^ u_log u" using st(2) by (simp add: num_slots_def)
  have high: "\<forall>k \<ge> 2 ^ u_log u. u_slots u k = EMPTY" using st by (simp add: state_repr_def)
  have le: "(2 :: nat) ^ u_log u \<le> 2 ^ unat T" using T(1) by (intro power_increasing) auto
  have read: "prefix_read ?st ss0 s = u_slots u (unat s)" if "slot_resident ?st s" for s
    using slot_of_repr[OF st(1), of s] that high by (auto simp: prefix_read_def ss0_def n st(2) is_evicted_def)
  have "\<forall>k \<ge> 2 ^ unat T. u_slots u k = EMPTY" using high le order.trans by blast
  then have inv0: "surface_inv ?st u0 ss0 u0"
    using read inv T(2) st(4) by (auto simp: surface_inv_def u0_def ss0_def utxo_inv_def)
  have "touched_resident body cs \<Longrightarrow> \<forall>s \<in> set (body_slots body). slot_resident ?st s" for body
    by (simp add: touched_resident_def)
  then have F: "case fold_res (surface_tx ?st (2 ^ unat T) c h) (enumerate 0 bodies) ss0 of
      Inr ss' \<Rightarrow> \<exists>u'. utxo_block h bodies u0 = Some u' \<and> surface_inv ?st u0 ss' u' \<and>
        sst_block_touched ss' = sst_block_touched ss0 \<union> set (concat (map body_slots bodies)) \<and> distinct (concat (map body_slots bodies)) \<and>
        set (concat (map body_slots bodies)) \<inter> sst_block_touched ss0 = {}
    | Inl e \<Rightarrow> \<not> (utxo_block h bodies u0 \<noteq> None \<and> distinct (concat (map body_slots bodies)) \<and>
        set (concat (map body_slots bodies)) \<inter> sst_block_touched ss0 = {})"
    using bodies com by (intro surface_fold[OF inv0]) (auto simp: ss0_def u0_def)
  have run: "build_exact_action_surface_at_log_slots_from_source ?st T bodies c (cs_alloc_counter cs) h =
      bind_res (fold_res (surface_tx ?st (2 ^ unat T) c h) (enumerate 0 bodies) ss0) (\<lambda>ss.
        Inr (exact_action_surface_from_surface \<lparr> sas_actions = sst_actions ss, sas_spends = sst_spends ss, sas_mints = sst_mints ss \<rparr>))"
    using T le st(2) n
    by (cases "fold_res (surface_tx ?st (2 ^ unat T) c h) (enumerate 0 bodies) ss0")
      (auto simp: build_exact_action_surface_at_log_slots_from_source_def build_state_delta_action_surface_in_domain_def
        checked_shl_one_def ss0_def not_less)
  show ?thesis
  proof (cases "fold_res (surface_tx ?st (2 ^ unat T) c h) (enumerate 0 bodies) ss0")
    case (Inl e)
    then show ?thesis using F by (auto simp: run ss0_def)
  next
    case (Inr ss)
    then obtain u' where u': "utxo_block h bodies u0 = Some u'" "surface_inv ?st u0 ss u'" "distinct (concat (map body_slots bodies))"
      "sst_block_touched ss = set (concat (map body_slots bodies))" using F by (auto simp: ss0_def)
    define e where "e = exact_action_surface_from_surface \<lparr> sas_actions = sst_actions ss, sas_spends = sst_spends ss, sas_mints = sst_mints ss \<rparr>"
    have lg: "u_log u' = unat T" using u'(2) by (simp add: surface_inv_def u0_def)
    have I: "distinct (map sda_slot_index (sst_actions ss))" "u_slots u' = write_map (act_writes (sst_actions ss)) (u_slots u)"
      "sst_block_touched ss = set (map sda_slot_index (sst_actions ss))" "\<forall>a \<in> set (sst_actions ss). unat (sda_slot_index a) < 2 ^ unat T \<and> sda_pre a = u_slots u (unat (sda_slot_index a))"
      "u_log u' = unat T" "utxo_inv u'" "u_active u' + unat (sst_spends ss) = u_active u + unat (sst_mints ss)" "u_alloc u' = u_alloc u + unat (sst_mints ss)"
      using u'(2)[unfolded surface_inv_def] lg unfolding lg by (simp_all add: u0_def)
    note E = exact_surface_ok[of "\<lparr> sas_actions = sst_actions ss, sas_spends = sst_spends ss, sas_mints = sst_mints ss \<rparr>" "u_slots u" "u_slots u'",
      folded e_def, simplified, OF I(1) _ I(2)]
    have counts: "eas_spends e = sst_spends ss" "eas_mints e = sst_mints ss"
      by (simp_all add: e_def exact_action_surface_from_surface_def Let_def)
    have pre: "\<forall>a \<in> set (sst_actions ss). sda_pre a = u_slots u (unat (sda_slot_index a))" using I(4) by blast
    have rng: "\<forall>i \<in> set (eas_touched_indices e). unat i < 2 ^ unat T" using I(4) E(2)[OF pre] by auto
    have sub: "set (eas_touched_indices e) = set (concat (map body_slots bodies))" using E(2)[OF pre] I(3) u'(4) by auto
    show ?thesis unfolding run Inr bind_res.simps sum.case e_def[symmetric] counts
      using u'(1,3) E(1,3-5)[OF pre, folded I(2)] rng sub I(5-8) by blast
  qed
qed

section \<open>Properties\<close>

text \<open>
  C37: The action surface of a block agrees with the ledger.  On a state that represents a
  ledger in its invariant, for the current depth or one level more, and for fewer than
  \<open>2 ^ 28\<close> well-formed bodies whose claims are live and whose touched segments are in memory,
  the builder accepts the block exactly when the ledger accepts the bodies one after the
  other and no slot is touched twice; the sorted surface then holds the values before and
  after the block of exactly those slots, writing it gives the ledger after the block, and
  its two counts account for the change of the live count and of the allocator.  Both
  conditions on the bodies matter: the builder reads a slot of an evicted segment as empty,
  and an all-zero claim matches an empty slot.
\<close>

theorem surface_agrees:
  assumes "chain_repr cs u" "utxo_inv u" "unat T = u_log u \<or> unat T = Suc (u_log u)" "unat T \<le> 32"
    "\<forall>body \<in> set bodies. wf_body body \<and> claims_live body \<and> touched_resident body cs" "length bodies < 2 ^ 28"
  shows "case build_exact_action_surface_for_transactions_at_log_slots (cs_state cs) T bodies (cs_alloc_counter cs) h of
      Inr e \<Rightarrow> distinct (concat (map body_slots bodies)) \<and> (\<exists>u'. utxo_block h bodies (u\<lparr> u_log := unat T \<rparr>) = Some u' \<and>
        sorted_wrt (<) (eas_touched_indices e) \<and> set (eas_touched_indices e) = set (concat (map body_slots bodies)) \<and>
        eas_old_slots e = map (\<lambda>i. u_slots u (unat i)) (eas_touched_indices e) \<and>
        eas_new_slots e = map (\<lambda>i. u_slots u' (unat i)) (eas_touched_indices e) \<and>
        u_slots u' = write_map (zip (eas_touched_indices e) (eas_new_slots e)) (u_slots u) \<and>
        u_active u' + unat (eas_spends e) = u_active u + unat (eas_mints e) \<and> u_alloc u' = u_alloc u + unat (eas_mints e))
    | Inl _ \<Rightarrow> \<not> (distinct (concat (map body_slots bodies)) \<and> utxo_block h bodies (u\<lparr> u_log := unat T \<rparr>) \<noteq> None)"
  using surface_follows[OF assms, of "\<lambda>_. None" h]
  unfolding build_exact_action_surface_for_transactions_at_log_slots_def
  by (cases "build_exact_action_surface_at_log_slots_from_source (cs_state cs) T bodies (\<lambda>_. None) (cs_alloc_counter cs) h")
    (auto simp: commitment_ok_def)

theorem surface_agrees_witness:
  "\<exists>cs e. with_log_slots 4 = Some cs \<and>
    build_exact_action_surface_for_transactions_at_log_slots (cs_state cs) 4 [example_mint] (cs_alloc_counter cs) 1 = Inr e \<and>
    eas_old_slots e = map (\<lambda>_. EMPTY) (eas_touched_indices e)"
proof -
  obtain cs where cs: "with_log_slots 4 = Some cs" "chain_repr cs (empty_ledger 4)" "ss_evicted (cs_state cs) = {}"
    using with_log_slots_repr[of 4] by auto
  have inv: "utxo_inv (empty_ledger 4)" by (simp add: utxo_inv_def empty_ledger_def ids_ok_def)
  have live: "claims_live example_mint" by (simp add: claims_live_def live_example_mint)
  have up: "(empty_ledger 4)\<lparr> u_log := unat (4 :: u32) \<rparr> = empty_ledger 4" by (simp add: empty_ledger_def)
  have acc: "utxo_accepts (empty_ledger 4) example_mint (Some 1)" by (rule accepts_example_mint) simp
  then have d: "distinct (concat (map body_slots [example_mint]))" by (simp add: utxo_accepts_def)
  from surface_agrees[OF cs(2) inv, of 4 "[example_mint]" 1] obtain e where
    "build_exact_action_surface_for_transactions_at_log_slots (cs_state cs) 4 [example_mint] (cs_alloc_counter cs) 1 = Inr e"
    "eas_old_slots e = map (\<lambda>i. u_slots (empty_ledger 4) (unat i)) (eas_touched_indices e)"
    using acc d live wf_example_mint touched_example_mint[OF cs(3)] unfolding up
    by (cases "build_exact_action_surface_for_transactions_at_log_slots (cs_state cs) 4 [example_mint] (cs_alloc_counter cs) 1")
      (auto simp: empty_ledger_def)
  then show ?thesis using cs(1) by (auto simp: empty_ledger_def)
qed

end
