(* ===== verification/PagedSpend.thy ===== *)
theory PagedSpend
  imports TxWire
begin

text \<open>
  The multi-page transaction (\<open>noid_tx/src/paged_spend.rs\<close>): up to 128 physical
  Tx8x2 pages, delimited by a start and an end bit, that form one atomic logical
  transaction of up to 1020 inputs and 256 outputs.  Validation is shown to
  accept exactly the canonical page groups, and the relay encoding of a group
  with its authorization bytes to be canonical.
\<close>

section \<open>Constants, pages, errors\<close>

definition TAG_PAGED_SPEND :: bytes where "TAG_PAGED_SPEND = ascii ''PAGEDTX_''"
definition PAGED_SPEND_VERSION :: u16 where "PAGED_SPEND_VERSION = 1"
definition MAX_TX_AUTHORIZATION_BYTES :: nat where "MAX_TX_AUTHORIZATION_BYTES = 256 * 1024"
definition PAGED_SPEND_START_BIT :: u16 where "PAGED_SPEND_START_BIT = push_bit 10 1"
definition PAGED_SPEND_END_BIT :: u16 where "PAGED_SPEND_END_BIT = push_bit 11 1"
definition PAGED_SPEND_CONTRACT_BIT :: u16 where "PAGED_SPEND_CONTRACT_BIT = push_bit 12 1"
definition PAGED_SPEND_TERMINAL_BIT :: u16 where "PAGED_SPEND_TERMINAL_BIT = push_bit 13 1"
definition PAGED_SPEND_MARKER_MASK :: u16 where
  "PAGED_SPEND_MARKER_MASK = PAGED_SPEND_START_BIT OR PAGED_SPEND_END_BIT"
definition PAGED_SPEND_V2_CONTRACT_MASK :: u16 where
  "PAGED_SPEND_V2_CONTRACT_MASK = PAGED_SPEND_CONTRACT_BIT OR PAGED_SPEND_TERMINAL_BIT"
definition PAGED_SPEND_VALIDITY_MASK :: u16 where
  "PAGED_SPEND_VALIDITY_MASK =
    TX_VALIDITY_MASK OR PAGED_SPEND_MARKER_MASK OR PAGED_SPEND_V2_CONTRACT_MASK"
definition MAX_PAGED_SPEND_PAGES :: nat where "MAX_PAGED_SPEND_PAGES = 128"
definition MAX_PAGED_SPEND_INPUTS :: nat where "MAX_PAGED_SPEND_INPUTS = 1020"
definition MAX_PAGED_SPEND_OUTPUTS :: nat where
  "MAX_PAGED_SPEND_OUTPUTS = MAX_PAGED_SPEND_PAGES * TX_OUTPUTS"
definition PAGED_SPEND_INTENT_MARKER :: u8 where "PAGED_SPEND_INTENT_MARKER = 0xA3"
definition PAGED_SPEND_INTENT_FIXED_OVERHEAD :: nat where
  "PAGED_SPEND_INTENT_FIXED_OVERHEAD = 1 + 2 + 4"
definition MAX_PAGED_SPEND_INTENT_BYTES :: nat where
  "MAX_PAGED_SPEND_INTENT_BYTES =
    PAGED_SPEND_INTENT_FIXED_OVERHEAD + MAX_PAGED_SPEND_PAGES * TX_BODY_WIRE_SIZE +
    MAX_TX_AUTHORIZATION_BYTES"

datatype tx_page = TxPage (page_body: tx_body)

text \<open>
  The slot reported with \<open>InputOutputSlotOverlap\<close> is the first common one in the
  iteration order of a randomly seeded hash set; the value carries all candidates.
\<close>

datatype paged_spend_error =
    PsWire wire_error
  | PsPageCount nat
  | PsReservedBitmapBits nat u16
  | PsCoinbasePage nat
  | PsDeadInputNotZero nat nat
  | PsDeadOutputNotZero nat nat
  | PsMissingStart
  | PsUnexpectedStart nat
  | PsMissingEnd
  | PsUnexpectedEnd nat
  | PsOwnerMismatch nat
  | PsEpochMismatch nat
  | PsContinuationFee nat
  | PsSparseInputs nat nat
  | PsSparseOutputs nat nat
  | PsNoLiveInputs
  | PsTooManyInputs nat
  | PsTooManyOutputs nat
  | PsNonMinimalPageCount nat nat
  | PsDuplicateInputSlot u32
  | PsDuplicateOutputSlot u32
  | PsInputOutputSlotOverlap "u32 set"
  | PsInputSumOverflow
  | PsOutputSumOverflow
  | PsOutputPlusFeeOverflow
  | PsBalanceMismatch u128 u128 u64
  | PsAuthorizationTooLarge nat
  | PsIntentTooLarge nat

definition is_start :: "tx_page \<Rightarrow> bool" where
  "is_start page \<longleftrightarrow> validity_bitmap (page_body page) AND PAGED_SPEND_START_BIT \<noteq> 0"

definition is_end :: "tx_page \<Rightarrow> bool" where
  "is_end page \<longleftrightarrow> validity_bitmap (page_body page) AND PAGED_SPEND_END_BIT \<noteq> 0"

definition page_hash :: "tx_page \<Rightarrow> digest" where
  "page_hash page = txid (page_body page)"

definition validate_page_count :: "nat \<Rightarrow> paged_spend_error + unit" where
  "validate_page_count count =
    (if \<not> (1 \<le> count \<and> count \<le> MAX_PAGED_SPEND_PAGES) then Inl (PsPageCount count) else Inr ())"

definition validate_page_shape :: "tx_body \<Rightarrow> nat \<Rightarrow> paged_spend_error + unit" where
  "validate_page_shape body page =
    (if validity_bitmap body AND NOT PAGED_SPEND_VALIDITY_MASK \<noteq> 0
     then Inl (PsReservedBitmapBits page (validity_bitmap body))
     else if is_coinbase body then Inl (PsCoinbasePage page)
     else
     case find (\<lambda>(slot, i). \<not> input_is_live body slot \<and> i \<noteq> dummy_input)
            (enumerate 0 (inputs body)) of
       Some (slot, _) \<Rightarrow> Inl (PsDeadInputNotZero page slot)
     | None \<Rightarrow>
     case find (\<lambda>(slot, o'). \<not> output_is_live body slot \<and> o' \<noteq> dummy_output)
            (enumerate 0 (outputs body)) of
       Some (slot, _) \<Rightarrow> Inl (PsDeadOutputNotZero page slot)
     | None \<Rightarrow> Inr ())"

definition tx_page_new :: "tx_body \<Rightarrow> paged_spend_error + tx_page" where
  "tx_page_new body = bind_res (validate_page_shape body 0) (\<lambda>_. Inr (TxPage body))"

section \<open>Group validation\<close>

definition hash_paged_spend_unchecked :: "tx_page list \<Rightarrow> digest" where
  "hash_paged_spend_unchecked pages =
    (let s = sponge_with_iv (capacity_iv TAG_PAGED_SPEND);
         s = absorb_pair (ucast PAGED_SPEND_VERSION) (of_nat (length pages)) s;
         s = fold (\<lambda>page s. let (low, high) = digest_fields (page_hash page) in absorb_pair low high s)
               pages s
     in sponge_finalize s)"

record paged_spend_facts =
  pf_logical_txid :: digest
  pf_input_owner :: address
  pf_epoch_anchor :: digest
  pf_fee :: u64
  pf_live_inputs :: u16
  pf_live_outputs :: u16
  pf_input_sum :: u128
  pf_output_sum :: u128

text \<open>The marker, owner, anchor and fee checks of one page against the first.\<close>

definition check_page_links :: "tx_page list \<Rightarrow> nat \<times> tx_page \<Rightarrow> unit \<Rightarrow> paged_spend_error + unit" where
  "check_page_links pages ip u =
    (let (page_index, page) = ip; first = page_body (pages ! 0)
     in if page_index \<noteq> 0 \<and> is_start page then Inl (PsUnexpectedStart page_index)
        else if page_index + 1 \<noteq> length pages \<and> is_end page then Inl (PsUnexpectedEnd page_index)
        else if input_owner (page_body page) \<noteq> input_owner first then Inl (PsOwnerMismatch page_index)
        else if epoch_anchor (page_body page) \<noteq> epoch_anchor first then Inl (PsEpochMismatch page_index)
        else if page_index \<noteq> 0 \<and> fee (page_body page) \<noteq> 0 then Inl (PsContinuationFee page_index)
        else Inr ())"

text \<open>The local variables of the scan over all lanes.\<close>

record ps_scan =
  sc_input_slots :: "u32 set"
  sc_output_slots :: "u32 set"
  sc_live_inputs :: nat
  sc_live_outputs :: nat
  sc_input_sum :: u128
  sc_output_sum :: u128
  sc_input_gap :: bool
  sc_output_gap :: bool

definition scan_input ::
  "nat \<Rightarrow> tx_body \<Rightarrow> nat \<times> tx_input \<Rightarrow> ps_scan \<Rightarrow> paged_spend_error + ps_scan" where
  "scan_input page_index body lane sc =
    (let slot = fst lane; input = snd lane
     in if input_is_live body slot then
          if sc_input_gap sc then Inl (PsSparseInputs page_index slot)
          else
            let n = sc_live_inputs sc + 1
            in if n > MAX_PAGED_SPEND_INPUTS then Inl (PsTooManyInputs n)
               else if in_slot_index input \<in> sc_input_slots sc
               then Inl (PsDuplicateInputSlot (in_slot_index input))
               else
                 bind_res (ok_or PsInputSumOverflow
                   (checked_add (sc_input_sum sc) (ucast (in_amount input)))) (\<lambda>total.
                 Inr (sc\<lparr> sc_input_slots := insert (in_slot_index input) (sc_input_slots sc),
                          sc_live_inputs := n, sc_input_sum := total \<rparr>))
        else Inr (sc\<lparr> sc_input_gap := True \<rparr>))"

definition scan_output ::
  "nat \<Rightarrow> tx_body \<Rightarrow> nat \<times> tx_output \<Rightarrow> ps_scan \<Rightarrow> paged_spend_error + ps_scan" where
  "scan_output page_index body lane sc =
    (let slot = fst lane; output = snd lane
     in if output_is_live body slot then
          if sc_output_gap sc then Inl (PsSparseOutputs page_index slot)
          else
            let n = sc_live_outputs sc + 1
            in if n > MAX_PAGED_SPEND_OUTPUTS then Inl (PsTooManyOutputs n)
               else if out_slot_index output \<in> sc_output_slots sc
               then Inl (PsDuplicateOutputSlot (out_slot_index output))
               else
                 bind_res (ok_or PsOutputSumOverflow
                   (checked_add (sc_output_sum sc) (ucast (out_amount output)))) (\<lambda>total.
                 Inr (sc\<lparr> sc_output_slots := insert (out_slot_index output) (sc_output_slots sc),
                          sc_live_outputs := n, sc_output_sum := total \<rparr>))
        else Inr (sc\<lparr> sc_output_gap := True \<rparr>))"

definition scan_page :: "nat \<times> tx_page \<Rightarrow> ps_scan \<Rightarrow> paged_spend_error + ps_scan" where
  "scan_page ip sc =
    (let body = page_body (snd ip)
     in bind_res (fold_res (scan_input (fst ip) body) (enumerate 0 (inputs body)) sc) (\<lambda>sc.
        fold_res (scan_output (fst ip) body) (enumerate 0 (outputs body)) sc))"

definition empty_scan :: ps_scan where
  "empty_scan = \<lparr> sc_input_slots = {}, sc_output_slots = {}, sc_live_inputs = 0, sc_live_outputs = 0,
     sc_input_sum = 0, sc_output_sum = 0, sc_input_gap = False, sc_output_gap = False \<rparr>"

definition div_ceil :: "nat \<Rightarrow> nat \<Rightarrow> nat" where
  "div_ceil a b = a div b + (if a mod b > 0 then 1 else 0)"

definition validate_paged_spend :: "tx_page list \<Rightarrow> paged_spend_error + paged_spend_facts" where
  "validate_paged_spend pages =
    bind_res (validate_page_count (length pages)) (\<lambda>_.
    bind_res (fold_res (\<lambda>ip _. validate_page_shape (page_body (snd ip)) (fst ip)) (enumerate 0 pages) ()) (\<lambda>_.
    if \<not> is_start (pages ! 0) then Inl PsMissingStart
    else if \<not> is_end (pages ! (length pages - 1)) then Inl PsMissingEnd
    else
      bind_res (fold_res (check_page_links pages) (enumerate 0 pages) ()) (\<lambda>_.
      bind_res (fold_res scan_page (enumerate 0 pages) empty_scan) (\<lambda>sc.
      if sc_live_inputs sc = 0 then Inl PsNoLiveInputs
      else if sc_input_slots sc \<inter> sc_output_slots sc \<noteq> {}
      then Inl (PsInputOutputSlotOverlap (sc_input_slots sc \<inter> sc_output_slots sc))
      else
        let required_pages = max (max 1 (div_ceil (sc_live_inputs sc) TX_INPUTS))
                               (div_ceil (sc_live_outputs sc) TX_OUTPUTS);
            fee' = fee (page_body (pages ! 0))
        in if length pages \<noteq> required_pages
           then Inl (PsNonMinimalPageCount (length pages) required_pages)
           else
             bind_res (ok_or PsOutputPlusFeeOverflow
               (checked_add (sc_output_sum sc) (ucast fee'))) (\<lambda>expected.
             if sc_input_sum sc \<noteq> expected
             then Inl (PsBalanceMismatch (sc_input_sum sc) (sc_output_sum sc) fee')
             else Inr
               \<lparr> pf_logical_txid = hash_paged_spend_unchecked pages,
                 pf_input_owner = input_owner (page_body (pages ! 0)),
                 pf_epoch_anchor = epoch_anchor (page_body (pages ! 0)),
                 pf_fee = fee', pf_live_inputs = of_nat (sc_live_inputs sc),
                 pf_live_outputs = of_nat (sc_live_outputs sc),
                 pf_input_sum = sc_input_sum sc, pf_output_sum = sc_output_sum sc \<rparr>)))))"

definition hash_paged_spend :: "tx_page list \<Rightarrow> paged_spend_error + digest" where
  "hash_paged_spend pages =
    bind_res (validate_paged_spend pages) (\<lambda>_. Inr (hash_paged_spend_unchecked pages))"

record canonical_paged_spend_auth_t =
  pa_logical_txid :: digest
  pa_input_owner :: address

definition canonical_paged_spend_auth ::
  "tx_page list \<Rightarrow> paged_spend_error + canonical_paged_spend_auth_t" where
  "canonical_paged_spend_auth pages =
    bind_res (validate_paged_spend pages) (\<lambda>facts.
    Inr \<lparr> pa_logical_txid = pf_logical_txid facts, pa_input_owner = pf_input_owner facts \<rparr>)"

section \<open>Page and intent wire formats\<close>

definition ps_take :: "bytes \<Rightarrow> nat \<Rightarrow> paged_spend_error + bytes \<times> bytes" where
  "ps_take src len = split_off (PsWire Truncated) len src"

definition take_u16 :: "bytes \<Rightarrow> paged_spend_error + u16 \<times> bytes" where
  "take_u16 src = bind_res (ps_take src 2) (\<lambda>(head, tail). Inr (from_le head, tail))"

definition take_u32 :: "bytes \<Rightarrow> paged_spend_error + u32 \<times> bytes" where
  "take_u32 src = bind_res (ps_take src 4) (\<lambda>(head, tail). Inr (from_le head, tail))"

definition encode_page_body :: "tx_body \<Rightarrow> bytes" where
  "encode_page_body body =
    epoch_anchor body @ to_le 8 (fee body) @ input_owner body @
    encode_list input_encode (inputs body) @
    encode_list output_encode (outputs body) @
    to_le 2 (validity_bitmap body) @ [of_bool (is_coinbase body)]"

definition decode_page_body :: "bytes \<Rightarrow> paged_spend_error + tx_body \<times> bytes" where
  "decode_page_body src =
    bind_res (ps_take src 32) (\<lambda>(anchor, src).
    bind_res (ps_take src 8) (\<lambda>(fee', src).
    bind_res (ps_take src 32) (\<lambda>(owner, src).
    bind_res (map_err PsWire (decode_n TX_INPUTS input_decode src)) (\<lambda>(ins, src).
    bind_res (map_err PsWire (decode_n TX_OUTPUTS output_decode src)) (\<lambda>(outs, src).
    bind_res (take_u16 src) (\<lambda>(bitmap, src).
    bind_res (ps_take src 1) (\<lambda>(flag, src).
    bind_res (if hd flag = 0 then Inr False else if hd flag = 1 then Inr True
              else Inl (PsWire InvalidBool)) (\<lambda>coinbase.
    Inr (\<lparr> epoch_anchor = anchor, fee = from_le fee', input_owner = owner, inputs = ins,
           outputs = outs, validity_bitmap = bitmap, is_coinbase = coinbase \<rparr>, src)))))))))"

definition page_encode :: "tx_page \<Rightarrow> paged_spend_error + bytes" where
  "page_encode page =
    bind_res (validate_page_shape (page_body page) 0) (\<lambda>_. Inr (encode_page_body (page_body page)))"

definition page_decode :: "bytes \<Rightarrow> paged_spend_error + tx_page \<times> bytes" where
  "page_decode src =
    bind_res (decode_page_body src) (\<lambda>(body, src).
    bind_res (tx_page_new body) (\<lambda>page. Inr (page, src)))"

definition page_from_bytes :: "bytes \<Rightarrow> paged_spend_error + tx_page" where
  "page_from_bytes bs =
    (if length bs \<noteq> TX_BODY_WIRE_SIZE
     then Inl (PsWire (if length bs < TX_BODY_WIRE_SIZE then Truncated else TrailingBytes))
     else bind_res (page_decode bs) (\<lambda>(page, _). Inr page))"

record paged_spend_intent =
  psi_pages :: "tx_page list"
  psi_authorization_bytes :: bytes

definition paged_spend_intent_new ::
  "tx_page list \<Rightarrow> bytes \<Rightarrow> paged_spend_error + paged_spend_intent" where
  "paged_spend_intent_new pages authorization_bytes =
    bind_res (validate_paged_spend pages) (\<lambda>_.
    if length authorization_bytes > MAX_TX_AUTHORIZATION_BYTES
    then Inl (PsAuthorizationTooLarge (length authorization_bytes))
    else Inr \<lparr> psi_pages = pages, psi_authorization_bytes = authorization_bytes \<rparr>)"

definition intent_to_bytes :: "paged_spend_intent \<Rightarrow> paged_spend_error + bytes" where
  "intent_to_bytes intent =
    bind_res (validate_paged_spend (psi_pages intent)) (\<lambda>_.
    let auth = psi_authorization_bytes intent
    in if length auth > MAX_TX_AUTHORIZATION_BYTES then Inl (PsAuthorizationTooLarge (length auth))
       else
         bind_res (fold_res (\<lambda>page bs. bind_res (page_encode page) (\<lambda>p. Inr (bs @ p))) (psi_pages intent)
             ([PAGED_SPEND_INTENT_MARKER] @ to_le 2 (of_nat (length (psi_pages intent)) :: u16))) (\<lambda>bs.
         if length auth \<ge> 2 ^ 32 then Inl (PsWire LengthOverflow)
         else Inr (bs @ to_le 4 (of_nat (length auth) :: u32) @ auth)))"

definition intent_decode :: "bytes \<Rightarrow> paged_spend_error + paged_spend_intent \<times> bytes" where
  "intent_decode src =
    bind_res (ps_take src 1) (\<lambda>(marker, src).
    if hd marker \<noteq> PAGED_SPEND_INTENT_MARKER then Inl (PsWire BadMarker)
    else
      bind_res (take_u16 src) (\<lambda>(page_count, src).
      bind_res (validate_page_count (unat page_count)) (\<lambda>_.
      if length src < unat page_count * TX_BODY_WIRE_SIZE then Inl (PsWire Truncated)
      else
        bind_res (decode_n (unat page_count) page_decode src) (\<lambda>(pages, src).
        bind_res (take_u32 src) (\<lambda>(authorization_len, src).
        if unat authorization_len > MAX_TX_AUTHORIZATION_BYTES
        then Inl (PsAuthorizationTooLarge (unat authorization_len))
        else
          bind_res (ps_take src (unat authorization_len)) (\<lambda>(authorization_bytes, src).
          bind_res (paged_spend_intent_new pages authorization_bytes) (\<lambda>intent.
          Inr (intent, src))))))))"

definition intent_from_bytes :: "bytes \<Rightarrow> paged_spend_error + paged_spend_intent" where
  "intent_from_bytes bs =
    (if length bs > MAX_PAGED_SPEND_INTENT_BYTES then Inl (PsIntentTooLarge (length bs))
     else
       bind_res (intent_decode bs) (\<lambda>(intent, src).
       if src \<noteq> [] then Inl (PsWire TrailingBytes) else Inr intent))"

definition paged_spend_authorization_wire_offset :: "nat \<Rightarrow> paged_spend_error + nat" where
  "paged_spend_authorization_wire_offset page_count =
    bind_res (validate_page_count page_count) (\<lambda>_.
    Inr (1 + 2 + page_count * TX_BODY_WIRE_SIZE + 4))"

section \<open>The canonical page group\<close>

text \<open>The lanes of a group in page order, each with its liveness.\<close>

definition input_lanes :: "tx_page \<Rightarrow> (bool \<times> tx_input) list" where
  "input_lanes page =
    map (\<lambda>x. (input_is_live (page_body page) (fst x), snd x)) (enumerate 0 (inputs (page_body page)))"

definition output_lanes :: "tx_page \<Rightarrow> (bool \<times> tx_output) list" where
  "output_lanes page =
    map (\<lambda>x. (output_is_live (page_body page) (fst x), snd x)) (enumerate 0 (outputs (page_body page)))"

definition lives :: "(bool \<times> 'a) list \<Rightarrow> 'a list" where
  "lives lanes = map snd (filter fst lanes)"

text \<open>Live lanes first, then dead ones only.\<close>

fun dense :: "(bool \<times> 'a) list \<Rightarrow> bool" where
  "dense [] = True"
| "dense ((live, _) # lanes) = (if live then dense lanes else list_all (\<lambda>x. \<not> fst x) lanes)"

definition group_inputs :: "tx_page list \<Rightarrow> tx_input list" where
  "group_inputs pages = lives (concat (map input_lanes pages))"

definition group_outputs :: "tx_page list \<Rightarrow> tx_output list" where
  "group_outputs pages = lives (concat (map output_lanes pages))"

definition canonical_page :: "tx_page \<Rightarrow> bool" where
  "canonical_page page \<longleftrightarrow>
    (\<forall>i. bit (validity_bitmap (page_body page)) i \<longrightarrow> i < 14) \<and>
    \<not> is_coinbase (page_body page) \<and> dead_lanes_zero (page_body page)"

definition linked_pages :: "tx_page list \<Rightarrow> bool" where
  "linked_pages pages \<longleftrightarrow>
    (\<forall>k < length pages.
      (is_start (pages ! k) \<longleftrightarrow> k = 0) \<and> (is_end (pages ! k) \<longleftrightarrow> Suc k = length pages) \<and>
      input_owner (page_body (pages ! k)) = input_owner (page_body (pages ! 0)) \<and>
      epoch_anchor (page_body (pages ! k)) = epoch_anchor (page_body (pages ! 0)) \<and>
      (k \<noteq> 0 \<longrightarrow> fee (page_body (pages ! k)) = 0))"

definition canonical_group :: "tx_page list \<Rightarrow> bool" where
  "canonical_group pages \<longleftrightarrow>
    1 \<le> length pages \<and> length pages \<le> 128 \<and>
    list_all canonical_page pages \<and> linked_pages pages \<and>
    dense (concat (map input_lanes pages)) \<and> dense (concat (map output_lanes pages)) \<and>
    1 \<le> length (group_inputs pages) \<and> length (group_inputs pages) \<le> 1020 \<and>
    distinct (map in_slot_index (group_inputs pages) @ map out_slot_index (group_outputs pages)) \<and>
    length pages = max 1 (max (div_ceil (length (group_inputs pages)) 8)
                              (div_ceil (length (group_outputs pages)) 2)) \<and>
    sum_list (map (\<lambda>i. unat (in_amount i)) (group_inputs pages)) =
      sum_list (map (\<lambda>o'. unat (out_amount o')) (group_outputs pages)) + unat (fee (page_body (pages ! 0)))"

lemma lives_simps [simp]:
  "lives [] = []" "lives (xs @ ys) = lives xs @ lives ys"
  "lives ((live, x) # lanes) = (if live then x # lives lanes else lives lanes)"
  by (simp_all add: lives_def)

lemma dense_snoc:
  "dense (lanes @ [(live, x)]) \<longleftrightarrow> dense lanes \<and> (live \<longrightarrow> list_all fst lanes)"
  by (induction lanes rule: dense.induct) (auto simp: list_all_iff)

lemma dense_prefix: "dense (xs @ ys) \<Longrightarrow> dense xs"
  by (induction xs rule: dense.induct) (auto split: if_splits)

text \<open>The scan computes these summaries of the lanes already visited.\<close>

definition inputs_ok :: "(bool \<times> tx_input) list \<Rightarrow> bool" where
  "inputs_ok L \<longleftrightarrow> dense L \<and> length (lives L) \<le> 1020 \<and> distinct (map in_slot_index (lives L))"

definition outputs_ok :: "(bool \<times> tx_output) list \<Rightarrow> bool" where
  "outputs_ok L \<longleftrightarrow> dense L \<and> length (lives L) \<le> 256 \<and> distinct (map out_slot_index (lives L))"

definition scan_of :: "(bool \<times> tx_input) list \<Rightarrow> (bool \<times> tx_output) list \<Rightarrow> ps_scan" where
  "scan_of L M = \<lparr> sc_input_slots = set (map in_slot_index (lives L)),
     sc_output_slots = set (map out_slot_index (lives M)),
     sc_live_inputs = length (lives L), sc_live_outputs = length (lives M),
     sc_input_sum = sum_list (map (\<lambda>i. ucast (in_amount i)) (lives L)),
     sc_output_sum = sum_list (map (\<lambda>o'. ucast (out_amount o')) (lives M)),
     sc_input_gap = (\<not> list_all fst L), sc_output_gap = (\<not> list_all fst M) \<rparr>"

lemma inputs_ok_prefix: "inputs_ok (xs @ ys) \<Longrightarrow> inputs_ok xs"
  by (auto simp: inputs_ok_def intro: dense_prefix)

lemma outputs_ok_prefix: "outputs_ok (xs @ ys) \<Longrightarrow> outputs_ok xs"
  by (auto simp: outputs_ok_def intro: dense_prefix)

lemma sum_fits:
  assumes "length xs \<le> 1020"
  shows "checked_add (sum_list (map (\<lambda>x. ucast (f x :: u64)) xs)) (ucast y :: u128) =
    Some (sum_list (map (\<lambda>x. ucast (f x)) xs) + ucast (y :: u64))"
proof -
  have "unat (sum_list (map (\<lambda>x. ucast (f x) :: u128) xs)) = sum_list (map (\<lambda>x. unat (f x)) xs)"
    using assms unat_sum_list_ucast[of "map f xs"] by (simp add: comp_def)
  moreover have "sum_list (map (\<lambda>x. unat (f x)) xs) \<le> length xs * (2 ^ 64 - 1)"
    using unat_le_pow[where 'a = 64] by (intro sum_list_bounded) simp
  moreover have "length xs * (2 ^ 64 - 1) \<le> 1020 * (2 ^ 64 - 1 :: nat)"
    using assms by (rule mult_le_mono1)
  ultimately have "unat (sum_list (map (\<lambda>x. ucast (f x) :: u128) xs)) + unat (ucast y :: u128) < 2 ^ 128"
    using unat_lt_pow[of y] by simp
  then show ?thesis by (simp add: checked_add_def)
qed

lemma scan_input_step:
  assumes "inputs_ok L"
  shows "scan_input p body lane (scan_of L M) = Inr sc \<longleftrightarrow>
    inputs_ok (L @ [(input_is_live body (fst lane), snd lane)]) \<and>
    sc = scan_of (L @ [(input_is_live body (fst lane), snd lane)]) M"
proof (cases "input_is_live body (fst lane)")
  case True
  have eq: "scan_input p body lane (scan_of L M) =
      (if \<not> list_all fst L then Inl (PsSparseInputs p (fst lane))
       else if length (lives L) + 1 > 1020 then Inl (PsTooManyInputs (length (lives L) + 1))
       else if in_slot_index (snd lane) \<in> set (map in_slot_index (lives L))
       then Inl (PsDuplicateInputSlot (in_slot_index (snd lane)))
       else Inr (scan_of (L @ [(True, snd lane)]) M))"
    using assms True
    by (simp add: scan_input_def scan_of_def Let_def sum_fits inputs_ok_def MAX_PAGED_SPEND_INPUTS_def add.commute)
  show ?thesis unfolding eq using assms True by (auto simp: inputs_ok_def dense_snoc)
next
  case False
  then show ?thesis using assms
    by (auto simp: scan_input_def scan_of_def inputs_ok_def dense_snoc)
qed

lemma scan_output_step:
  assumes "outputs_ok M"
  shows "scan_output p body lane (scan_of L M) = Inr sc \<longleftrightarrow>
    outputs_ok (M @ [(output_is_live body (fst lane), snd lane)]) \<and>
    sc = scan_of L (M @ [(output_is_live body (fst lane), snd lane)])"
proof (cases "output_is_live body (fst lane)")
  case True
  have eq: "scan_output p body lane (scan_of L M) =
      (if \<not> list_all fst M then Inl (PsSparseOutputs p (fst lane))
       else if length (lives M) + 1 > 256 then Inl (PsTooManyOutputs (length (lives M) + 1))
       else if out_slot_index (snd lane) \<in> set (map out_slot_index (lives M))
       then Inl (PsDuplicateOutputSlot (out_slot_index (snd lane)))
       else Inr (scan_of L (M @ [(True, snd lane)])))"
    using assms True
    by (simp add: scan_output_def scan_of_def Let_def sum_fits outputs_ok_def MAX_PAGED_SPEND_OUTPUTS_def
        MAX_PAGED_SPEND_PAGES_def TX_OUTPUTS_def add.commute)
  show ?thesis unfolding eq using assms True by (auto simp: outputs_ok_def dense_snoc)
next
  case False
  then show ?thesis using assms
    by (auto simp: scan_output_def scan_of_def outputs_ok_def dense_snoc)
qed

lemma scan_inputs:
  assumes "inputs_ok L"
  shows "fold_res (scan_input p body) xs (scan_of L M) = Inr sc \<longleftrightarrow>
    inputs_ok (L @ map (\<lambda>x. (input_is_live body (fst x), snd x)) xs) \<and>
    sc = scan_of (L @ map (\<lambda>x. (input_is_live body (fst x), snd x)) xs) M"
  using assms
proof (induction xs arbitrary: L)
  case (Cons x xs)
  let ?L = "L @ [(input_is_live body (fst x), snd x)]"
  show ?case
  proof (cases "inputs_ok ?L")
    case True
    then have "scan_input p body x (scan_of L M) = Inr (scan_of ?L M)"
      using Cons.prems by (simp add: scan_input_step)
    then show ?thesis using Cons.IH[OF True] by simp
  next
    case False
    then have "\<not> inputs_ok (?L @ map (\<lambda>x. (input_is_live body (fst x), snd x)) xs)"
      using inputs_ok_prefix by blast
    then show ?thesis using False Cons.prems by (simp add: scan_input_step)
  qed
qed auto

lemma scan_outputs:
  assumes "outputs_ok M"
  shows "fold_res (scan_output p body) xs (scan_of L M) = Inr sc \<longleftrightarrow>
    outputs_ok (M @ map (\<lambda>x. (output_is_live body (fst x), snd x)) xs) \<and>
    sc = scan_of L (M @ map (\<lambda>x. (output_is_live body (fst x), snd x)) xs)"
  using assms
proof (induction xs arbitrary: M)
  case (Cons x xs)
  let ?M = "M @ [(output_is_live body (fst x), snd x)]"
  show ?case
  proof (cases "outputs_ok ?M")
    case True
    then have "scan_output p body x (scan_of L M) = Inr (scan_of L ?M)"
      using Cons.prems by (simp add: scan_output_step)
    then show ?thesis using Cons.IH[OF True] by simp
  next
    case False
    then have "\<not> outputs_ok (?M @ map (\<lambda>x. (output_is_live body (fst x), snd x)) xs)"
      using outputs_ok_prefix by blast
    then show ?thesis using False Cons.prems by (simp add: scan_output_step)
  qed
qed auto

lemma scan_pages:
  assumes "inputs_ok L" "outputs_ok M"
  shows "fold_res scan_page (enumerate k pages) (scan_of L M) = Inr sc \<longleftrightarrow>
    inputs_ok (L @ concat (map input_lanes pages)) \<and> outputs_ok (M @ concat (map output_lanes pages)) \<and>
    sc = scan_of (L @ concat (map input_lanes pages)) (M @ concat (map output_lanes pages))"
  using assms
proof (induction pages arbitrary: k L M)
  case (Cons page pages)
  let ?L = "L @ input_lanes page" and ?M = "M @ output_lanes page"
  have step: "scan_page (k, page) (scan_of L M) = Inr t \<longleftrightarrow>
      inputs_ok ?L \<and> outputs_ok ?M \<and> t = scan_of ?L ?M" for t
    using Cons.prems
    by (auto simp: scan_page_def Let_def scan_inputs scan_outputs input_lanes_def output_lanes_def)
  show ?case
  proof (cases "inputs_ok ?L \<and> outputs_ok ?M")
    case True
    then show ?thesis using Cons.IH[of ?L ?M "Suc k"] by (simp add: step)
  next
    case False
    then have "\<not> (inputs_ok (?L @ concat (map input_lanes pages)) \<and> outputs_ok (?M @ concat (map output_lanes pages)))"
      using inputs_ok_prefix outputs_ok_prefix by blast
    then show ?thesis using False by (auto simp: step)
  qed
qed auto

section \<open>What group validation accepts\<close>

lemma validity_mask: "PAGED_SPEND_VALIDITY_MASK = mask 14"
  by (simp add: PAGED_SPEND_VALIDITY_MASK_def TX_VALIDITY_MASK_def PAGED_SPEND_MARKER_MASK_def
      PAGED_SPEND_V2_CONTRACT_MASK_def PAGED_SPEND_START_BIT_def PAGED_SPEND_END_BIT_def
      PAGED_SPEND_CONTRACT_BIT_def PAGED_SPEND_TERMINAL_BIT_def mask_eq_exp_minus_1)

lemma reserved_bits_clear_iff:
  "(bm :: u16) AND NOT PAGED_SPEND_VALIDITY_MASK = 0 \<longleftrightarrow> (\<forall>i. bit bm i \<longrightarrow> i < 14)"
proof -
  have "bm AND NOT (mask 14) = 0 \<longleftrightarrow> (\<forall>i < 16. bit bm i \<longrightarrow> i < 14)"
    unfolding bit_eq_iff by (auto simp: bit_simps)
  then show ?thesis unfolding validity_mask using bit_imp_le_length[of bm] by fastforce
qed

lemma page_shape_iff:
  assumes "wf_body (page_body page)"
  shows "validate_page_shape (page_body page) k = Inr () \<longleftrightarrow> canonical_page page"
  unfolding canonical_page_def dead_lanes_zero_find[OF assms] reserved_bits_clear_iff[symmetric]
  by (auto simp: validate_page_shape_def split: option.split)

lemma fold_res_unit_iff:
  "fold_res f xs () = Inr () \<longleftrightarrow> (\<forall>x \<in> set xs. f x () = Inr ())"
  by (induction xs) auto

lemma all_enumerate_iff: "(\<forall>x \<in> set (enumerate 0 xs). P x) \<longleftrightarrow> (\<forall>k < length xs. P (k, xs ! k))"
  by (auto simp: in_set_enumerate_eq)

lemma page_shapes_iff:
  assumes "list_all (\<lambda>p. wf_body (page_body p)) pages"
  shows "fold_res (\<lambda>ip _. validate_page_shape (page_body (snd ip)) (fst ip)) (enumerate 0 pages) () = Inr ()
    \<longleftrightarrow> list_all canonical_page pages"
  unfolding fold_res_unit_iff all_enumerate_iff
  using assms by (auto simp: page_shape_iff list_all_length)

lemma check_page_links_iff:
  "check_page_links pages (k, page) () = Inr () \<longleftrightarrow>
    \<not> (k \<noteq> 0 \<and> is_start page) \<and> \<not> (Suc k \<noteq> length pages \<and> is_end page) \<and>
    input_owner (page_body page) = input_owner (page_body (pages ! 0)) \<and>
    epoch_anchor (page_body page) = epoch_anchor (page_body (pages ! 0)) \<and>
    (k \<noteq> 0 \<longrightarrow> fee (page_body page) = 0)"
  by (auto simp: check_page_links_def Let_def split: if_splits)

lemma first_and_last:
  assumes "0 < n"
  shows "P 0 \<and> Q (n - 1) \<and> (\<forall>k < n. \<not> (k \<noteq> 0 \<and> P k) \<and> \<not> (Suc k \<noteq> n \<and> Q k) \<and> R k) \<longleftrightarrow>
    (\<forall>k < n. (P k \<longleftrightarrow> k = 0) \<and> (Q k \<longleftrightarrow> Suc k = n) \<and> R k)"
proof -
  obtain m where "n = Suc m" using assms by (cases n) auto
  then show ?thesis by auto
qed

lemma page_links_iff:
  assumes "pages \<noteq> []"
  shows "is_start (pages ! 0) \<and> is_end (pages ! (length pages - 1)) \<and>
      fold_res (check_page_links pages) (enumerate 0 pages) () = Inr () \<longleftrightarrow> linked_pages pages"
  unfolding linked_pages_def fold_res_unit_iff all_enumerate_iff check_page_links_iff
  by (rule first_and_last) (use assms in simp)

lemma output_lanes_bound:
  assumes "list_all (\<lambda>p. wf_body (page_body p)) pages"
  shows "length (group_outputs pages) \<le> length pages * 2"
proof -
  have "length (concat (map output_lanes pages)) = length pages * 2"
    using assms by (induction pages) (auto simp: output_lanes_def wf_simps TX_OUTPUTS_def)
  moreover have "length (lives xs) \<le> length xs" for xs :: "(bool \<times> tx_output) list"
    by (simp add: lives_def)
  ultimately show ?thesis unfolding group_outputs_def by metis
qed

lemma group_sums:
  assumes "length (xs :: 'a list) \<le> 1020"
  shows "unat (sum_list (map (\<lambda>x. ucast (f x :: u64)) xs) :: u128) = sum_list (map (\<lambda>x. unat (f x)) xs)"
  using assms unat_sum_list_ucast[of "map f xs"] by (simp add: comp_def)

lemma scan_group:
  assumes "list_all (\<lambda>p. wf_body (page_body p)) pages" "length pages \<le> 128"
  shows "fold_res scan_page (enumerate 0 pages) empty_scan = Inr sc \<longleftrightarrow>
    dense (concat (map input_lanes pages)) \<and> dense (concat (map output_lanes pages)) \<and>
    length (group_inputs pages) \<le> 1020 \<and> distinct (map in_slot_index (group_inputs pages)) \<and>
    distinct (map out_slot_index (group_outputs pages)) \<and>
    sc = scan_of (concat (map input_lanes pages)) (concat (map output_lanes pages))"
proof -
  have empty: "empty_scan = scan_of [] []" by (simp add: empty_scan_def scan_of_def)
  have ok: "inputs_ok []" "outputs_ok []" by (simp_all add: inputs_ok_def outputs_ok_def)
  have "length (lives (concat (map output_lanes pages))) \<le> 256"
    using output_lanes_bound[OF assms(1)] assms(2) by (simp add: group_outputs_def)
  then show ?thesis
    unfolding empty scan_pages[OF ok]
    by (auto simp: inputs_ok_def outputs_ok_def group_inputs_def group_outputs_def)
qed

definition group_facts :: "tx_page list \<Rightarrow> paged_spend_facts" where
  "group_facts pages =
    \<lparr> pf_logical_txid = hash_paged_spend_unchecked pages,
      pf_input_owner = input_owner (page_body (pages ! 0)),
      pf_epoch_anchor = epoch_anchor (page_body (pages ! 0)),
      pf_fee = fee (page_body (pages ! 0)),
      pf_live_inputs = of_nat (length (group_inputs pages)),
      pf_live_outputs = of_nat (length (group_outputs pages)),
      pf_input_sum = sum_list (map (\<lambda>i. ucast (in_amount i)) (group_inputs pages)),
      pf_output_sum = sum_list (map (\<lambda>o'. ucast (out_amount o')) (group_outputs pages)) \<rparr>"

lemma balance_iff:
  assumes "length (ins :: tx_input list) \<le> 1020" "length (outs :: tx_output list) \<le> 256"
  shows "checked_add (sum_list (map (\<lambda>o'. ucast (out_amount o')) outs)) (ucast f) =
      Some (sum_list (map (\<lambda>i. ucast (in_amount i)) ins) :: u128) \<longleftrightarrow>
    sum_list (map (\<lambda>i. unat (in_amount i)) ins) =
      sum_list (map (\<lambda>o'. unat (out_amount o')) outs) + unat (f :: u64)"
  using assms by (simp add: checked_add_Some_iff group_sums)

lemma scan_of_fields:
  "sc_live_inputs (scan_of (concat (map input_lanes pages)) M) = length (group_inputs pages)"
  "sc_live_outputs (scan_of L (concat (map output_lanes pages))) = length (group_outputs pages)"
  "sc_input_slots (scan_of (concat (map input_lanes pages)) M) = set (map in_slot_index (group_inputs pages))"
  "sc_output_slots (scan_of L (concat (map output_lanes pages))) = set (map out_slot_index (group_outputs pages))"
  "sc_input_sum (scan_of (concat (map input_lanes pages)) M) =
    sum_list (map (\<lambda>i. ucast (in_amount i)) (group_inputs pages))"
  "sc_output_sum (scan_of L (concat (map output_lanes pages))) =
    sum_list (map (\<lambda>o'. ucast (out_amount o')) (group_outputs pages))"
  by (simp_all add: scan_of_def group_inputs_def group_outputs_def)

lemma validate_paged_spend_Inr_iff:
  assumes wf: "list_all (\<lambda>p. wf_body (page_body p)) pages"
  shows "validate_paged_spend pages = Inr facts \<longleftrightarrow> canonical_group pages \<and> facts = group_facts pages"
proof (cases "1 \<le> length pages \<and> length pages \<le> 128")
  case False
  then show ?thesis
    by (auto simp: validate_paged_spend_def validate_page_count_def MAX_PAGED_SPEND_PAGES_def canonical_group_def)
next
  case True
  then have count: "validate_page_count (length pages) = Inr ()" and ne: "pages \<noteq> []" and n: "length pages \<le> 128"
    by (auto simp: validate_page_count_def MAX_PAGED_SPEND_PAGES_def)
  have outs: "length (group_outputs pages) \<le> 256" using output_lanes_bound[OF wf] n by linarith
  have unit: "bind_res r (\<lambda>_. k) = Inr y \<longleftrightarrow> r = Inr () \<and> k = Inr y" for r :: "paged_spend_error + unit" and k y
    by (rule bind_res_unit_iff)
  have test: "(if b then Inl e else r) = Inr y \<longleftrightarrow> \<not> b \<and> r = Inr y" for b and e :: 'e and r and y :: 'y by simp
  have bal: "bind_res (ok_or e m) (\<lambda>x. if c \<noteq> x then Inl (e' x) else Inr r) = Inr y \<longleftrightarrow> m = Some c \<and> y = r"
    for e :: 'e and m and c :: 'c and e' and r y :: 'y by (cases m) auto
  have bind: "bind_res r k = Inr y \<longleftrightarrow> (\<exists>sc. r = Inr sc \<and> k sc = Inr y)" for r :: "'e + ps_scan" and k and y :: 'y
    by simp
  let ?in = "group_inputs pages" and ?out = "group_outputs pages"
  have "validate_paged_spend pages = Inr facts \<longleftrightarrow>
    list_all canonical_page pages \<and> linked_pages pages \<and>
    (\<exists>sc. fold_res scan_page (enumerate 0 pages) empty_scan = Inr sc \<and>
      sc_live_inputs sc \<noteq> 0 \<and> sc_input_slots sc \<inter> sc_output_slots sc = {} \<and>
      length pages = max (max 1 (div_ceil (sc_live_inputs sc) TX_INPUTS)) (div_ceil (sc_live_outputs sc) TX_OUTPUTS) \<and>
      checked_add (sc_output_sum sc) (ucast (fee (page_body (pages ! 0)))) = Some (sc_input_sum sc) \<and>
      facts = \<lparr> pf_logical_txid = hash_paged_spend_unchecked pages,
                pf_input_owner = input_owner (page_body (pages ! 0)),
                pf_epoch_anchor = epoch_anchor (page_body (pages ! 0)),
                pf_fee = fee (page_body (pages ! 0)), pf_live_inputs = of_nat (sc_live_inputs sc),
                pf_live_outputs = of_nat (sc_live_outputs sc),
                pf_input_sum = sc_input_sum sc, pf_output_sum = sc_output_sum sc \<rparr>)"
    unfolding validate_paged_spend_def Let_def unit test bal bind page_shapes_iff[OF wf]
      page_links_iff[OF ne, symmetric] count not_not
    by (simp only: refl simp_thms conj_assoc)
  also have "\<dots> \<longleftrightarrow> canonical_group pages \<and> facts = group_facts pages"
    using balance_iff[OF _ outs, of ?in "fee (page_body (pages ! 0))"] True
    by (auto simp: scan_group[OF wf n] scan_of_fields canonical_group_def group_facts_def TX_INPUTS_def
        TX_OUTPUTS_def Suc_le_eq)
  finally show ?thesis .
qed

text \<open>
  C11: group validation accepts exactly the canonical page groups.  A list of
  well-formed pages passes \<open>validate_paged_spend\<close> precisely when there are 1 to
  128 non-coinbase pages with zero dead lanes and no reserved bit, the start and
  end bits sit on the first and last page only, owner and epoch anchor agree and
  only the first page pays a fee, live lanes are dense across the pages, slots
  are pairwise distinct over inputs and outputs, the page count is minimal, and
  the inputs equal outputs plus fee over the naturals; the facts returned are
  those of the group.
\<close>

theorem validate_paged_spend_iff_canonical:
  assumes "list_all (\<lambda>p. wf_body (page_body p)) pages"
  shows "validate_paged_spend pages = Inr facts \<longleftrightarrow> canonical_group pages \<and> facts = group_facts pages"
  by (rule validate_paged_spend_Inr_iff[OF assms])

definition example_input :: "u32 \<Rightarrow> tx_input" where
  "example_input k = \<lparr> in_slot_index = k, in_amount = 10, in_creation_id = 7 \<rparr>"

definition example_pages :: "tx_page list" where
  "example_pages =
    [TxPage \<lparr> epoch_anchor = zero_digest, fee = 5, input_owner = zero_digest,
       inputs = map example_input [1, 2, 3, 4, 5, 6, 7, 8],
       outputs = [\<lparr> out_slot_index = 20, out_amount = 85, out_owner = zero_digest \<rparr>, dummy_output],
       validity_bitmap = 0x5FF, is_coinbase = False \<rparr>,
     TxPage \<lparr> epoch_anchor = zero_digest, fee = 0, input_owner = zero_digest,
       inputs = [example_input 9, dummy_input, dummy_input, dummy_input, dummy_input, dummy_input, dummy_input, dummy_input],
       outputs = [dummy_output, dummy_output],
       validity_bitmap = 0x801, is_coinbase = False \<rparr>]"

lemma wf_example_pages: "list_all (\<lambda>p. wf_body (page_body p)) example_pages"
  by (simp add: example_pages_def wf_simps TX_INPUTS_def TX_OUTPUTS_def dummy_output_def zero_digest_def)

lemma example_lanes:
  "map input_lanes example_pages =
    [map (\<lambda>k. (True, example_input k)) [1, 2, 3, 4, 5, 6, 7, 8],
     (True, example_input 9) # map (Pair False) [dummy_input, dummy_input, dummy_input, dummy_input, dummy_input, dummy_input, dummy_input]]"
  "map output_lanes example_pages =
    [[(True, \<lparr> out_slot_index = 20, out_amount = 85, out_owner = zero_digest \<rparr>), (False, dummy_output)],
     [(False, dummy_output), (False, dummy_output)]]"
  by (simp_all add: example_pages_def input_lanes_def output_lanes_def input_is_live_def output_is_live_def
      output_bitmap_bit_def TX_INPUTS_def TX_OUTPUTS_def)

lemma example_linked: "linked_pages example_pages"
  by (auto simp: linked_pages_def example_pages_def is_start_def is_end_def PAGED_SPEND_START_BIT_def
      PAGED_SPEND_END_BIT_def less_Suc_eq)

lemma example_page_shapes: "fold_res (\<lambda>ip _. validate_page_shape (page_body (snd ip)) (fst ip)) (enumerate 0 example_pages) () = Inr ()"
  by (simp add: example_pages_def validate_page_shape_def validity_mask mask_eq_exp_minus_1 input_is_live_def
      output_is_live_def output_bitmap_bit_def TX_INPUTS_def TX_OUTPUTS_def)

lemma canonical_example_pages: "canonical_group example_pages"
proof -
  have shapes: "list_all canonical_page example_pages"
    using example_page_shapes page_shapes_iff[OF wf_example_pages] by simp
  have "length example_pages = 2" by (simp add: example_pages_def)
  moreover have "fee (page_body (example_pages ! 0)) = 5" by (simp add: example_pages_def)
  moreover have "group_inputs example_pages = map example_input [1, 2, 3, 4, 5, 6, 7, 8, 9]"
    "group_outputs example_pages = [\<lparr> out_slot_index = 20, out_amount = 85, out_owner = zero_digest \<rparr>]"
    unfolding group_inputs_def group_outputs_def example_lanes by simp_all
  moreover have "dense (concat (map input_lanes example_pages))" "dense (concat (map output_lanes example_pages))"
    unfolding example_lanes by simp_all
  ultimately show ?thesis
    using shapes example_linked by (simp add: canonical_group_def example_input_def div_ceil_def)
qed

theorem validate_paged_spend_iff_canonical_witness:
  "validate_paged_spend example_pages = Inr (group_facts example_pages)"
  using validate_paged_spend_iff_canonical[OF wf_example_pages] canonical_example_pages by simp

section \<open>The relay encoding of a group\<close>

definition valid_page :: "tx_page \<Rightarrow> bool" where
  "valid_page page \<longleftrightarrow> wf_body (page_body page) \<and> canonical_page page"

definition page_wire :: "tx_page \<Rightarrow> bytes" where
  "page_wire page = encode_page_body (page_body page)"

lemma take_u16_iff: "take_u16 src = Inr (w, t) \<longleftrightarrow> src = to_le 2 w @ t"
  using take_le_iff[where 'a = 16 and n = 2 and e = "PsWire Truncated"]
  by (simp add: take_u16_def ps_take_def take_le_def)

lemma take_u32_iff: "take_u32 src = Inr (w, t) \<longleftrightarrow> src = to_le 4 w @ t"
  using take_le_iff[where 'a = 32 and n = 4 and e = "PsWire Truncated"]
  by (simp add: take_u32_def ps_take_def take_le_def)

lemma page_flag_iff:
  "(\<exists>flag. ps_take src 1 = Inr (flag, t) \<and>
     (if hd flag = 0 then Inr False else if hd flag = 1 then Inr True else Inl (PsWire InvalidBool)) = Inr b)
   \<longleftrightarrow> src = [of_bool b] @ t"
  by (cases src) (auto simp: ps_take_def split_off_def split: if_splits)

lemma decode_page_body_iff:
  "decode_page_body bs = Inr (body, rest) \<longleftrightarrow> wf_body body \<and> bs = encode_page_body body @ rest"
proof
  assume "decode_page_body bs = Inr (body, rest)"
  then show "wf_body body \<and> bs = encode_page_body body @ rest"
    by (auto simp: decode_page_body_def encode_page_body_def wf_simps ps_take_def split_off_iff
        take_u16_iff input_codec.decode_n_iff output_codec.decode_n_iff length_Suc_conv split: if_splits)
next
  assume v: "wf_body body \<and> bs = encode_page_body body @ rest"
  have ins: "decode_n TX_INPUTS input_decode (encode_list input_encode (inputs body) @ r) = Inr (inputs body, r)"
    and outs: "decode_n TX_OUTPUTS output_decode (encode_list output_encode (outputs body) @ r) = Inr (outputs body, r)"
    for r using v by (auto simp: input_codec.decode_n_iff output_codec.decode_n_iff wf_body_def list_all_iff)
  have u16: "take_u16 (to_le 2 w @ r) = Inr (w, r)" for w r by (simp add: take_u16_iff)
  have one: "split_off e (Suc 0) (x # r) = Inr ([x], r)" for e :: 'e and x r by (simp add: split_off_iff)
  have eta: "\<lparr> epoch_anchor = epoch_anchor body, fee = fee body, input_owner = input_owner body,
      inputs = inputs body, outputs = outputs body, validity_bitmap = validity_bitmap body,
      is_coinbase = b \<rparr> = body" if "is_coinbase body = b" for b using that by auto
  show "decode_page_body bs = Inr (body, rest)"
    using v by (cases "is_coinbase body")
      (simp_all add: decode_page_body_def encode_page_body_def wf_simps ins outs u16 one ps_take_def eta
        del: bind_res_Inr_iff)
qed

interpretation page_codec: fixed_codec page_wire page_decode valid_page TX_BODY_WIRE_SIZE
proof unfold_locales
  fix page assume v: "valid_page page"
  have "length (encode_list input_encode (inputs (page_body page))) = TX_INPUTS * TX_INPUT_WIRE_SIZE"
    "length (encode_list output_encode (outputs (page_body page))) = TX_OUTPUTS * TX_OUTPUT_WIRE_SIZE"
    using v length_encode_list[of "inputs (page_body page)" input_encode TX_INPUT_WIRE_SIZE]
      length_encode_list[of "outputs (page_body page)" output_encode TX_OUTPUT_WIRE_SIZE]
      input_codec.enc_length output_codec.enc_length
    by (auto simp: valid_page_def wf_body_def list_all_iff)
  then show "length (page_wire page) = TX_BODY_WIRE_SIZE"
    using v by (simp add: page_wire_def encode_page_body_def TX_BODY_WIRE_SIZE_def valid_page_def wf_simps)
next
  fix page rest assume v: "valid_page page"
  then have "validate_page_shape (page_body page) 0 = Inr ()"
    by (simp add: valid_page_def page_shape_iff)
  then show "page_decode (page_wire page @ rest) = Inr (page, rest)"
    using v decode_page_body_iff[of "page_wire page @ rest" "page_body page" rest]
    by (simp add: page_decode_def tx_page_new_def page_wire_def valid_page_def)
next
  fix bs page rest assume "page_decode bs = Inr (page, rest)"
  then show "valid_page page \<and> bs = page_wire page @ rest"
    by (auto simp: page_decode_def tx_page_new_def decode_page_body_iff page_wire_def valid_page_def)
       (metis page_shape_iff tx_page.sel)
qed

lemma pages_encode:
  assumes "list_all valid_page pages"
  shows "fold_res (\<lambda>page bs. bind_res (page_encode page) (\<lambda>p. Inr (bs @ p))) pages acc =
    Inr (acc @ encode_list page_wire pages)"
  using assms
proof (induction pages arbitrary: acc)
  case (Cons page pages)
  then have "validate_page_shape (page_body page) 0 = Inr ()"
    by (simp add: valid_page_def page_shape_iff)
  then show ?case using Cons by (simp add: page_encode_def page_wire_def)
qed simp

definition wf_intent :: "paged_spend_intent \<Rightarrow> bool" where
  [wf_simps]: "wf_intent intent \<longleftrightarrow> list_all (\<lambda>p. wf_body (page_body p)) (psi_pages intent)"

definition valid_intent :: "paged_spend_intent \<Rightarrow> bool" where
  "valid_intent intent \<longleftrightarrow>
    wf_intent intent \<and> canonical_group (psi_pages intent) \<and>
    length (psi_authorization_bytes intent) \<le> MAX_TX_AUTHORIZATION_BYTES"

definition intent_wire :: "paged_spend_intent \<Rightarrow> bytes" where
  "intent_wire intent =
    PAGED_SPEND_INTENT_MARKER # to_le 2 (of_nat (length (psi_pages intent)) :: u16) @
    encode_list page_wire (psi_pages intent) @
    to_le 4 (of_nat (length (psi_authorization_bytes intent)) :: u32) @ psi_authorization_bytes intent"

lemma valid_intent_pages:
  assumes "valid_intent intent"
  shows "list_all valid_page (psi_pages intent)" "length (psi_pages intent) \<le> 128" "1 \<le> length (psi_pages intent)"
    "validate_paged_spend (psi_pages intent) = Inr (group_facts (psi_pages intent))"
  using assms validate_paged_spend_Inr_iff[of "psi_pages intent"]
  by (auto simp: valid_intent_def canonical_group_def valid_page_def wf_simps list_all_iff)

lemma intent_to_bytes_iff:
  assumes "wf_intent intent"
  shows "intent_to_bytes intent = Inr bs \<longleftrightarrow> valid_intent intent \<and> bs = intent_wire intent"
proof (cases "valid_intent intent")
  case True
  then have "length (psi_authorization_bytes intent) < 2 ^ 32"
    by (simp add: valid_intent_def MAX_TX_AUTHORIZATION_BYTES_def)
  then show ?thesis
    using True valid_intent_pages[OF True]
    by (auto simp: intent_to_bytes_def Let_def pages_encode intent_wire_def valid_intent_def)
next
  case False
  then show ?thesis
    using assms by (auto simp: intent_to_bytes_def valid_intent_def wf_simps validate_paged_spend_Inr_iff Let_def)
qed

lemma intent_decode_iff:
  "intent_decode bs = Inr (intent, rest) \<longleftrightarrow> valid_intent intent \<and> bs = intent_wire intent @ rest"
proof
  assume "intent_decode bs = Inr (intent, rest)"
  then obtain pc src pages al auth facts where
    head: "bs = PAGED_SPEND_INTENT_MARKER # to_le 2 (pc :: u16) @ src"
    and pages: "decode_n (unat pc) page_decode src = Inr (pages, to_le 4 (al :: u32) @ auth @ rest)"
    and al: "unat al \<le> MAX_TX_AUTHORIZATION_BYTES" "length auth = unat al"
    and val: "validate_paged_spend pages = Inr facts"
    and intent: "intent = \<lparr> psi_pages = pages, psi_authorization_bytes = auth \<rparr>"
    by (auto simp: intent_decode_def ps_take_def split_off_iff take_u16_iff take_u32_iff length_Suc_conv
        paged_spend_intent_new_def split: if_splits)
  have p: "length pages = unat pc" "list_all valid_page pages" "src = encode_list page_wire pages @ to_le 4 al @ auth @ rest"
    using pages by (auto simp: page_codec.decode_n_iff)
  then have wf: "list_all (\<lambda>p. wf_body (page_body p)) pages" by (simp add: valid_page_def list_all_iff)
  have "of_nat (length pages) = pc" "of_nat (length auth) = al" by (simp_all add: p(1) al(2))
  then show "valid_intent intent \<and> bs = intent_wire intent @ rest"
    using head p(3) intent wf val al
    by (simp add: valid_intent_def wf_simps validate_paged_spend_Inr_iff intent_wire_def)
next
  assume v: "valid_intent intent \<and> bs = intent_wire intent @ rest"
  let ?pages = "psi_pages intent" and ?auth = "psi_authorization_bytes intent"
  note vp = valid_intent_pages[of intent]
  have small: "length ?auth \<le> MAX_TX_AUTHORIZATION_BYTES" using v by (simp add: valid_intent_def)
  then have un: "unat (of_nat (length ?pages) :: u16) = length ?pages" "unat (of_nat (length ?auth) :: u32) = length ?auth"
    using v vp(2) by (simp_all add: unsigned_of_nat take_bit_nat_eq_self MAX_TX_AUTHORIZATION_BYTES_def)
  have dec: "decode_n (length ?pages) page_decode (encode_list page_wire ?pages @ r) = Inr (?pages, r)" for r
    using v vp(1) by (simp add: page_codec.decode_n_iff)
  have len: "length (encode_list page_wire ?pages) = length ?pages * TX_BODY_WIRE_SIZE"
    using v vp(1) by (intro length_encode_list page_codec.enc_length) (auto simp: list_all_iff)
  have t: "ps_take (x # r) 1 = Inr ([x], r)" "take_u16 (to_le 2 w @ r) = Inr (w, r)"
    "take_u32 (to_le 4 l @ r) = Inr (l, r)" "ps_take (d @ r) (length d) = Inr (d, r)" for x r w l d
    by (simp_all add: take_u16_iff take_u32_iff ps_take_def split_off_iff)
  show "intent_decode bs = Inr (intent, rest)"
    using v vp(2,3,4) small
    by (simp add: intent_decode_def intent_wire_def t(1)[simplified] t(2-) un dec len validate_page_count_def
        MAX_PAGED_SPEND_PAGES_def paged_spend_intent_new_def)
qed

interpretation intent_codec: codec intent_wire intent_decode valid_intent
  by unfold_locales (auto simp: intent_decode_iff)

lemma intent_wire_size:
  assumes "valid_intent intent"
  shows "length (intent_wire intent) =
    PAGED_SPEND_INTENT_FIXED_OVERHEAD + length (psi_pages intent) * TX_BODY_WIRE_SIZE +
    length (psi_authorization_bytes intent)"
proof -
  have "length (encode_list page_wire (psi_pages intent)) = length (psi_pages intent) * TX_BODY_WIRE_SIZE"
    using valid_intent_pages(1)[OF assms]
    by (intro length_encode_list page_codec.enc_length) (auto simp: list_all_iff)
  then show ?thesis by (simp add: intent_wire_def PAGED_SPEND_INTENT_FIXED_OVERHEAD_def)
qed

lemma intent_wire_bounded:
  assumes "valid_intent intent"
  shows "length (intent_wire intent) \<le> MAX_PAGED_SPEND_INTENT_BYTES"
  using valid_intent_pages(2)[OF assms] assms intent_wire_size[OF assms]
  by (simp add: MAX_PAGED_SPEND_INTENT_BYTES_def MAX_PAGED_SPEND_PAGES_def valid_intent_def add_mono)

text \<open>
  C14: the relay encoding of a multi-page transaction is canonical.  A byte string
  parses to an intent exactly when the intent is well formed and serialises to
  that string; in particular the size limit never refuses an encoding and the
  serialiser never reaches its length-overflow branch on a valid intent.
\<close>

theorem intent_from_bytes_iff:
  "intent_from_bytes bs = Inr intent \<longleftrightarrow> wf_intent intent \<and> intent_to_bytes intent = Inr bs"
  by (auto simp: intent_from_bytes_def intent_decode_iff intent_to_bytes_iff valid_intent_def
      dest: intent_wire_bounded[unfolded valid_intent_def, rotated] split: if_splits)
     (metis intent_wire_bounded valid_intent_def not_le)

lemma authorization_wire_offset_correct:
  assumes "valid_intent intent"
  shows "\<exists>k. paged_spend_authorization_wire_offset (length (psi_pages intent)) = Inr k \<and>
    drop k (intent_wire intent) = psi_authorization_bytes intent"
proof -
  have "drop k (xs @ a) = a" if "length xs = k" for k and xs a :: bytes using that by simp
  moreover have "length (PAGED_SPEND_INTENT_MARKER # to_le 2 (of_nat (length (psi_pages intent)) :: u16) @
      encode_list page_wire (psi_pages intent) @ to_le 4 (of_nat (length (psi_authorization_bytes intent)) :: u32)) =
    1 + 2 + length (psi_pages intent) * TX_BODY_WIRE_SIZE + 4"
    using intent_wire_size[OF assms] by (simp add: intent_wire_def PAGED_SPEND_INTENT_FIXED_OVERHEAD_def)
  ultimately have "drop (1 + 2 + length (psi_pages intent) * TX_BODY_WIRE_SIZE + 4) (intent_wire intent) =
      psi_authorization_bytes intent"
    unfolding intent_wire_def by (metis append.assoc append_Cons)
  then show ?thesis
    using valid_intent_pages(2,3)[OF assms]
    by (simp add: paged_spend_authorization_wire_offset_def validate_page_count_def MAX_PAGED_SPEND_PAGES_def)
qed

end
