(* ===== verification/PageStream.thy ===== *)
theory PageStream
  imports PagedSpend Params
begin

text \<open>
  The ordered page stream of a block (\<open>noid_chain/src/consensus/paged_spend.rs\<close>): the
  two proof classes, the loop that cuts the stream into complete groups at the end
  markers, the capacity checks of the class and the slot checks across groups.
  Validation is shown to accept exactly the streams that are concatenations of
  canonical groups within the limits, to end on every input, and to return the facts
  of that unique division.  A \<open>Transaction\<close> holds nothing but its body, so a stream of
  transactions is a list of bodies.
\<close>

section \<open>Proof classes\<close>

definition BLOCK_PROOF_CLASS_TIERS :: "nat list" where
  "BLOCK_PROOF_CLASS_TIERS = BLOCK_PAGE_CLASS_TIERS"

datatype block_proof_class = B25 | B255

definition for_page_count :: "nat \<Rightarrow> block_proof_class option" where
  "for_page_count page_count =
    (if page_count \<le> BLOCK_PROOF_CLASS_TIERS ! 0 then Some B25
     else if page_count \<le> BLOCK_PROOF_CLASS_TIERS ! 1 then Some B255
     else None)"

fun page_capacity :: "block_proof_class \<Rightarrow> nat" where
  "page_capacity B25 = BLOCK_PROOF_CLASS_TIERS ! 0"
| "page_capacity B255 = BLOCK_PROOF_CLASS_TIERS ! 1"

definition live_authorization_capacity :: "block_proof_class \<Rightarrow> nat" where
  "live_authorization_capacity = page_capacity"

fun input_capacity :: "block_proof_class \<Rightarrow> nat" where
  "input_capacity B25 = 25 * MAX_INPUTS"
| "input_capacity B255 = BLOCK_MAX_LIVE_INPUTS"

fun output_capacity :: "block_proof_class \<Rightarrow> nat" where
  "output_capacity B25 = 25 * MAX_OUTPUTS"
| "output_capacity B255 = BLOCK_MAX_USER_OUTPUTS"

section \<open>Facts and errors\<close>

record paged_spend_group_facts =
  pgf_start_page :: u16
  pgf_page_count :: u16
  pgf_spend :: paged_spend_facts

record paged_spend_stream_facts =
  psf_proof_class :: block_proof_class
  psf_groups :: "paged_spend_group_facts list"
  psf_page_count :: u16
  psf_logical_count :: u16
  psf_live_inputs :: u16
  psf_live_outputs :: u16

text \<open>The slot reported with an overlap is an arbitrary member of the intersection of two
  hash sets; the value carries the intersection.\<close>

datatype paged_spend_stream_error =
    PssGroup paged_spend_error
  | PssBlockPageLimit nat nat
  | PssProofClassMismatch block_proof_class block_proof_class
  | PssUnterminatedGroup nat
  | PssTooManyGroups nat nat
  | PssBlockInputLimit nat nat
  | PssBlockOutputLimit nat nat
  | PssDuplicateInputSlot u32
  | PssDuplicateOutputSlot u32
  | PssInputOutputSlotOverlap "u32 set"

section \<open>Cutting the stream\<close>

text \<open>\<open>iter().position(..)\<close>.\<close>

fun slice_position :: "('a \<Rightarrow> bool) \<Rightarrow> 'a list \<Rightarrow> nat option" where
  "slice_position P [] = None"
| "slice_position P (x # xs) = (if P x then Some 0 else map_option Suc (slice_position P xs))"

text \<open>The loop over the cursor; the pages still to come are the suffix from \<open>start\<close>.\<close>

function stream_groups :: "block_proof_class \<Rightarrow> nat \<Rightarrow> tx_page list \<Rightarrow> paged_spend_group_facts list
    \<Rightarrow> paged_spend_stream_error + paged_spend_group_facts list" where
  "stream_groups proof_class start pages groups =
    (if pages = [] then Inr groups
     else
       case slice_position is_end pages of
         None \<Rightarrow> Inl (PssUnterminatedGroup start)
       | Some relative_end \<Rightarrow>
           bind_res (map_err PssGroup (validate_paged_spend (take (relative_end + 1) pages))) (\<lambda>spend.
             let groups = groups @ [\<lparr> pgf_start_page = of_nat start, pgf_page_count = of_nat (relative_end + 1), pgf_spend = spend \<rparr>]
             in if length groups > live_authorization_capacity proof_class
                then Inl (PssTooManyGroups (length groups) (live_authorization_capacity proof_class))
                else stream_groups proof_class (start + relative_end + 1) (drop (relative_end + 1) pages) groups))"
  by pat_completeness auto
termination by (relation "measure (\<lambda>(_, _, pages, _). length pages)") auto

declare stream_groups.simps [simp del]

fun checked_group_sum :: "(paged_spend_group_facts \<Rightarrow> nat) \<Rightarrow> paged_spend_group_facts list \<Rightarrow> nat \<Rightarrow> nat option" where
  "checked_group_sum value [] acc = Some acc"
| "checked_group_sum value (gf # groups) acc =
    (if acc + value gf < 2 ^ 64 then checked_group_sum value groups (acc + value gf) else None)"

fun insert_slots :: "(u32 \<Rightarrow> paged_spend_stream_error) \<Rightarrow> u32 list \<Rightarrow> u32 set \<Rightarrow> paged_spend_stream_error + u32 set" where
  "insert_slots err [] seen = Inr seen"
| "insert_slots err (slot # slots) seen =
    (if slot \<in> seen then Inl (err slot) else insert_slots err slots (insert slot seen))"

definition page_slots :: "tx_page \<Rightarrow> u32 set \<times> u32 set \<Rightarrow> paged_spend_stream_error + u32 set \<times> u32 set" where
  "page_slots page = (\<lambda>(input_slots, output_slots).
    bind_res (insert_slots PssDuplicateInputSlot (map (\<lambda>x. in_slot_index (snd x)) (live_inputs (page_body page))) input_slots) (\<lambda>input_slots.
    bind_res (insert_slots PssDuplicateOutputSlot (map (\<lambda>x. out_slot_index (snd x)) (live_outputs (page_body page))) output_slots) (\<lambda>output_slots.
      Inr (input_slots, output_slots))))"

definition validate_stream_for_class :: "tx_page list \<Rightarrow> block_proof_class \<Rightarrow> paged_spend_stream_error + paged_spend_stream_facts" where
  "validate_stream_for_class pages proof_class =
    (if length pages > page_capacity proof_class then Inl (PssBlockPageLimit (length pages) (page_capacity proof_class))
     else
       bind_res (ok_or (PssBlockPageLimit (length pages) BLOCK_MAX_USER_PAGES) (for_page_count (length pages))) (\<lambda>expected.
       if expected \<noteq> proof_class then Inl (PssProofClassMismatch expected proof_class)
       else
         bind_res (stream_groups proof_class 0 pages []) (\<lambda>groups.
         bind_res (ok_or (PssBlockInputLimit (2 ^ 64 - 1) (input_capacity proof_class))
           (checked_group_sum (\<lambda>gf. unat (pf_live_inputs (pgf_spend gf))) groups 0)) (\<lambda>live_inputs.
         if live_inputs > input_capacity proof_class then Inl (PssBlockInputLimit live_inputs (input_capacity proof_class))
         else
         bind_res (ok_or (PssBlockOutputLimit (2 ^ 64 - 1) (output_capacity proof_class))
           (checked_group_sum (\<lambda>gf. unat (pf_live_outputs (pgf_spend gf))) groups 0)) (\<lambda>live_outputs.
         if live_outputs > output_capacity proof_class then Inl (PssBlockOutputLimit live_outputs (output_capacity proof_class))
         else
         bind_res (fold_res page_slots pages ({}, {})) (\<lambda>(input_slots, output_slots).
         if input_slots \<inter> output_slots \<noteq> {} then Inl (PssInputOutputSlotOverlap (input_slots \<inter> output_slots))
         else
           Inr \<lparr> psf_proof_class = proof_class, psf_groups = groups, psf_page_count = of_nat (length pages),
             psf_logical_count = of_nat (length groups), psf_live_inputs = of_nat live_inputs,
             psf_live_outputs = of_nat live_outputs \<rparr>)))))) "

definition validate_paged_spend_tx_page_stream :: "tx_page list \<Rightarrow> paged_spend_stream_error + paged_spend_stream_facts" where
  "validate_paged_spend_tx_page_stream pages =
    bind_res (ok_or (PssBlockPageLimit (length pages) BLOCK_MAX_USER_PAGES) (for_page_count (length pages))) (\<lambda>class.
      validate_stream_for_class pages class)"

definition validate_paged_spend_transaction_stream :: "tx_body list \<Rightarrow> paged_spend_stream_error + paged_spend_stream_facts" where
  "validate_paged_spend_transaction_stream pages =
    bind_res (ok_or (PssBlockPageLimit (length pages) BLOCK_MAX_USER_PAGES) (for_page_count (length pages))) (\<lambda>class.
      validate_stream_for_class (map TxPage pages) class)"

section \<open>The division of a stream into groups\<close>

fun group_records :: "nat \<Rightarrow> tx_page list list \<Rightarrow> paged_spend_group_facts list" where
  "group_records start [] = []"
| "group_records start (g # gs) =
    \<lparr> pgf_start_page = of_nat start, pgf_page_count = of_nat (length g), pgf_spend = group_facts g \<rparr> # group_records (start + length g) gs"

lemma length_group_records [simp]: "length (group_records start gs) = length gs"
  by (induction start gs rule: group_records.induct) simp_all

lemma slice_position_iff:
  "slice_position P xs = Some r \<longleftrightarrow> r < length xs \<and> P (xs ! r) \<and> (\<forall>j < r. \<not> P (xs ! j))"
proof (induction xs arbitrary: r)
  case (Cons x xs)
  show ?case by (cases r) (auto simp: Cons.IH less_Suc_eq_0_disj)
qed simp

lemma canonical_group_ends:
  assumes "canonical_group g"
  shows "slice_position is_end (g @ rest) = Some (length g - 1)" "g \<noteq> []"
proof -
  show "g \<noteq> []" using assms by (auto simp: canonical_group_def)
  then have "is_end (g ! k) \<longleftrightarrow> Suc k = length g" if "k < length g" for k
    using assms that by (simp add: canonical_group_def linked_pages_def)
  then show "slice_position is_end (g @ rest) = Some (length g - 1)"
    using \<open>g \<noteq> []\<close> by (cases "length g") (auto simp: slice_position_iff nth_append)
qed

lemma stream_groups_iff:
  assumes "length groups + length pages \<le> live_authorization_capacity c" "list_all (\<lambda>p. wf_body (page_body p)) pages"
  shows "stream_groups c start pages groups = Inr out \<longleftrightarrow>
    (\<exists>gs. concat gs = pages \<and> list_all canonical_group gs \<and> out = groups @ group_records start gs)"
  using assms
proof (induction c start pages groups arbitrary: out rule: stream_groups.induct)
  case (1 c start pages groups)
  show ?case
  proof (cases "pages = []")
    case True
    have "gs = []" if "concat gs = []" "list_all canonical_group gs" for gs
      using that by (cases gs) (auto dest: canonical_group_ends(2))
    then have "(\<exists>gs. concat gs = pages \<and> list_all canonical_group gs \<and> out = groups @ group_records start gs) \<longleftrightarrow> out = groups"
      unfolding True by (metis append_Nil2 concat.simps(1) group_records.simps(1) list.pred_inject(1))
    then show ?thesis using True by (auto simp: stream_groups.simps)
  next
    case False
    have none: "slice_position is_end pages \<noteq> None" if "concat gs = pages" "list_all canonical_group gs" for gs
      using that False canonical_group_ends(1) by (cases gs) auto
    show ?thesis
    proof (cases "slice_position is_end pages")
      case None
      then show ?thesis using False none by (subst stream_groups.simps) auto
    next
      case (Some r)
      let ?g = "take (Suc r) pages" and ?rest = "drop (Suc r) pages"
      have wf: "list_all (\<lambda>p. wf_body (page_body p)) ?g" "list_all (\<lambda>p. wf_body (page_body p)) ?rest"
        using "1.prems"(2) by (auto simp: list_all_iff dest: in_set_takeD in_set_dropD)
      have r: "r < length pages" using Some by (simp add: slice_position_iff)
      have cut: "concat gs = pages \<and> list_all canonical_group gs \<longleftrightarrow>
          (\<exists>hs. gs = ?g # hs \<and> canonical_group ?g \<and> concat hs = ?rest \<and> list_all canonical_group hs)" for gs
      proof
        assume gs: "concat gs = pages \<and> list_all canonical_group gs"
        then obtain g hs where g: "gs = g # hs" using False by (cases gs) auto
        have "length g = Suc r" using canonical_group_ends(1)[of g "concat hs"] canonical_group_ends(2)[of g] gs g Some by (cases g) auto
        then show "\<exists>hs. gs = ?g # hs \<and> canonical_group ?g \<and> concat hs = ?rest \<and> list_all canonical_group hs" using gs g by auto
      qed (metis append_take_drop_id concat.simps(2) list.pred_inject(2))
      define rec where "rec = \<lparr> pgf_start_page = of_nat start, pgf_page_count = of_nat (Suc r), pgf_spend = group_facts ?g \<rparr>"
      have run: "stream_groups c start pages groups = Inr out \<longleftrightarrow>
          canonical_group ?g \<and> stream_groups c (start + r + 1) ?rest (groups @ [rec]) = Inr out"
        using False Some "1.prems"(1) r validate_paged_spend_Inr_iff[OF wf(1)] unfolding rec_def
        by (subst stream_groups.simps) (auto simp: Let_def)
      have step: "stream_groups c (start + r + 1) ?rest (groups @ [rec]) = Inr out \<longleftrightarrow>
          (\<exists>hs. concat hs = ?rest \<and> list_all canonical_group hs \<and> out = (groups @ [rec]) @ group_records (start + r + 1) hs)"
        if "canonical_group ?g"
        using "1.IH"[OF False Some _ refl, of "group_facts ?g" out] wf(2) "1.prems"(1) r
          validate_paged_spend_Inr_iff[OF wf(1), of "group_facts ?g"] that by (simp add: rec_def)
      have "length ?g = Suc r" using r by simp
      then have recs: "group_records start (?g # hs) = rec # group_records (start + r + 1) hs" for hs
        by (simp add: rec_def)
      have "(\<exists>gs. concat gs = pages \<and> list_all canonical_group gs \<and> out = groups @ group_records start gs) \<longleftrightarrow>
          (\<exists>hs. canonical_group ?g \<and> concat hs = ?rest \<and> list_all canonical_group hs \<and> out = groups @ group_records start (?g # hs))"
        (is "?L \<longleftrightarrow> ?R")
      proof
        assume ?L
        then obtain gs where gs: "concat gs = pages \<and> list_all canonical_group gs" "out = groups @ group_records start gs" by blast
        from gs(1)[unfolded cut] gs(2) show ?R by blast
      next
        assume ?R
        then obtain hs where hs: "canonical_group ?g \<and> concat hs = ?rest \<and> list_all canonical_group hs" "out = groups @ group_records start (?g # hs)" by blast
        have "concat (?g # hs) = pages \<and> list_all canonical_group (?g # hs)" unfolding cut using hs(1) by blast
        then show ?L using hs(2) by blast
      qed
      then show ?thesis unfolding run recs using step by auto
    qed
  qed
qed

section \<open>Counts and slots of a stream\<close>

lemma lives_concat: "lives (concat xss) = concat (map lives xss)"
  by (induction xss) simp_all

lemma group_lanes_simps [simp]:
  "group_inputs [] = []" "group_inputs (p # ps) = lives (input_lanes p) @ group_inputs ps"
  "group_outputs [] = []" "group_outputs (p # ps) = lives (output_lanes p) @ group_outputs ps"
  by (simp_all add: group_inputs_def group_outputs_def)

lemma group_lanes_append:
  "group_inputs (ps @ qs) = group_inputs ps @ group_inputs qs" "group_outputs (ps @ qs) = group_outputs ps @ group_outputs qs"
  by (induction ps) simp_all

lemma live_lane_values:
  "map snd (live_inputs (page_body p)) = lives (input_lanes p)" "map snd (live_outputs (page_body p)) = lives (output_lanes p)"
proof -
  have lanes: "map snd (filter (\<lambda>(i, _). P i) xs) = lives (map (\<lambda>x. (P (fst x), snd x)) xs)" for P :: "nat \<Rightarrow> bool" and xs :: "(nat \<times> 'x) list"
    by (induction xs) (auto simp: lives_def)
  show "map snd (live_inputs (page_body p)) = lives (input_lanes p)" "map snd (live_outputs (page_body p)) = lives (output_lanes p)"
    by (simp_all add: live_inputs_def live_outputs_def input_lanes_def output_lanes_def lanes)
qed

lemma live_lanes:
  "map (\<lambda>x. in_slot_index (snd x)) (live_inputs (page_body p)) = map in_slot_index (lives (input_lanes p))"
  "map (\<lambda>x. out_slot_index (snd x)) (live_outputs (page_body p)) = map out_slot_index (lives (output_lanes p))"
  by (simp_all add: comp_def flip: live_lane_values)

lemma lives_bound: "length (lives lanes) \<le> length lanes"
  by (simp add: lives_def)

lemma group_inputs_bound:
  assumes "list_all (\<lambda>p. wf_body (page_body p)) pages"
  shows "length (group_inputs pages) \<le> length pages * 8"
  using assms
proof (induction pages)
  case (Cons p ps)
  have "length (input_lanes p) = 8" using Cons.prems by (simp add: input_lanes_def wf_simps TX_INPUTS_def)
  then show ?case using lives_bound[of "input_lanes p"] Cons by simp
qed simp

lemma checked_group_sum_eq:
  "acc + sum_list (map f groups) < 2 ^ 64 \<Longrightarrow> checked_group_sum f groups acc = Some (acc + sum_list (map f groups))"
  by (induction f groups acc rule: checked_group_sum.induct) auto

lemma group_records_counts:
  assumes "list_all canonical_group gs" "list_all (\<lambda>p. wf_body (page_body p)) (concat gs)"
  shows "sum_list (map (\<lambda>gf. unat (pf_live_inputs (pgf_spend gf))) (group_records start gs)) = length (group_inputs (concat gs)) \<and>
    sum_list (map (\<lambda>gf. unat (pf_live_outputs (pgf_spend gf))) (group_records start gs)) = length (group_outputs (concat gs))"
  using assms
proof (induction start gs rule: group_records.induct)
  case (2 start g gs)
  have "length (group_inputs g) < 2 ^ 16" "length (group_outputs g) < 2 ^ 16"
    using "2.prems" output_lanes_bound[of g] by (auto simp: canonical_group_def)
  then have "unat (pf_live_inputs (group_facts g)) = length (group_inputs g)" "unat (pf_live_outputs (group_facts g)) = length (group_outputs g)"
    by (simp_all add: group_facts_def unat_of_nat_lt)
  then show ?case using 2 by (simp add: group_lanes_append)
qed simp

definition new_slots :: "u32 list \<Rightarrow> u32 set \<Rightarrow> bool" where
  "new_slots slots seen \<longleftrightarrow> distinct slots \<and> set slots \<inter> seen = {}"

lemma new_slots_append: "new_slots (xs @ ys) seen \<longleftrightarrow> new_slots xs seen \<and> new_slots ys (set xs \<union> seen)"
  by (auto simp: new_slots_def)

lemma insert_slots_iff: "insert_slots err slots seen = Inr s \<longleftrightarrow> new_slots slots seen \<and> s = set slots \<union> seen"
  by (induction err slots seen rule: insert_slots.induct) (auto simp: new_slots_def)

lemma page_slots_iff:
  "fold_res page_slots pages (X, Y) = Inr r \<longleftrightarrow>
    new_slots (map in_slot_index (group_inputs pages)) X \<and> new_slots (map out_slot_index (group_outputs pages)) Y \<and>
    r = (set (map in_slot_index (group_inputs pages)) \<union> X, set (map out_slot_index (group_outputs pages)) \<union> Y)"
proof (induction pages arbitrary: X Y)
  case Nil
  then show ?case by (auto simp: new_slots_def)
next
  case (Cons p pages)
  let ?in = "map in_slot_index (lives (input_lanes p))" and ?out = "map out_slot_index (lives (output_lanes p))"
  have "fold_res page_slots (p # pages) (X, Y) = Inr r \<longleftrightarrow>
    new_slots ?in X \<and> new_slots ?out Y \<and> fold_res page_slots pages (set ?in \<union> X, set ?out \<union> Y) = Inr r"
    by (simp add: page_slots_def live_lanes insert_slots_iff)
  then show ?case
    unfolding Cons.IH group_lanes_simps map_append new_slots_append set_append by (simp only: Un_left_commute Un_assoc) blast
qed

section \<open>Properties\<close>

definition stream_facts :: "block_proof_class \<Rightarrow> tx_page list list \<Rightarrow> paged_spend_stream_facts" where
  "stream_facts c gs =
    \<lparr> psf_proof_class = c, psf_groups = group_records 0 gs, psf_page_count = of_nat (length (concat gs)),
      psf_logical_count = of_nat (length gs), psf_live_inputs = of_nat (length (group_inputs (concat gs))),
      psf_live_outputs = of_nat (length (group_outputs (concat gs))) \<rparr>"

definition canonical_stream :: "tx_page list list \<Rightarrow> bool" where
  "canonical_stream gs \<longleftrightarrow> list_all canonical_group gs \<and> length (concat gs) \<le> 255 \<and> length (group_inputs (concat gs)) \<le> 1020 \<and>
    distinct (map in_slot_index (group_inputs (concat gs)) @ map out_slot_index (group_outputs (concat gs)))"

lemma for_page_count_iff: "for_page_count n = Some c \<longleftrightarrow> n \<le> 255 \<and> c = (if n \<le> 25 then B25 else B255)"
  by (auto simp: for_page_count_def BLOCK_PROOF_CLASS_TIERS_def BLOCK_PAGE_CLASS_TIERS_def)

lemma validate_stream_iff:
  assumes wf: "list_all (\<lambda>p. wf_body (page_body p)) pages"
  shows "validate_stream_for_class pages c = Inr facts \<longleftrightarrow>
    for_page_count (length pages) = Some c \<and> (\<exists>gs. concat gs = pages \<and> canonical_stream gs \<and> facts = stream_facts c gs)"
proof (cases "for_page_count (length pages) = Some c")
  case False
  then have "validate_stream_for_class pages c \<noteq> Inr facts"
    by (cases "for_page_count (length pages)") (auto simp: validate_stream_for_class_def)
  with False show ?thesis by blast
next
  case True
  then have n: "length pages \<le> 255" "length pages \<le> page_capacity c" and cls: "c = (if length pages \<le> 25 then B25 else B255)"
    by (auto simp: for_page_count_iff BLOCK_PROOF_CLASS_TIERS_def BLOCK_PAGE_CLASS_TIERS_def split: if_splits)
  have outs: "length (group_outputs pages) \<le> output_capacity c" and ins: "length (group_inputs pages) \<le> input_capacity c \<longleftrightarrow> length (group_inputs pages) \<le> 1020"
    using output_lanes_bound[OF wf] group_inputs_bound[OF wf] n(1)
    by (auto simp: cls MAX_INPUTS_def MAX_OUTPUTS_def BLOCK_MAX_LIVE_INPUTS_def BLOCK_MAX_USER_OUTPUTS_def)
  have small: "length (group_inputs pages) < 2 ^ 64" "length (group_outputs pages) < 2 ^ 64"
    using output_lanes_bound[OF wf] group_inputs_bound[OF wf] n(1) by simp_all
  have groups: "stream_groups c 0 pages [] = Inr out \<longleftrightarrow> (\<exists>gs. concat gs = pages \<and> list_all canonical_group gs \<and> out = group_records 0 gs)" for out
    using stream_groups_iff[of "[]" pages c 0 out] wf n(2) by (simp add: live_authorization_capacity_def)
  have sums: "checked_group_sum (\<lambda>gf. unat (pf_live_inputs (pgf_spend gf))) (group_records 0 gs) 0 = Some (length (group_inputs pages))"
    "checked_group_sum (\<lambda>gf. unat (pf_live_outputs (pgf_spend gf))) (group_records 0 gs) 0 = Some (length (group_outputs pages))"
    if "concat gs = pages" "list_all canonical_group gs" for gs
    using that small group_records_counts[of gs 0] wf by (simp_all add: checked_group_sum_eq)
  define after where "after = (\<lambda>groups.
         bind_res (ok_or (PssBlockInputLimit (2 ^ 64 - 1) (input_capacity c))
           (checked_group_sum (\<lambda>gf. unat (pf_live_inputs (pgf_spend gf))) groups 0)) (\<lambda>live_inputs.
         if live_inputs > input_capacity c then Inl (PssBlockInputLimit live_inputs (input_capacity c))
         else
         bind_res (ok_or (PssBlockOutputLimit (2 ^ 64 - 1) (output_capacity c))
           (checked_group_sum (\<lambda>gf. unat (pf_live_outputs (pgf_spend gf))) groups 0)) (\<lambda>live_outputs.
         if live_outputs > output_capacity c then Inl (PssBlockOutputLimit live_outputs (output_capacity c))
         else
         bind_res (fold_res page_slots pages ({}, {})) (\<lambda>(input_slots, output_slots).
         if input_slots \<inter> output_slots \<noteq> {} then Inl (PssInputOutputSlotOverlap (input_slots \<inter> output_slots))
         else
           Inr \<lparr> psf_proof_class = c, psf_groups = groups, psf_page_count = of_nat (length pages),
             psf_logical_count = of_nat (length groups), psf_live_inputs = of_nat live_inputs,
             psf_live_outputs = of_nat live_outputs \<rparr>))))"
  have after: "after (group_records 0 gs) = Inr facts \<longleftrightarrow> canonical_stream gs \<and> facts = stream_facts c gs"
    if "concat gs = pages" "list_all canonical_group gs" for gs
    using that sums[OF that] ins outs n(1)
    by (auto simp: after_def page_slots_iff new_slots_def canonical_stream_def stream_facts_def split: prod.splits)
  have run: "validate_stream_for_class pages c = bind_res (stream_groups c 0 pages []) after"
    using True n(2) by (simp add: validate_stream_for_class_def after_def)
  have "validate_stream_for_class pages c = Inr facts \<longleftrightarrow>
      (\<exists>gs. concat gs = pages \<and> list_all canonical_group gs \<and> after (group_records 0 gs) = Inr facts)"
    unfolding run bind_res_Inr_iff groups by blast
  also have "\<dots> \<longleftrightarrow> (\<exists>gs. concat gs = pages \<and> canonical_stream gs \<and> facts = stream_facts c gs)"
    using after by (auto simp: canonical_stream_def)
  finally show ?thesis using True by simp
qed

lemma transaction_stream_iff:
  assumes "list_all wf_body txs"
  shows "validate_paged_spend_transaction_stream txs = Inr facts \<longleftrightarrow>
    (\<exists>gs. concat gs = map TxPage txs \<and> canonical_stream gs \<and>
      facts = stream_facts (if length txs \<le> 25 then B25 else B255) gs)"
proof -
  have wf: "list_all (\<lambda>p. wf_body (page_body p)) (map TxPage txs)" using assms by (simp add: list_all_iff)
  have len: "canonical_stream gs \<Longrightarrow> concat gs = map TxPage txs \<Longrightarrow> length txs \<le> 255" for gs
    by (metis canonical_stream_def length_map)
  have "validate_paged_spend_transaction_stream txs = Inr facts \<longleftrightarrow>
      (\<exists>c. for_page_count (length txs) = Some c \<and> validate_stream_for_class (map TxPage txs) c = Inr facts)"
    by (cases "for_page_count (length txs)") (auto simp: validate_paged_spend_transaction_stream_def)
  then show ?thesis unfolding validate_stream_iff[OF wf] for_page_count_iff length_map using len by blast
qed

text \<open>
  C39: Stream validation ends on every list of well-formed bodies, and it accepts
  exactly the concatenations of canonical groups with at most 255 pages, at most 1020
  live inputs and pairwise distinct slots; the facts returned are those of that
  division, the smaller proof class is chosen exactly up to 25 pages, and the output
  and group capacities never reject a stream that passes the other checks.
\<close>

theorem stream_accepted_iff:
  assumes "list_all wf_body txs"
  shows "validate_paged_spend_transaction_stream txs = Inr facts \<longleftrightarrow>
    (\<exists>gs. concat gs = map TxPage txs \<and> canonical_stream gs \<and>
      facts = stream_facts (if length txs \<le> 25 then B25 else B255) gs)"
  by (rule transaction_stream_iff[OF assms])

theorem stream_accepted_iff_witness:
  "validate_paged_spend_transaction_stream (map page_body example_pages) = Inr (stream_facts B25 [example_pages])"
proof -
  have wf: "list_all wf_body (map page_body example_pages)" using wf_example_pages by (simp add: list_all_iff)
  have pages: "map TxPage (map page_body example_pages) = example_pages" by (simp add: map_idI)
  have "canonical_stream [example_pages]"
    using canonical_example_pages by (auto simp: canonical_stream_def canonical_group_def)
  moreover have "length (map page_body example_pages) \<le> 25" by (simp add: example_pages_def)
  ultimately show ?thesis
    unfolding stream_accepted_iff[OF wf] using pages by (intro exI[of _ "[example_pages]"]) simp
qed

end
