(* ===== verification/TxTree.thy ===== *)
theory TxTree
  imports Poseidon2b
begin

text \<open>
  The universal transaction tree (\<open>noid_chain/src/tx_tree.rs\<close>): 256 leaves, a
  binary Merkle root wrapped with the real transaction count, fixed-depth
  inclusion paths.  Asserts that abort are the value \<open>None\<close>.  Paths built for a
  real leaf verify, and a path that verifies for anything else exhibits a
  collision of the compression function between the values the verifier hashed
  and the nodes of the tree.
\<close>

section \<open>The tree\<close>

definition TX_TREE_LEAVES :: nat where "TX_TREE_LEAVES = 256"
definition TX_TREE_DEPTH :: nat where "TX_TREE_DEPTH = 8"

definition count_digest :: "nat \<Rightarrow> digest" where
  "count_digest tx_count = to_le 16 (of_nat tx_count :: u128) @ replicate 16 0"

definition bind_tx_count :: "digest \<Rightarrow> nat \<Rightarrow> digest option" where
  "bind_tx_count merkle_root tx_count =
    (if 1 \<le> tx_count \<and> tx_count \<le> TX_TREE_LEAVES
     then Some (compress_with_tag TAG_TXROOT merkle_root (count_digest tx_count))
     else None)"

lemma length_pair_level [simp]: "length (pair_level h xs) = length xs div 2"
  by (induction h xs rule: pair_level.induct) auto

text \<open>\<open>while layer.len() > 1 { layer = chunks_exact(2).map(compress) }\<close>.\<close>

function reduce_layers :: "('a \<Rightarrow> 'a \<Rightarrow> 'a) \<Rightarrow> 'a list \<Rightarrow> 'a list" where
  "reduce_layers h layer =
    (if length layer > 1 then reduce_layers h (pair_level h layer) else layer)"
  by pat_completeness auto
termination by (relation "measure (\<lambda>(h, layer). length layer)") auto

declare reduce_layers.simps [simp del]

definition padded_leaves :: "digest list \<Rightarrow> digest list" where
  "padded_leaves tx_hashes = tx_hashes @ replicate (TX_TREE_LEAVES - length tx_hashes) zero_digest"

definition root_from_hashes :: "digest list \<Rightarrow> digest option" where
  "root_from_hashes tx_hashes =
    (if tx_hashes = [] then Some zero_digest
     else if \<not> length tx_hashes \<le> TX_TREE_LEAVES then None
     else bind_tx_count (reduce_layers compress (padded_leaves tx_hashes) ! 0) (length tx_hashes))"

function path_loop :: "('a \<Rightarrow> 'a \<Rightarrow> 'a) \<Rightarrow> 'a list \<Rightarrow> nat \<Rightarrow> 'a list" where
  "path_loop h layer index =
    (if length layer > 1
     then layer ! (index XOR 1) # path_loop h (pair_level h layer) (index div 2)
     else [])"
  by pat_completeness auto
termination by (relation "measure (\<lambda>(h, layer, index). length layer)") auto

declare path_loop.simps [simp del]

definition path_from_hashes :: "digest list \<Rightarrow> nat \<Rightarrow> digest list option" where
  "path_from_hashes tx_hashes tx_index =
    (if tx_hashes = [] \<or> \<not> length tx_hashes \<le> TX_TREE_LEAVES \<or> \<not> tx_index < length tx_hashes
     then None
     else Some (path_loop compress (padded_leaves tx_hashes) tx_index))"

definition verify_path :: "digest \<Rightarrow> digest list \<Rightarrow> nat \<Rightarrow> nat \<Rightarrow> digest \<Rightarrow> bool" where
  "verify_path leaf path tx_index tx_count claimed_root =
    (if \<not> (1 \<le> tx_count \<and> tx_count \<le> TX_TREE_LEAVES) \<or> tx_index \<ge> tx_count then False
     else
       let current = fold (\<lambda>(level, sibling) current.
             if (drop_bit level tx_index) AND 1 = 1 then compress sibling current
             else compress current sibling) (enumerate 0 path) leaf
       in bind_tx_count current tx_count = Some claimed_root)"

section \<open>Climbing a path\<close>

fun climb :: "('a \<Rightarrow> 'a \<Rightarrow> 'a) \<Rightarrow> nat \<Rightarrow> 'a \<Rightarrow> 'a list \<Rightarrow> 'a" where
  "climb h i cur [] = cur"
| "climb h i cur (s # path) = climb h (i div 2) (if odd i then h s cur else h cur s) path"

lemma fold_climb:
  "fold (\<lambda>(level, sibling) current.
      if (drop_bit level i) AND 1 = 1 then h sibling current else h current sibling)
    (enumerate k path) cur = climb h (drop_bit k i) cur path"
proof (induction path arbitrary: k cur)
  case (Cons s path)
  have "(drop_bit k i AND 1 = 1) = odd (drop_bit k i)" by (simp add: and_one_eq odd_iff_mod_2_eq_one)
  moreover have "drop_bit (Suc k) i = drop_bit k i div 2"
    by (simp add: drop_bit_eq_div div_mult2_eq[symmetric] mult.commute)
  ultimately show ?case using Cons[of "Suc k"] by simp
qed simp

lemma nth_pair_level:
  "k < length xs div 2 \<Longrightarrow> pair_level h xs ! k = h (xs ! (2 * k)) (xs ! Suc (2 * k))"
proof (induction h xs arbitrary: k rule: pair_level.induct)
  case (1 h a b xs)
  then show ?case by (cases k) auto
qed auto

lemma climb_path_loop:
  assumes "length layer = 2 ^ n" "i < 2 ^ n"
  shows "climb h i (layer ! i) (path_loop h layer i) = reduce_layers h layer ! 0 \<and>
    length (path_loop h layer i) = n"
  using assms
proof (induction n arbitrary: layer i)
  case 0
  then show ?case by (simp add: path_loop.simps reduce_layers.simps)
next
  case (Suc n)
  let ?l = "pair_level h layer"
  have len: "length ?l = 2 ^ n" and big: "length layer > 1"
    using Suc.prems one_less_power[of "2 :: nat" "Suc n"] by auto
  have i2: "i div 2 < 2 ^ n" using Suc.prems(2) by auto
  have node: "?l ! (i div 2) = (if odd i then h (layer ! (i XOR 1)) (layer ! i) else h (layer ! i) (layer ! (i XOR 1)))"
    using i2 len Suc.prems by (auto simp: nth_pair_level xor_one_nat[unfolded One_nat_def] elim!: evenE oddE)
  show ?case
    using Suc.IH[OF len i2] big node
    by (simp add: path_loop.simps[of h layer] reduce_layers.simps[of h layer] split: if_splits)
qed

section \<open>Binding\<close>

text \<open>The argument pairs hashed while climbing, and those of the tree on the way to its root.\<close>

fun climb_pairs :: "('a \<Rightarrow> 'a \<Rightarrow> 'a) \<Rightarrow> nat \<Rightarrow> 'a \<Rightarrow> 'a list \<Rightarrow> ('a \<times> 'a) list" where
  "climb_pairs h i cur [] = []"
| "climb_pairs h i cur (s # path) =
    (let p = (if odd i then (s, cur) else (cur, s))
     in p # climb_pairs h (i div 2) (h (fst p) (snd p)) path)"

fun tree_pairs :: "('a \<Rightarrow> 'a \<Rightarrow> 'a) \<Rightarrow> nat \<Rightarrow> 'a list \<Rightarrow> nat \<Rightarrow> ('a \<times> 'a) list" where
  "tree_pairs h i layer 0 = []"
| "tree_pairs h i layer (Suc n) =
    (layer ! (2 * (i div 2)), layer ! Suc (2 * (i div 2))) #
      tree_pairs h (i div 2) (pair_level h layer) n"

text \<open>At some level two different pairs have the same hash.\<close>

definition collision :: "('a \<Rightarrow> 'a \<Rightarrow> 'a) \<Rightarrow> ('a \<times> 'a) list \<Rightarrow> ('a \<times> 'a) list \<Rightarrow> bool" where
  "collision h ps qs \<longleftrightarrow>
    list_ex (\<lambda>(p, q). p \<noteq> q \<and> h (fst p) (snd p) = h (fst q) (snd q)) (zip ps qs)"

lemma climb_binding:
  assumes "length layer = 2 ^ length path" "i < 2 ^ length path"
    and "climb h i leaf path = reduce_layers h layer ! 0"
  shows "leaf = layer ! i \<or>
    collision h (climb_pairs h i leaf path) (tree_pairs h i layer (length path))"
  using assms
proof (induction path arbitrary: layer i leaf)
  case Nil
  then show ?case by (simp add: reduce_layers.simps)
next
  case (Cons s path)
  let ?l = "pair_level h layer"
  define p where "p = (if odd i then (s, leaf) else (leaf, s))"
  define q where "q = (layer ! (2 * (i div 2)), layer ! Suc (2 * (i div 2)))"
  have len: "length ?l = 2 ^ length path" and big: "length layer > 1"
    using Cons.prems one_less_power[of "2 :: nat" "Suc (length path)"] by auto
  have i2: "i div 2 < 2 ^ length path" using Cons.prems(2) by auto
  have node: "?l ! (i div 2) = h (fst q) (snd q)"
    using i2 len by (simp add: nth_pair_level q_def)
  have step: "climb h (i div 2) (h (fst p) (snd p)) path = reduce_layers h ?l ! 0"
    using Cons.prems(3) big by (simp add: p_def reduce_layers.simps[of h layer] split: if_splits)
  consider (same) "h (fst p) (snd p) = ?l ! (i div 2)"
    | (below) "collision h (climb_pairs h (i div 2) (h (fst p) (snd p)) path) (tree_pairs h (i div 2) ?l (length path))"
    using Cons.IH[OF len i2 step] by blast
  then show ?case
  proof cases
    case same
    show ?thesis
    proof (cases "p = q")
      case True
      then have "leaf = layer ! i"
        by (cases "odd i") (auto simp: p_def q_def elim!: oddE evenE)
      then show ?thesis by simp
    next
      case False
      then show ?thesis using same node by (simp add: collision_def Let_def p_def[symmetric] q_def[symmetric])
    qed
  next
    case below
    then show ?thesis by (auto simp: collision_def Let_def p_def[symmetric] q_def[symmetric])
  qed
qed

section \<open>Completeness and binding of inclusion paths\<close>

lemma padded_leaves_props:
  assumes "length hs \<le> 256"
  shows "length (padded_leaves hs) = 2 ^ 8" "i < length hs \<Longrightarrow> padded_leaves hs ! i = hs ! i"
  using assms by (simp_all add: padded_leaves_def TX_TREE_LEAVES_def nth_append)

lemma root_from_hashes_eq:
  assumes "hs \<noteq> []" "length hs \<le> 256"
  shows "root_from_hashes hs = Some (compress_with_tag TAG_TXROOT
    (reduce_layers compress (padded_leaves hs) ! 0) (count_digest (length hs)))"
  using assms by (simp add: root_from_hashes_def bind_tx_count_def TX_TREE_LEAVES_def Suc_le_eq)

lemma verify_path_iff:
  "verify_path leaf path i n root \<longleftrightarrow> i < n \<and> n \<le> 256 \<and>
    root = compress_with_tag TAG_TXROOT (climb compress i leaf path) (count_digest n)"
  using fold_climb[of i compress 0 path leaf]
  by (auto simp: verify_path_def bind_tx_count_def TX_TREE_LEAVES_def)

text \<open>
  C22: inclusion paths are complete.  For every non-empty list of at most 256
  transaction hashes and every index into it, the path builder and the root
  function succeed, the path has the fixed depth, and the verifier accepts the
  leaf with that path, index and count against the header root.
\<close>

theorem path_verifies:
  assumes "length hs \<le> 256" "i < length hs"
  shows "\<exists>path root. path_from_hashes hs i = Some path \<and> root_from_hashes hs = Some root \<and>
    length path = TX_TREE_DEPTH \<and> verify_path (hs ! i) path i (length hs) root"
proof -
  have ne: "hs \<noteq> []" using assms(2) by auto
  have "i < 2 ^ 8" using assms by simp
  note c = climb_path_loop[OF padded_leaves_props(1)[OF assms(1)] this, of compress]
  then have "verify_path (hs ! i) (path_loop compress (padded_leaves hs) i) i (length hs)
      (compress_with_tag TAG_TXROOT (reduce_layers compress (padded_leaves hs) ! 0) (count_digest (length hs)))"
    using assms padded_leaves_props(2)[OF assms] by (simp add: verify_path_iff)
  then show ?thesis
    using c assms ne root_from_hashes_eq[OF ne assms(1)]
    by (simp add: path_from_hashes_def TX_TREE_LEAVES_def TX_TREE_DEPTH_def)
qed

theorem path_verifies_witness:
  "\<exists>path root. path_from_hashes [zero_digest, replicate 32 1, replicate 32 2] 1 = Some path \<and>
    root_from_hashes [zero_digest, replicate 32 1, replicate 32 2] = Some root \<and>
    length path = TX_TREE_DEPTH \<and> verify_path (replicate 32 1) path 1 3 root"
  using path_verifies[of "[zero_digest, replicate 32 1, replicate 32 2]" 1]
  by (simp add: numeral_3_eq_3)

text \<open>The count wrapper separates different counts unless the wrapped compression collides.\<close>

definition wrap_collision :: "digest \<Rightarrow> nat \<Rightarrow> digest \<Rightarrow> nat \<Rightarrow> bool" where
  "wrap_collision root n root' n' \<longleftrightarrow>
    (root, count_digest n) \<noteq> (root', count_digest n') \<and>
    compress_with_tag TAG_TXROOT root (count_digest n) = compress_with_tag TAG_TXROOT root' (count_digest n')"

lemma count_digest_inj: "n \<le> 256 \<Longrightarrow> m \<le> 256 \<Longrightarrow> count_digest n = count_digest m \<longleftrightarrow> n = m"
proof -
  assume nm: "n \<le> 256" "m \<le> 256"
  have "unat (of_nat k :: u128) = k" if "k \<le> 256" for k
    using that by (simp add: unsigned_of_nat take_bit_nat_eq_self)
  moreover have "of_nat n = (of_nat m :: u128)" if "count_digest n = count_digest m"
  proof -
    have "(from_le (take 16 (count_digest k)) :: u128) = of_nat k" for k
      by (simp add: count_digest_def)
    then show ?thesis using that by metis
  qed
  ultimately show ?thesis using nm by metis
qed

text \<open>
  C21: a header root binds its transactions.  If the verifier accepts a leaf at an
  index with a count against the root computed from a list of hashes, then the
  count and the leaf are those of the list, unless
  a collision is exhibited: of the count wrapper, or at some level between the
  pair hashed by the verifier and the pair of nodes of the tree.
\<close>

theorem verify_path_binding:
  assumes "root_from_hashes hs = Some root" "hs \<noteq> []" "length path = TX_TREE_DEPTH"
    and "verify_path leaf path i n root"
  shows "(n = length hs \<and> leaf = hs ! i) \<or>
    wrap_collision (climb compress i leaf path) n (reduce_layers compress (padded_leaves hs) ! 0) (length hs) \<or>
    collision compress (climb_pairs compress i leaf path) (tree_pairs compress i (padded_leaves hs) TX_TREE_DEPTH)"
proof -
  have len: "length hs \<le> 256"
    using assms(1,2) by (simp add: root_from_hashes_def TX_TREE_LEAVES_def split: if_splits)
  have v: "i < n" "n \<le> 256" and root: "compress_with_tag TAG_TXROOT (climb compress i leaf path) (count_digest n) =
      compress_with_tag TAG_TXROOT (reduce_layers compress (padded_leaves hs) ! 0) (count_digest (length hs))"
    using assms(1,4) root_from_hashes_eq[OF assms(2) len] by (simp_all add: verify_path_iff)
  show ?thesis
  proof (cases "climb compress i leaf path = reduce_layers compress (padded_leaves hs) ! 0 \<and> n = length hs")
    case False
    then show ?thesis using root count_digest_inj[OF v(2) len] by (auto simp: wrap_collision_def)
  next
    case True
    have "length (padded_leaves hs) = 2 ^ length path" "i < 2 ^ length path"
      using padded_leaves_props(1)[OF len] assms(3) v by (simp_all add: TX_TREE_DEPTH_def)
    from climb_binding[OF this] True show ?thesis
      using padded_leaves_props(2)[OF len, of i] v assms(3) by auto
  qed
qed

theorem verify_path_binding_witness:
  "\<exists>path root. root_from_hashes [replicate 32 7] = Some root \<and> length path = TX_TREE_DEPTH \<and>
    verify_path (replicate 32 7) path 0 1 root \<and>
    ((1 = length [replicate 32 7 :: digest] \<and> replicate 32 7 = [replicate 32 7 :: digest] ! 0) \<or>
     wrap_collision (climb compress 0 (replicate 32 7) path) 1
       (reduce_layers compress (padded_leaves [replicate 32 7]) ! 0) 1 \<or>
     collision compress (climb_pairs compress 0 (replicate 32 7) path)
       (tree_pairs compress 0 (padded_leaves [replicate 32 7]) TX_TREE_DEPTH))"
proof -
  have "0 < (2 :: nat) ^ 8" by simp
  note c = climb_path_loop[OF padded_leaves_props(1)[of "[replicate 32 7]"] this, of compress]
  define path where "path = path_loop compress (padded_leaves [replicate 32 7]) 0"
  have p: "length path = TX_TREE_DEPTH" "climb compress 0 (replicate 32 7) path =
      reduce_layers compress (padded_leaves [replicate 32 7]) ! 0"
    using c padded_leaves_props(2)[of "[replicate 32 7]" 0] by (simp_all add: path_def TX_TREE_DEPTH_def)
  obtain root where r: "root_from_hashes [replicate 32 7] = Some root"
    using root_from_hashes_eq[of "[replicate 32 7]"] by simp
  have v: "verify_path (replicate 32 7) path 0 1 root"
    using r root_from_hashes_eq[of "[replicate 32 7]"] p(2) by (simp add: verify_path_iff)
  show ?thesis using verify_path_binding[OF r _ p(1) v] r p(1) v by auto
qed

end
