(* ===== verification/Header.thy ===== *)
theory Header
  imports TxWire U256
begin

text \<open>
  The block header (\<open>noid_chain/src/block_header.rs\<close>), its 212-byte wire format
  (\<open>noid_chain/src/wire.rs\<close>), the chain-link and nonce-free identities, and the
  proof-of-work digest and check (\<open>consensus/pow.rs\<close>).  All three identities hash
  the same fixed field schedule under different domain tags; the schedule is
  injective on headers, and the projection of a header without its nonce
  determines the nonce-free identity.
\<close>

section \<open>The header and its wire format\<close>

record block_header =
  prev_block_hash :: digest
  state_root :: digest
  tx_root :: digest
  hdr_timestamp :: u64
  hdr_height :: u64
  miner_address :: address
  hdr_nonce :: u128
  difficulty_target :: bytes
  hdr_log_slots :: u32
  hdr_active_slot_count :: u64
  hdr_alloc_counter :: u64

definition BLOCK_HEADER_WIRE_SIZE :: nat where
  "BLOCK_HEADER_WIRE_SIZE = 32 + 32 + 32 + 8 + 8 + 32 + 16 + 32 + 4 + 8 + 8"

definition BLOCK_HEADER_NONCE_OFFSET :: nat where
  "BLOCK_HEADER_NONCE_OFFSET = 32 + 32 + 32 + 8 + 8 + 32"

definition header_encode :: "block_header \<Rightarrow> bytes" where
  "header_encode h =
    prev_block_hash h @ state_root h @ tx_root h @ to_le 8 (hdr_timestamp h) @ to_le 8 (hdr_height h) @
    miner_address h @ to_le 16 (hdr_nonce h) @ difficulty_target h @ to_le 4 (hdr_log_slots h) @
    to_le 8 (hdr_active_slot_count h) @ to_le 8 (hdr_alloc_counter h)"

definition header_decode :: "bytes \<Rightarrow> wire_error + block_header \<times> bytes" where
  "header_decode src =
    bind_res (split_off Truncated 32 src) (\<lambda>(prev, src).
    bind_res (split_off Truncated 32 src) (\<lambda>(sroot, src).
    bind_res (split_off Truncated 32 src) (\<lambda>(troot, src).
    bind_res (take_le Truncated 8 src) (\<lambda>(ts, src).
    bind_res (take_le Truncated 8 src) (\<lambda>(height, src).
    bind_res (split_off Truncated 32 src) (\<lambda>(miner, src).
    bind_res (take_le Truncated 16 src) (\<lambda>(nonce, src).
    bind_res (split_off Truncated 32 src) (\<lambda>(target, src).
    bind_res (take_le Truncated 4 src) (\<lambda>(log_slots, src).
    bind_res (take_le Truncated 8 src) (\<lambda>(active, src).
    bind_res (take_le Truncated 8 src) (\<lambda>(alloc, src).
    Inr (\<lparr> prev_block_hash = prev, state_root = sroot, tx_root = troot, hdr_timestamp = ts,
           hdr_height = height, miner_address = miner, hdr_nonce = nonce, difficulty_target = target,
           hdr_log_slots = log_slots, hdr_active_slot_count = active, hdr_alloc_counter = alloc \<rparr>,
         src))))))))))))"

definition header_from_bytes :: "bytes \<Rightarrow> wire_error + block_header" where
  "header_from_bytes bs =
    bind_res (header_decode bs) (\<lambda>(out, src).
    if src \<noteq> [] then Inl TrailingBytes else Inr out)"

section \<open>Identities\<close>

definition absorb_digest :: "digest \<Rightarrow> sponge \<Rightarrow> sponge" where
  "absorb_digest d s = (let (hi, lo) = digest_fields d in absorb_pair hi lo s)"

definition hash_block_header :: "block_header \<Rightarrow> digest" where
  "hash_block_header hdr =
    (let s = sponge_with_iv (capacity_iv TAG_BLOCKHDR);
         s = absorb_digest (prev_block_hash hdr) s;
         s = absorb_digest (state_root hdr) s;
         s = absorb_digest (tx_root hdr) s;
         s = absorb (ucast (hdr_timestamp hdr)) s;
         s = absorb (ucast (hdr_height hdr)) s;
         s = absorb_digest (miner_address hdr) s;
         s = absorb (hdr_nonce hdr) s;
         s = absorb_digest (difficulty_target hdr) s;
         s = absorb (ucast (hdr_log_slots hdr)) s;
         s = absorb (ucast (hdr_active_slot_count hdr)) s;
         s = absorb (ucast (hdr_alloc_counter hdr)) s
     in sponge_finalize s)"

definition block_id :: "block_header \<Rightarrow> digest" where
  "block_id hdr = hash_block_header hdr"

definition semantic_header_id :: "block_header \<Rightarrow> digest" where
  "semantic_header_id hdr =
    (let s = sponge_with_iv (capacity_iv TAG_SEMHDR);
         s = absorb_digest (prev_block_hash hdr) s;
         s = absorb_digest (state_root hdr) s;
         s = absorb_digest (tx_root hdr) s;
         s = absorb (ucast (hdr_timestamp hdr)) s;
         s = absorb (ucast (hdr_height hdr)) s;
         s = absorb_digest (miner_address hdr) s;
         s = absorb_digest (difficulty_target hdr) s;
         s = absorb (ucast (hdr_log_slots hdr)) s;
         s = absorb (ucast (hdr_active_slot_count hdr)) s;
         s = absorb (ucast (hdr_alloc_counter hdr)) s
     in sponge_finalize s)"

section \<open>Proof of work\<close>

definition POW_HEADER_FIELD_COUNT :: nat where "POW_HEADER_FIELD_COUNT = 16"
definition POW_NONCE_FIELD_INDEX :: nat where "POW_NONCE_FIELD_INDEX = 10"

definition pow_put_digest :: "digest \<Rightarrow> u128 list" where
  "pow_put_digest d = [from_le (take 16 d), from_le (drop 16 d)]"

definition pow_header_fields :: "block_header \<Rightarrow> u128 list" where
  "pow_header_fields h =
    pow_put_digest (prev_block_hash h) @ pow_put_digest (state_root h) @ pow_put_digest (tx_root h) @
    [ucast (hdr_timestamp h), ucast (hdr_height h)] @
    pow_put_digest (miner_address h) @ [hdr_nonce h] @ pow_put_digest (difficulty_target h) @
    [ucast (hdr_log_slots h), ucast (hdr_active_slot_count h), ucast (hdr_alloc_counter h)]"

fun absorb_field_pairs :: "u128 list \<Rightarrow> sponge \<Rightarrow> sponge" where
  "absorb_field_pairs (a # b # fs) s = absorb_field_pairs fs (absorb_pair a b s)"
| "absorb_field_pairs _ s = s"

definition poseidon_pow_digest_from_fields :: "u128 list \<Rightarrow> digest" where
  "poseidon_pow_digest_from_fields fs =
    finalize_no_pad (absorb_field_pairs fs (sponge_with_iv (capacity_iv TAG_POWHDR)))"

definition poseidon_pow_digest :: "block_header \<Rightarrow> digest" where
  "poseidon_pow_digest h = poseidon_pow_digest_from_fields (pow_header_fields h)"

text \<open>
  The consensus errors (\<open>consensus/mod.rs\<close>).  Messages are kept up to the detail
  value the source formats into them.
\<close>

datatype consensus_error =
    InvalidPoW
  | BadParentHash
  | BadHeight
  | BadDifficultyTarget
  | BadTimestamp
  | TooManyTxs
  | BlockResourceLimitExceeded string nat nat
  | BadTxRoot
  | SlotConflict
  | InvalidPagedSpend string
  | BadEpochAnchor
  | InvalidLogicProof nat
  | MissingCoinbase
  | MultipleCoinbase
  | CoinbaseNotFirst
  | BadCoinbaseOwner
  | InflatedCoinbase
  | BadCoinbaseAnchor
  | MissingDevelopmentPayout
  | UnexpectedDevelopmentPayout
  | BadDevelopmentPayout
  | BadHistoryStepTerminal string
  | BelowMinFee u64 u64
  | BadLogSlotsExpansion
  | BadStateRoot
  | ShapeMismatch string

definition validate_pow :: "block_header \<Rightarrow> consensus_error + digest" where
  "validate_pow h =
    (let d = poseidon_pow_digest h
     in if le256_lt d (difficulty_target h) then Inr d else Inl InvalidPoW)"

section \<open>Wire round trip\<close>

definition wf_header :: "block_header \<Rightarrow> bool" where
  [wf_simps]: "wf_header h \<longleftrightarrow>
    wf_digest (prev_block_hash h) \<and> wf_digest (state_root h) \<and> wf_digest (tx_root h) \<and>
    wf_digest (miner_address h) \<and> wf_digest (difficulty_target h)"

lemma header_decode_iff:
  "header_decode bs = Inr (h, rest) \<longleftrightarrow> wf_header h \<and> bs = header_encode h @ rest"
proof
  assume "header_decode bs = Inr (h, rest)"
  then show "wf_header h \<and> bs = header_encode h @ rest"
    by (auto simp: header_decode_def header_encode_def wf_simps split_off_iff take_le_iff)
next
  assume "wf_header h \<and> bs = header_encode h @ rest"
  then show "header_decode bs = Inr (h, rest)"
    by (simp add: header_decode_def header_encode_def wf_simps)
qed

interpretation header_codec: fixed_codec header_encode header_decode wf_header BLOCK_HEADER_WIRE_SIZE
proof unfold_locales
  fix h assume "wf_header h"
  then show "length (header_encode h) = BLOCK_HEADER_WIRE_SIZE"
    by (simp add: header_encode_def BLOCK_HEADER_WIRE_SIZE_def wf_simps)
qed (auto simp: header_decode_iff)

text \<open>
  C25: the header wire format is canonical.  A byte string parses as a header
  exactly when it is the 212-byte encoding of that well-formed header, so headers
  and 212-byte strings are in bijection and no other length is accepted.
\<close>

theorem header_from_bytes_iff:
  "header_from_bytes bs = Inr h \<longleftrightarrow> wf_header h \<and> header_encode h = bs"
  by (auto simp: header_from_bytes_def header_decode_iff split: if_splits)

lemma header_bytes_total:
  assumes "length bs = 212"
  shows "\<exists>h. header_from_bytes bs = Inr h"
proof -
  obtain h rest where h: "header_decode bs = Inr (h, rest)"
    using assms by (auto simp: header_decode_def take_le_def split_off_def)
  then have "rest = []" using header_codec.dec_consumes[OF h] assms by (simp add: BLOCK_HEADER_WIRE_SIZE_def)
  then show ?thesis using h by (simp add: header_from_bytes_def)
qed

lemma header_nonce_bytes:
  "wf_header h \<Longrightarrow> take 16 (drop BLOCK_HEADER_NONCE_OFFSET (header_encode h)) = to_le 16 (hdr_nonce h)"
  by (simp add: header_encode_def BLOCK_HEADER_NONCE_OFFSET_def wf_simps)

section \<open>The hashed field schedule\<close>

lemma digest_fields_inj:
  assumes "wf_digest a" "wf_digest b" "pow_put_digest a = pow_put_digest b"
  shows "a = b"
proof -
  have "to_le 16 (from_le (take 16 d) :: u128) @ to_le 16 (from_le (drop 16 d) :: u128) = d"
    if "wf_digest d" for d
    using that by (simp add: wf_digest_def)
  then show ?thesis using assms unfolding pow_put_digest_def by (metis list.inject)
qed

lemma pow_header_fields_eq_iff:
  assumes "wf_header h" "wf_header h'"
  shows "pow_header_fields h = pow_header_fields h' \<longleftrightarrow> h = h'"
proof
  assume eq: "pow_header_fields h = pow_header_fields h'"
  have two: "pow_put_digest d = [x, y] \<longleftrightarrow> x = from_le (take 16 d) \<and> y = from_le (drop 16 d)" for d x y
    by (auto simp: pow_put_digest_def)
  have "pow_put_digest (prev_block_hash h) = pow_put_digest (prev_block_hash h')"
    "pow_put_digest (state_root h) = pow_put_digest (state_root h')"
    "pow_put_digest (tx_root h) = pow_put_digest (tx_root h')"
    "pow_put_digest (miner_address h) = pow_put_digest (miner_address h')"
    "pow_put_digest (difficulty_target h) = pow_put_digest (difficulty_target h')"
    using eq by (simp_all add: pow_header_fields_def pow_put_digest_def)
  then have "prev_block_hash h = prev_block_hash h'" "state_root h = state_root h'" "tx_root h = tx_root h'"
    "miner_address h = miner_address h'" "difficulty_target h = difficulty_target h'"
    using assms by (auto simp: wf_header_def intro: digest_fields_inj)
  moreover have "hdr_timestamp h = hdr_timestamp h'" "hdr_height h = hdr_height h'" "hdr_nonce h = hdr_nonce h'"
    "hdr_log_slots h = hdr_log_slots h'" "hdr_active_slot_count h = hdr_active_slot_count h'"
    "hdr_alloc_counter h = hdr_alloc_counter h'"
    using eq by (simp_all add: pow_header_fields_def pow_put_digest_def)
  ultimately show "h = h'" by simp
qed simp

definition field_bytes :: "u128 list \<Rightarrow> bytes" where
  "field_bytes fs = concat (map (to_le 16) fs)"

lemma field_bytes_simps [simp]:
  "field_bytes [] = []" "field_bytes (x # xs) = to_le 16 x @ field_bytes xs"
  "field_bytes (xs @ ys) = field_bytes xs @ field_bytes ys"
  by (simp_all add: field_bytes_def)

lemma absorb_field_bytes:
  assumes "wf_sponge s"
  shows "absorb x s = fold sponge_byte (to_le 16 x) s"
    "absorb_pair x y s = fold sponge_byte (to_le 16 x @ to_le 16 y) s"
  using assms by (simp_all add: absorb_def absorb_pair_def sponge_update_bytewise)

lemma absorb_digest_bytes:
  "wf_sponge s \<Longrightarrow> absorb_digest d s = fold sponge_byte (field_bytes (pow_put_digest d)) s"
  by (simp add: absorb_digest_def digest_fields_def absorb_field_bytes pow_put_digest_def)

lemma hash_block_header_fields:
  "hash_block_header h = sponge_hash TAG_BLOCKHDR (field_bytes (pow_header_fields h))"
  by (simp add: hash_block_header_def sponge_hash_def absorb_digest_bytes absorb_field_bytes
      pow_header_fields_def Let_def)

lemma schedule_without_nonce:
  "take POW_NONCE_FIELD_INDEX (pow_header_fields h) @ drop (Suc POW_NONCE_FIELD_INDEX) (pow_header_fields h) =
    pow_put_digest (prev_block_hash h) @ pow_put_digest (state_root h) @ pow_put_digest (tx_root h) @
    [ucast (hdr_timestamp h), ucast (hdr_height h)] @
    pow_put_digest (miner_address h) @ pow_put_digest (difficulty_target h) @
    [ucast (hdr_log_slots h), ucast (hdr_active_slot_count h), ucast (hdr_alloc_counter h)]"
  by (simp add: pow_header_fields_def pow_put_digest_def POW_NONCE_FIELD_INDEX_def)

lemma semantic_header_id_fields:
  "semantic_header_id h = sponge_hash TAG_SEMHDR
    (field_bytes (take POW_NONCE_FIELD_INDEX (pow_header_fields h) @
                  drop (Suc POW_NONCE_FIELD_INDEX) (pow_header_fields h)))"
  unfolding schedule_without_nonce
  by (simp add: semantic_header_id_def sponge_hash_def absorb_digest_bytes absorb_field_bytes Let_def)

lemma absorb_field_pairs_bytes:
  assumes "wf_sponge s" "even (length fs)"
  shows "absorb_field_pairs fs s = fold sponge_byte (field_bytes fs) s"
  using assms
proof (induction fs s rule: absorb_field_pairs.induct)
  case (1 a b fs s)
  then show ?case by (simp add: absorb_field_bytes)
qed auto

text \<open>
  One field schedule, three identities.  The chain-link id is the padded
  sponge hash of the sixteen-field schedule of the proof-of-work digest, the
  proof-of-work digest the unpadded one under its own tag, and the semantic id
  the padded hash of the schedule with exactly the nonce field left out.
\<close>

lemma header_identities:
  "block_id h = sponge_hash TAG_BLOCKHDR (field_bytes (pow_header_fields h)) \<and>
   semantic_header_id h = sponge_hash TAG_SEMHDR
     (field_bytes (take POW_NONCE_FIELD_INDEX (pow_header_fields h) @
                   drop (Suc POW_NONCE_FIELD_INDEX) (pow_header_fields h))) \<and>
   poseidon_pow_digest h = squeeze_32 (fold sponge_byte (field_bytes (pow_header_fields h))
     (sponge_with_iv (capacity_iv TAG_POWHDR))) \<and>
   length (pow_header_fields h) = POW_HEADER_FIELD_COUNT \<and>
   pow_header_fields h ! POW_NONCE_FIELD_INDEX = hdr_nonce h"
proof -
  have len: "length (pow_header_fields h) = POW_HEADER_FIELD_COUNT"
    "pow_header_fields h ! POW_NONCE_FIELD_INDEX = hdr_nonce h"
    by (simp_all add: pow_header_fields_def pow_put_digest_def POW_HEADER_FIELD_COUNT_def POW_NONCE_FIELD_INDEX_def)
  then have "even (length (pow_header_fields h))" by (simp add: POW_HEADER_FIELD_COUNT_def)
  then have "poseidon_pow_digest h = squeeze_32 (fold sponge_byte (field_bytes (pow_header_fields h))
     (sponge_with_iv (capacity_iv TAG_POWHDR)))"
    by (simp add: poseidon_pow_digest_def poseidon_pow_digest_from_fields_def finalize_no_pad_def
        absorb_field_pairs_bytes)
  then show ?thesis
    using len by (simp only: block_id_def hash_block_header_fields semantic_header_id_fields simp_thms)
qed

text \<open>
  C26: the hashed schedule determines the header.  Two well-formed headers with
  the same field bytes are equal, and two with the same nonce-free bytes differ
  at most in their nonce; so neither identity leaves a consensus field uncommitted.
\<close>

theorem header_schedule_injective:
  assumes "wf_header h" "wf_header h'"
  shows "(field_bytes (pow_header_fields h) = field_bytes (pow_header_fields h') \<longleftrightarrow> h = h') \<and>
    (field_bytes (take POW_NONCE_FIELD_INDEX (pow_header_fields h) @ drop (Suc POW_NONCE_FIELD_INDEX) (pow_header_fields h)) =
     field_bytes (take POW_NONCE_FIELD_INDEX (pow_header_fields h') @ drop (Suc POW_NONCE_FIELD_INDEX) (pow_header_fields h'))
     \<longleftrightarrow> h = h'\<lparr> hdr_nonce := hdr_nonce h \<rparr>)"
proof -
  have fb: "field_bytes xs = field_bytes ys \<longleftrightarrow> xs = ys" if "length xs = length ys" for xs ys
    using that
  proof (induction xs ys rule: list_induct2)
    case (Cons x xs y ys)
    then show ?case by simp
  qed simp
  let ?cut = "\<lambda>h. take POW_NONCE_FIELD_INDEX (pow_header_fields h) @ drop (Suc POW_NONCE_FIELD_INDEX) (pow_header_fields h)"
  let ?g = "h'\<lparr> hdr_nonce := hdr_nonce h \<rparr>"
  have wf: "wf_header ?g" using assms(2) by (simp add: wf_header_def)
  have len: "length (pow_header_fields x) = 16" for x by (simp add: pow_header_fields_def pow_put_digest_def)
  have cut: "?cut h' = ?cut ?g"
    by (simp add: pow_header_fields_def pow_put_digest_def POW_NONCE_FIELD_INDEX_def)
  have "?cut h = ?cut ?g \<longleftrightarrow> pow_header_fields h = pow_header_fields ?g"
    by (simp add: pow_header_fields_def pow_put_digest_def POW_NONCE_FIELD_INDEX_def)
  then have "field_bytes (?cut h) = field_bytes (?cut h') \<longleftrightarrow> h = ?g"
    using fb[of "?cut h" "?cut h'"] len cut pow_header_fields_eq_iff[OF assms(1) wf]
    by (simp only: length_append length_take length_drop)
  moreover have "field_bytes (pow_header_fields h) = field_bytes (pow_header_fields h') \<longleftrightarrow> h = h'"
    using fb[of "pow_header_fields h" "pow_header_fields h'"] len pow_header_fields_eq_iff[OF assms] by simp
  ultimately show ?thesis by blast
qed

definition example_header :: block_header where
  "example_header =
    \<lparr> prev_block_hash = zero_digest, state_root = replicate 32 1, tx_root = replicate 32 2,
      hdr_timestamp = 1787328020, hdr_height = 1, miner_address = replicate 32 3, hdr_nonce = 5,
      difficulty_target = replicate 32 9, hdr_log_slots = 24, hdr_active_slot_count = 1,
      hdr_alloc_counter = 1 \<rparr>"

lemma wf_example_header: "wf_header example_header" "wf_header (example_header\<lparr> hdr_nonce := 6 \<rparr>)"
  by (simp_all add: example_header_def wf_simps zero_digest_def)

theorem header_schedule_injective_witness:
  "field_bytes (pow_header_fields example_header) \<noteq> field_bytes (pow_header_fields (example_header\<lparr> hdr_nonce := 6 \<rparr>))"
  using header_schedule_injective[OF wf_example_header] by (simp add: example_header_def)

end
