(* ===== verification/Difficulty.thy ===== *)
theory Difficulty
  imports Params "HOL-Library.Signed_Division"
begin

text \<open>
  The ASERT difficulty rule (\<open>consensus/difficulty.rs\<close>).  Signed machine
  integers are \<open>int\<close> with the casts, clamps and the truncating division written
  out; the 320-bit product and shifts are those of \<open>U256\<close>.  The result is
  related to the exact rational scaling of the anchor target, clamped to the
  consensus range, and shown monotone in elapsed time.
\<close>

section \<open>The rule\<close>

definition legacy_fractional_factor :: "u16 \<Rightarrow> u64" where
  "legacy_fractional_factor frac =
    (let f = ucast frac :: u128; A = 195766423245049; B = 971821376; C = 5127
     in 65536 + ucast (drop_bit 48
          (A * f + B * f * f div 65536 + C * (f div 65536) * (f div 65536) * f + push_bit 47 1)))"

definition bch_fractional_factor :: "u16 \<Rightarrow> u64" where
  "bch_fractional_factor frac =
    (let f = ucast frac :: u128; A = 195766423245049; B = 971821376; C = 5127
     in 65536 + ucast (drop_bit 48 (A * f + B * f * f + C * f * f * f + push_bit 47 1)))"

definition fractional_factor_at_height :: "u16 \<Rightarrow> u64 \<Rightarrow> u64 option \<Rightarrow> u64" where
  "fractional_factor_at_height frac height activation_height =
    (if v1_1_active_with height activation_height then bch_fractional_factor frac
     else legacy_fractional_factor frac)"

definition clamp :: "u256 \<Rightarrow> u64 \<Rightarrow> u256" where
  "clamp result overflow_word =
    (if overflow_word \<noteq> 0 \<or> le256_lt MAX_TARGET result then MAX_TARGET
     else if result = replicate 32 0 \<or> le256_lt result MIN_TARGET then MIN_TARGET
     else result)"

text \<open>
  \<open>exponent\<close> is the \<open>i64\<close> in 16-bit fixed point; the arithmetic right shift is
  the floor division.  The genesis floor is always active outside the unit tests.
\<close>

definition target_from_exponent :: "u256 \<Rightarrow> u64 \<Rightarrow> u64 option \<Rightarrow> int \<Rightarrow> u256" where
  "target_from_exponent anchor_target height activation_height exponent =
    (let shifts = exponent div 2 ^ 16;
         frac = (of_int (exponent - shifts * 65536) :: u16);
         factor = fractional_factor_at_height frac height activation_height;
         ref_limbs = bytes_to_limbs anchor_target;
         wide = mul_limbs_u64 ref_limbs factor;
         net = shifts - 16
     in if net \<ge> 46 then GENESIS_TARGET
        else if net \<le> - 320 then MIN_TARGET
        else
          let wide = shift_wide wide net
          in if net > 0 \<and> wide = replicate 5 0 then GENESIS_TARGET
             else
               let result = limbs_to_bytes [wide ! 0, wide ! 1, wide ! 2, wide ! 3];
                   clamped = clamp result (wide ! 4)
               in if le256_lt GENESIS_TARGET clamped then GENESIS_TARGET else clamped)"

definition I64_MAX :: int where "I64_MAX = 2 ^ 63 - 1"
definition I64_MIN :: int where "I64_MIN = - (2 ^ 63)"
definition I128_MAX :: int where "I128_MAX = 2 ^ 127 - 1"
definition I128_MIN :: int where "I128_MIN = - (2 ^ 127)"

definition clamp_i64 :: "int \<Rightarrow> int" where
  "clamp_i64 x = max I64_MIN (min I64_MAX x)"

definition saturate_i128 :: "int \<Rightarrow> int" where
  "saturate_i128 x = max I128_MIN (min I128_MAX x)"

definition next_target_with_activation ::
  "u64 \<Rightarrow> u64 \<Rightarrow> u256 \<Rightarrow> u64 \<Rightarrow> u64 \<Rightarrow> u64 option \<Rightarrow> u256" where
  "next_target_with_activation anchor_height anchor_timestamp anchor_target height timestamp activation_height =
    (let ideal = sint (saturating_mul (saturating_sub height anchor_height) BLOCK_TIME);
         actual = min (uint (saturating_sub timestamp anchor_timestamp)) I64_MAX;
         halflife = uint HALFLIFE;
         raw_exp = (actual - ideal) * 65536 sdiv halflife;
         exponent = clamp_i64 raw_exp
     in target_from_exponent anchor_target height activation_height exponent)"

text \<open>
  From the version-2 height on, the parent's height and timestamp select the
  target.  \<open>height - 1\<close> cannot wrap because the activation height is positive.
\<close>

definition next_target_with_schedule ::
  "u64 \<Rightarrow> u64 \<Rightarrow> u256 \<Rightarrow> u64 \<Rightarrow> u64 \<Rightarrow> u64 \<Rightarrow> fork_schedule \<Rightarrow> u256" where
  "next_target_with_schedule anchor_height anchor_timestamp anchor_target height parent_timestamp timestamp schedule =
    (case sched_v2 schedule of
       Some at \<Rightarrow>
         if height \<ge> v2_height at then
           let parent_height = height - 1;
               actual = min (uint (saturating_sub parent_timestamp anchor_timestamp)) I64_MAX;
               ideal = min (uint (ideal_elapsed schedule anchor_height parent_height)) I128_MAX;
               halflife = uint EPOCH_LENGTH * uint (v2_block_time at);
               exponent = saturate_i128 (saturate_i128 (actual - ideal) * 65536) sdiv halflife
           in target_from_exponent anchor_target height (sched_v1_1 schedule) (clamp_i64 exponent)
         else next_target_with_activation anchor_height anchor_timestamp anchor_target height timestamp
                (sched_v1_1 schedule)
     | None \<Rightarrow> next_target_with_activation anchor_height anchor_timestamp anchor_target height timestamp
                (sched_v1_1 schedule))"

definition next_target :: "u64 \<Rightarrow> u64 \<Rightarrow> u256 \<Rightarrow> u64 \<Rightarrow> u64 \<Rightarrow> u64 \<Rightarrow> u256" where
  "next_target anchor_height anchor_timestamp anchor_target height parent_timestamp timestamp =
    next_target_with_schedule anchor_height anchor_timestamp anchor_target height parent_timestamp timestamp
      ACTIVE_SCHEDULE"

section \<open>The fractional factors\<close>

lemma target_constants:
  "wf_digest GENESIS_TARGET" "wf_digest MIN_TARGET" "wf_digest MAX_TARGET"
  "le_value GENESIS_TARGET = 2 ^ 238" "le_value MIN_TARGET = 1" "le_value MAX_TARGET = 2 ^ 256 - 1"
proof -
  show "wf_digest GENESIS_TARGET" "wf_digest MIN_TARGET" "wf_digest MAX_TARGET"
    by (simp_all add: GENESIS_TARGET_def MIN_TARGET_def MAX_TARGET_def wf_digest_def)
  show "le_value GENESIS_TARGET = 2 ^ 238" "le_value MIN_TARGET = 1"
    using le_value_update[of 29 "replicate 32 0 :: u8 list" "0x40"]
      le_value_update[of 0 "replicate 32 0 :: u8 list" 1]
    by (simp_all add: GENESIS_TARGET_def MIN_TARGET_def)
  show "le_value MAX_TARGET = 2 ^ 256 - 1" using le_value_max[of 32] by (simp add: MAX_TARGET_def)
qed

text \<open>Neither polynomial wraps; the values over the naturals.\<close>

definition bch_poly :: "nat \<Rightarrow> nat" where
  "bch_poly f = 65536 + (195766423245049 * f + 971821376 * f * f + 5127 * f * f * f + 2 ^ 47) div 2 ^ 48"

definition legacy_poly :: "nat \<Rightarrow> nat" where
  "legacy_poly f = 65536 + (195766423245049 * f + 971821376 * f * f div 65536 + 2 ^ 47) div 2 ^ 48"

lemma u128_of_nat: "n < 2 ^ 128 \<Longrightarrow> unat (of_nat n :: u128) = n"
  by (simp add: unsigned_of_nat take_bit_nat_eq_self)

lemma factor_shift:
  assumes "unat (x :: u128) < 2 ^ 66"
  shows "unat (65536 + ucast (drop_bit 48 x) :: u64) = 65536 + unat x div 2 ^ 48"
proof -
  have small: "unat x div 2 ^ 48 < 2 ^ 18" using assms by (simp add: div_less_iff_less_mult)
  then have "unat (ucast (drop_bit 48 x) :: u64) = unat x div 2 ^ 48"
    unfolding unat_ucast_mod unat_drop_bit by simp
  then show ?thesis using small by (simp add: unat_word_ariths)
qed

lemma frac_powers:
  fixes f :: nat
  assumes "f < 65536"
  shows "f * f \<le> 65535 * 65535" "f * f * f \<le> 65535 * 65535 * 65535"
  using assms by (intro mult_le_mono; simp)+

lemma bch_factor_value: "unat (bch_fractional_factor frac) = bch_poly (unat frac)"
proof -
  let ?f = "unat frac"
  let ?n = "195766423245049 * ?f + 971821376 * ?f * ?f + 5127 * ?f * ?f * ?f + 2 ^ 47"
  have f: "?f < 65536" using unat_lt_pow[of frac] by simp
  have n: "?n < 2 ^ 66" using frac_powers[OF f] f by simp
  define x :: u128 where "x = 195766423245049 * ucast frac + 971821376 * ucast frac * ucast frac +
      5127 * ucast frac * ucast frac * ucast frac + push_bit 47 1"
  have "x = of_nat ?n" by (simp add: x_def)
  moreover have "unat (of_nat ?n :: u128) = ?n" by (rule u128_of_nat) (use n in simp)
  ultimately have x: "unat x = ?n" by (simp only:)
  have "bch_fractional_factor frac = 65536 + ucast (drop_bit 48 x)"
    unfolding bch_fractional_factor_def x_def Let_def ..
  then show ?thesis
    unfolding bch_poly_def using factor_shift[of x] x n by (simp only:)
qed

lemma legacy_factor_value: "unat (legacy_fractional_factor frac) = legacy_poly (unat frac)"
proof -
  let ?f = "unat frac"
  let ?n = "195766423245049 * ?f + 971821376 * ?f * ?f div 65536 + 2 ^ 47"
  have f: "?f < 65536" using unat_lt_pow[of frac] by simp
  have n: "?n < 2 ^ 66" using frac_powers[OF f] f by simp
  define x :: u128 where "x = 195766423245049 * ucast frac + 971821376 * ucast frac * ucast frac div 65536 +
      5127 * (ucast frac div 65536) * (ucast frac div 65536) * ucast frac + push_bit 47 1"
  have hi: "(ucast frac :: u128) div 65536 = 0"
    using f by (simp add: word_unat_eq_iff unat_div)
  have "unat (971821376 * ucast frac * ucast frac :: u128) = 971821376 * ?f * ?f"
    using frac_powers[OF f] f u128_of_nat[of "971821376 * ?f * ?f"] by simp
  then have "(971821376 * ucast frac * ucast frac div 65536 :: u128) = of_nat (971821376 * ?f * ?f div 65536)"
    using frac_powers[OF f] by (simp add: word_unat_eq_iff unat_div u128_of_nat)
  then have "x = of_nat ?n" unfolding x_def hi by simp
  moreover have "unat (of_nat ?n :: u128) = ?n" by (rule u128_of_nat) (use n in simp)
  ultimately have x: "unat x = ?n" by (simp only:)
  have "legacy_fractional_factor frac = 65536 + ucast (drop_bit 48 x)"
    unfolding legacy_fractional_factor_def x_def Let_def ..
  then show ?thesis
    unfolding legacy_poly_def using factor_shift[of x] x n by (simp only:)
qed

lemma bch_poly_mono: "f \<le> g \<Longrightarrow> bch_poly f \<le> bch_poly g"
  unfolding bch_poly_def by (intro add_mono div_le_mono mult_le_mono) simp_all

lemma legacy_poly_mono: "f \<le> g \<Longrightarrow> legacy_poly f \<le> legacy_poly g"
  unfolding legacy_poly_def by (intro add_mono div_le_mono mult_le_mono) simp_all

lemma factor_bounds:
  "65536 \<le> unat (fractional_factor_at_height frac h a)"
  "unat (fractional_factor_at_height frac h a) \<le> 131072"
proof -
  have f: "unat frac \<le> 65535" using unat_lt_pow[of frac] by simp
  have "bch_poly 65535 \<le> 131072" "legacy_poly 65535 \<le> 131072"
    by (simp_all add: bch_poly_def legacy_poly_def)
  then have "bch_poly (unat frac) \<le> 131072" "legacy_poly (unat frac) \<le> 131072"
    using bch_poly_mono[OF f] legacy_poly_mono[OF f] by simp_all
  then show "unat (fractional_factor_at_height frac h a) \<le> 131072"
    by (simp add: fractional_factor_at_height_def bch_factor_value legacy_factor_value)
  show "65536 \<le> unat (fractional_factor_at_height frac h a)"
    by (simp add: fractional_factor_at_height_def bch_factor_value legacy_factor_value bch_poly_def legacy_poly_def)
qed

lemma factor_mono:
  "frac \<le> frac' \<Longrightarrow>
    unat (fractional_factor_at_height frac h a) \<le> unat (fractional_factor_at_height frac' h a)"
  by (simp add: fractional_factor_at_height_def bch_factor_value legacy_factor_value bch_poly_mono
      legacy_poly_mono word_le_nat_alt)

section \<open>The target as a clamped scaling\<close>

definition exponent_factor :: "u64 \<Rightarrow> u64 option \<Rightarrow> int \<Rightarrow> nat" where
  "exponent_factor height activation_height exponent =
    unat (fractional_factor_at_height (of_int (exponent - exponent div 2 ^ 16 * 65536)) height activation_height)"

text \<open>\<open>T * factor * 2 ^ (shifts - 16)\<close>, rounded down.\<close>

definition scaled_target :: "nat \<Rightarrow> nat \<Rightarrow> int \<Rightarrow> nat" where
  "scaled_target T factor net =
    (if net \<ge> 0 then T * factor * 2 ^ nat net else T * factor div 2 ^ nat (- net))"

lemma clamp_value:
  assumes "length w = 5"
  shows "let c = clamp (limbs_to_bytes [w ! 0, w ! 1, w ! 2, w ! 3]) (w ! 4)
    in wf_digest c \<and> le_value c = max 1 (min (2 ^ 256 - 1) (le_value w))"
proof -
  let ?low = "[w ! 0, w ! 1, w ! 2, w ! 3]"
  let ?r = "limbs_to_bytes ?low"
  obtain a b c d e where w: "w = [a, b, c, d, e]"
    using assms by (auto simp: numeral_eq_Suc length_Suc_conv)
  have r: "wf_digest ?r" "le_value ?r = le_value ?low" using limbs_to_bytes_value[of ?low] by simp_all
  have split: "le_value w = le_value ?low + 2 ^ 256 * unat (w ! 4)" by (simp add: w)
  have low: "le_value ?low < 2 ^ 256" using le_value_bound[of ?low] by simp
  have zero: "?r = replicate 32 0 \<longleftrightarrow> le_value ?r = 0"
    using le_value_inj[of ?r "replicate 32 0"] r(1) by (simp add: wf_digest_def)
  show ?thesis
  proof (cases "w ! 4 = 0")
    case True
    have "\<not> le256_lt MAX_TARGET ?r"
      using le256_lt_iff[of MAX_TARGET ?r] r low target_constants by simp
    moreover have "le256_lt ?r MIN_TARGET \<longleftrightarrow> le_value ?low < 1"
      using le256_lt_iff[of ?r MIN_TARGET] r target_constants by simp
    ultimately show ?thesis
      using True split zero r low target_constants by (auto simp: clamp_def Let_def)
  next
    case False
    then have "1 \<le> unat (w ! 4)" using unat_gt_0[of "w ! 4"] by linarith
    then have "2 ^ 256 * 1 \<le> 2 ^ 256 * unat (w ! 4)" by (rule mult_le_mono2)
    then have "2 ^ 256 \<le> le_value w" unfolding split by linarith
    then show ?thesis using False target_constants by (simp add: clamp_def Let_def)
  qed
qed

lemma shift_wide_value:
  assumes "wf_digest t" "- 320 < net" "net < 46" "unat factor \<le> 131072"
  shows "length (shift_wide (mul_limbs_u64 (bytes_to_limbs t) factor) net) = 5"
    "le_value (shift_wide (mul_limbs_u64 (bytes_to_limbs t) factor) net) =
      scaled_target (le_value t) (unat factor) net"
proof -
  let ?w = "mul_limbs_u64 (bytes_to_limbs t) factor"
  have w: "length ?w = 5" "le_value ?w = le_value t * unat factor"
    using mul_limbs_value bytes_to_limbs_value[OF assms(1)] by simp_all
  have T: "le_value t < 2 ^ 256" using le_value_bound[of t] assms(1) by (simp add: wf_digest_def)
  show "length (shift_wide ?w net) = 5"
    using shl320_value(1)[OF w(1)] shr320_value(1)[OF w(1)] by (simp add: shift_wide_def)
  show "le_value (shift_wide ?w net) = scaled_target (le_value t) (unat factor) net"
  proof (cases "net \<ge> 0")
    case True
    have n: "nat net \<le> 45" using assms(3) by simp
    have "le_value t * unat factor \<le> 2 ^ 256 * 2 ^ 17"
      using T assms(4) by (intro mult_le_mono) simp_all
    then have "le_value t * unat factor * 2 ^ nat net \<le> 2 ^ 256 * 2 ^ 17 * 2 ^ 45"
      by (rule mult_le_mono) (rule power_increasing[OF n one_le_numeral])
    then have "le_value t * unat factor * 2 ^ nat net < 2 ^ 320" by simp
    then show ?thesis
      using True w shl320_value(2)[OF w(1), of "nat net"] assms(3)
      by (simp add: shift_wide_def scaled_target_def)
  next
    case False
    then show ?thesis
      using w shr320_value(2)[OF w(1), of "nat (- net)"] assms(2)
      by (simp add: shift_wide_def scaled_target_def)
  qed
qed

lemma scaled_target_tiny:
  assumes "T < 2 ^ 256" "factor \<le> 131072" "net \<le> - 320"
  shows "scaled_target T factor net = 0"
proof -
  have "T * factor \<le> 2 ^ 256 * 2 ^ 17" using assms(1,2) by (intro mult_le_mono) simp_all
  also have "\<dots> < 2 ^ 320" by simp
  also have "\<dots> \<le> 2 ^ nat (- net)" using assms(3) by (intro power_increasing) simp_all
  finally show ?thesis using assms(3) by (simp add: scaled_target_def)
qed

lemma target_from_exponent_cases:
  fixes e :: int
  assumes "wf_digest t"
  defines "net \<equiv> (e :: int) div 2 ^ 16 - 16"
  shows "wf_digest (target_from_exponent t h a e)"
    and "le_value (target_from_exponent t h a e) =
      (if 46 \<le> net \<or> (0 < net \<and> le_value t = 0) then 2 ^ 238
       else max 1 (min (2 ^ 238) (scaled_target (le_value t) (exponent_factor h a e) net)))"
proof -
  define factor where "factor = fractional_factor_at_height (of_int (e - e div 2 ^ 16 * 65536)) h a"
  define wide where "wide = shift_wide (mul_limbs_u64 (bytes_to_limbs t) factor) net"
  define c where "c = clamp (limbs_to_bytes [wide ! 0, wide ! 1, wide ! 2, wide ! 3]) (wide ! 4)"
  have ef: "exponent_factor h a e = unat factor" by (simp add: exponent_factor_def factor_def)
  have fb: "unat factor \<le> 131072" "65536 \<le> unat factor" by (simp_all add: factor_def factor_bounds)
  have T: "le_value t < 2 ^ 256" using le_value_bound[of t] assms(1) by (simp add: wf_digest_def)
  have def: "target_from_exponent t h a e =
      (if net \<ge> 46 then GENESIS_TARGET else if net \<le> - 320 then MIN_TARGET
       else if net > 0 \<and> wide = replicate 5 0 then GENESIS_TARGET
       else if le256_lt GENESIS_TARGET c then GENESIS_TARGET else c)"
    unfolding target_from_exponent_def net_def wide_def factor_def c_def Let_def ..
  have "wf_digest (target_from_exponent t h a e) \<and> le_value (target_from_exponent t h a e) =
      (if 46 \<le> net \<or> (0 < net \<and> le_value t = 0) then 2 ^ 238
       else max 1 (min (2 ^ 238) (scaled_target (le_value t) (unat factor) net)))"
  proof (cases "net \<ge> 46 \<or> net \<le> - 320")
    case True
    then show ?thesis
      using def target_constants scaled_target_tiny[OF T fb(1), of net] by auto
  next
    case False
    have w: "length wide = 5" "le_value wide = scaled_target (le_value t) (unat factor) net"
      using shift_wide_value[OF assms(1) _ _ fb(1)] False by (simp_all add: wide_def)
    have zero: "wide = replicate 5 0 \<longleftrightarrow> le_value wide = 0"
      using le_value_inj[of wide "replicate 5 0"] w(1) by simp
    have pos: "0 < net \<Longrightarrow> le_value wide = 0 \<longleftrightarrow> le_value t = 0"
      using w(2) fb(2) by (simp add: scaled_target_def)
    have c: "wf_digest c" "le_value c = max 1 (min (2 ^ 256 - 1) (le_value wide))"
      using clamp_value[OF w(1)] by (simp_all add: c_def Let_def)
    have "le256_lt GENESIS_TARGET c \<longleftrightarrow> 2 ^ 238 < le_value c"
      using le256_lt_iff[OF target_constants(1) c(1)] target_constants by simp
    then show ?thesis
      using def False zero pos c w(2) target_constants by (auto simp: max_def min_def)
  qed
  then show "wf_digest (target_from_exponent t h a e)"
    "le_value (target_from_exponent t h a e) =
      (if 46 \<le> net \<or> (0 < net \<and> le_value t = 0) then 2 ^ 238
       else max 1 (min (2 ^ 238) (scaled_target (le_value t) (exponent_factor h a e) net)))"
    by (simp_all add: ef)
qed

section \<open>Monotonicity\<close>

lemma scaled_target_common:
  assumes "0 \<le> net + int K"
  shows "scaled_target T factor net = T * factor * 2 ^ nat (net + int K) div 2 ^ K"
proof (cases "net \<ge> 0")
  case True
  have "nat (net + int K) = nat net + K" using True by simp
  then show ?thesis using True by (simp add: scaled_target_def power_add)
next
  case False
  define m where "m = nat (- net)"
  have mK: "m \<le> K" "nat (net + int K) = K - m" using False assms by (auto simp: m_def)
  have pow: "(2 :: nat) ^ K = 2 ^ m * 2 ^ (K - m)" using mK(1) by (simp add: power_add[symmetric])
  have "T * factor * 2 ^ nat (net + int K) div 2 ^ K = T * factor div 2 ^ m"
    unfolding mK(2) pow by (rule div_mult_mult2) simp
  then show ?thesis using False by (simp only: scaled_target_def m_def if_False)
qed

lemma scaled_target_mono:
  assumes "net < net' \<and> factor \<le> 2 * factor' \<or> net = net' \<and> factor \<le> factor'"
  shows "scaled_target T factor net \<le> scaled_target T factor' net'"
proof -
  define K where "K = nat (- net)"
  have nn: "0 \<le> net + int K" "0 \<le> net' + int K" using assms by (auto simp: K_def)
  have "factor * 2 ^ nat (net + int K) \<le> factor' * 2 ^ nat (net' + int K)"
    using assms
  proof
    assume a: "net < net' \<and> factor \<le> 2 * factor'"
    then have "Suc (nat (net + int K)) \<le> nat (net' + int K)" using nn by linarith
    then have "(2 :: nat) ^ Suc (nat (net + int K)) \<le> 2 ^ nat (net' + int K)"
      by (rule power_increasing) simp
    then have "factor' * 2 ^ Suc (nat (net + int K)) \<le> factor' * 2 ^ nat (net' + int K)"
      by (rule mult_le_mono2)
    moreover have "factor * 2 ^ nat (net + int K) \<le> 2 * factor' * 2 ^ nat (net + int K)"
      using a by (intro mult_le_mono1) simp
    ultimately show ?thesis unfolding power_Suc by linarith
  qed simp
  then have "T * (factor * 2 ^ nat (net + int K)) \<le> T * (factor' * 2 ^ nat (net' + int K))"
    by (rule mult_le_mono2)
  then show ?thesis
    unfolding scaled_target_common[OF nn(1)] scaled_target_common[OF nn(2)] mult.assoc
    by (rule div_le_mono)
qed

lemma scaled_exponent_mono:
  assumes "e \<le> e'"
  shows "scaled_target T (exponent_factor h a e) (e div 2 ^ 16 - 16) \<le>
    scaled_target T (exponent_factor h a e') (e' div 2 ^ 16 - 16)"
proof (cases "e div 2 ^ 16 = e' div 2 ^ 16")
  case True
  let ?x = "e - e div 2 ^ 16 * 65536" and ?y = "e' - e div 2 ^ 16 * 65536"
  have "0 \<le> ?x" "?x < 65536" "?x = e mod 65536" "?y = e' mod 65536"
    using minus_div_mult_eq_mod[of e 65536] minus_div_mult_eq_mod[of e' 65536] True by simp_all
  then have "(of_int ?x :: u16) \<le> of_int ?y"
    using assms by (simp add: word_le_def uint_word_of_int)
  then have "exponent_factor h a e \<le> exponent_factor h a e'"
    unfolding exponent_factor_def True[symmetric] by (rule factor_mono)
  then show ?thesis using True by (intro scaled_target_mono) simp
next
  case False
  have "e div 2 ^ 16 \<le> e' div 2 ^ 16" using assms by (rule zdiv_mono1) simp
  moreover have "exponent_factor h a e \<le> 2 * exponent_factor h a e'"
    using factor_bounds(2)[of "of_int (e - e div 2 ^ 16 * 65536)" h a]
      factor_bounds(1)[of "of_int (e' - e' div 2 ^ 16 * 65536)" h a]
    unfolding exponent_factor_def by linarith
  ultimately show ?thesis using False by (intro scaled_target_mono) simp
qed

lemma target_from_exponent_mono:
  assumes "wf_digest t" "0 < le_value t" "e \<le> e'"
  shows "le_value (target_from_exponent t h a e) \<le> le_value (target_from_exponent t h a e')"
proof -
  let ?v = "\<lambda>e. max 1 (min (2 ^ 238) (scaled_target (le_value t) (exponent_factor h a e) (e div 2 ^ 16 - 16)))"
  have v: "?v e \<le> ?v e'"
    by (intro max.mono min.mono order_refl scaled_exponent_mono[OF assms(3)])
  have "?v e \<le> 2 ^ 238" by (simp only: max.bounded_iff min.cobounded1 one_le_power one_le_numeral simp_thms)
  moreover have "e div 2 ^ 16 \<le> e' div 2 ^ 16" using assms(3) by (rule zdiv_mono1) simp
  ultimately show ?thesis
    unfolding target_from_exponent_cases(2)[OF assms(1)] using v assms(2) by (auto simp only: split: if_splits)
qed

lemma sdiv_mono: "0 < d \<Longrightarrow> a \<le> b \<Longrightarrow> a sdiv d \<le> b sdiv (d :: int)"
proof -
  assume d: "0 < d" and ab: "a \<le> b"
  have pos: "x sdiv d = x div d" if "0 \<le> x" for x
    using d that by (simp add: signed_divide_int_def sgn_if)
  have neg: "x sdiv d = - ((- x) div d)" if "x < 0" for x
    using d that by (simp add: signed_divide_int_def sgn_if)
  show ?thesis
  proof (cases "0 \<le> a")
    case True
    then show ?thesis using pos ab d by (simp add: zdiv_mono1)
  next
    case a: False
    show ?thesis
    proof (cases "0 \<le> b")
      case True
      have "0 \<le> (- a) div d" "0 \<le> b div d" using a True d by (simp_all add: pos_imp_zdiv_nonneg_iff)
      then show ?thesis using a True pos neg by simp
    next
      case False
      then show ?thesis using a neg ab d by (simp add: zdiv_mono1)
    qed
  qed
qed

lemma saturating_sub_mono: "x \<le> y \<Longrightarrow> saturating_sub x z \<le> saturating_sub y (z :: 'a::len word)"
  by (simp add: word_le_nat_alt unat_saturating_sub diff_le_mono)

lemma clamp_mono:
  "x \<le> y \<Longrightarrow> clamp_i64 x \<le> clamp_i64 y" "x \<le> y \<Longrightarrow> saturate_i128 x \<le> saturate_i128 y"
  by (auto simp: clamp_i64_def saturate_i128_def)

lemma elapsed_mono:
  "x \<le> y \<Longrightarrow> min (uint (saturating_sub x z)) I64_MAX \<le> min (uint (saturating_sub y (z :: u64))) I64_MAX"
  using saturating_sub_mono[of x y z] by (intro min.mono) (simp_all add: word_le_def)

text \<open>
  C12: the ASERT rule is monotone in time.  For a fixed anchor with a non-zero
  target and a fixed height, later block timestamps (before version 2) and later
  parent timestamps (from version 2 on) never give a harder target; in
  particular the rounding of the fractional polynomial and its jump at whole
  half-lives never invert the direction of adjustment.
\<close>

theorem next_target_monotone:
  assumes "wf_digest t" "0 < le_value t" "parent_ts \<le> parent_ts'" "ts \<le> ts'"
  shows "le_value (next_target ah ats t h parent_ts ts) \<le> le_value (next_target ah ats t h parent_ts' ts')"
proof (cases "h \<ge> MAINNET_V2_ACTIVATION_HEIGHT")
  case True
  have "0 < uint EPOCH_LENGTH * uint V2_BLOCK_TIME" by (simp add: EPOCH_LENGTH_def V2_BLOCK_TIME_def)
  then show ?thesis
    using True assms elapsed_mono[OF assms(3), of ats]
    unfolding next_target_def next_target_with_schedule_def
    by (auto simp: ACTIVE_SCHEDULE_def V2_ACTIVATION_HEIGHT_def MAINNET_V2_ACTIVATION_HEIGHT_def
        V2_BLOCK_TIME_def v2_activation_new_def Let_def
        intro!: target_from_exponent_mono clamp_mono sdiv_mono mult_right_mono)
next
  case False
  have "0 < uint HALFLIFE" by (simp add: HALFLIFE_def EPOCH_LENGTH_def BLOCK_TIME_def)
  then show ?thesis
    using False assms elapsed_mono[OF assms(4), of ats]
    unfolding next_target_def next_target_with_schedule_def next_target_with_activation_def
    by (auto simp: ACTIVE_SCHEDULE_def V2_ACTIVATION_HEIGHT_def MAINNET_V2_ACTIVATION_HEIGHT_def
        V2_BLOCK_TIME_def v2_activation_new_def Let_def
        intro!: target_from_exponent_mono clamp_mono sdiv_mono mult_right_mono)
qed

theorem next_target_monotone_witness:
  "le_value (next_target 0 0 GENESIS_TARGET 300000 1000 1030) \<le>
   le_value (next_target 0 0 GENESIS_TARGET 300000 2000 2030)"
  by (rule next_target_monotone) (simp_all add: target_constants)

section \<open>Range and exact value\<close>

lemma target_from_exponent_range:
  "wf_digest (target_from_exponent t h a e) \<and>
    1 \<le> le_value (target_from_exponent t h a e) \<and> le_value (target_from_exponent t h a e) \<le> 2 ^ 238"
proof -
  define net where "net = e div 2 ^ 16 - 16"
  define factor where "factor = fractional_factor_at_height (of_int (e - e div 2 ^ 16 * 65536)) h a"
  define wide where "wide = shift_wide (mul_limbs_u64 (bytes_to_limbs t) factor) net"
  define c where "c = clamp (limbs_to_bytes [wide ! 0, wide ! 1, wide ! 2, wide ! 3]) (wide ! 4)"
  have def: "target_from_exponent t h a e =
      (if net \<ge> 46 then GENESIS_TARGET else if net \<le> - 320 then MIN_TARGET
       else if net > 0 \<and> wide = replicate 5 0 then GENESIS_TARGET
       else if le256_lt GENESIS_TARGET c then GENESIS_TARGET else c)"
    unfolding target_from_exponent_def net_def wide_def factor_def c_def Let_def ..
  have "length (mul_limbs_u64 (bytes_to_limbs t) factor) = 5"
    by (simp add: mul_limbs_value bytes_to_limbs_def)
  then have "length wide = 5"
    unfolding wide_def shift_wide_def by (auto intro: shl320_value(1) shr320_value(1))
  then have c: "wf_digest c" "1 \<le> le_value c"
    using clamp_value[of wide] by (simp_all add: c_def Let_def)
  then have "le256_lt GENESIS_TARGET c \<longleftrightarrow> 2 ^ 238 < le_value c"
    using le256_lt_iff[OF target_constants(1) c(1)] target_constants by simp
  then show ?thesis using def c target_constants by simp
qed

lemma next_target_from_exponent:
  "\<exists>a e. next_target ah ats t h parent_ts ts = target_from_exponent t h a e"
  unfolding next_target_def next_target_with_schedule_def next_target_with_activation_def Let_def
  by (auto split: option.split)

text \<open>
  Every difficulty target computed by the node is a valid one.  Whatever the
  anchor, heights and timestamps, \<open>next_target\<close> returns a 32-byte value between
  \<open>MIN_TARGET\<close> (one) and the genesis floor \<open>2 ^ 238\<close>; a target is never zero and
  never easier than genesis.
\<close>

lemma next_target_range:
  "wf_digest (next_target ah ats t h parent_ts ts) \<and>
    le_value MIN_TARGET \<le> le_value (next_target ah ats t h parent_ts ts) \<and>
    le_value (next_target ah ats t h parent_ts ts) \<le> le_value GENESIS_TARGET"
proof -
  obtain a e where "next_target ah ats t h parent_ts ts = target_from_exponent t h a e"
    using next_target_from_exponent by blast
  then show ?thesis unfolding target_constants using target_from_exponent_range[of t h a e] by (simp only:)
qed

text \<open>
  C15: the limb arithmetic of the ASERT rule computes the exact scaling.  For a
  non-zero anchor target and an exponent of fewer than 62 half-lives, the result
  is the anchor times the fractional factor times \<open>2 ^ (shifts - 16)\<close>, rounded
  down and clamped to the consensus range: the 320-bit product never overflows
  and no bit is lost by the shifts.
\<close>

theorem target_from_exponent_exact:
  assumes "wf_digest t" "0 < le_value t" "e < 62 * 65536"
  shows "le_value (target_from_exponent t h a e) =
    max 1 (min (2 ^ 238) (scaled_target (le_value t) (exponent_factor h a e) (e div 2 ^ 16 - 16)))"
proof -
  have "e div 2 ^ 16 - 16 < 46" using assms(3) by simp
  then show ?thesis using assms by (simp only: target_from_exponent_cases(2)) simp
qed

lemma factor_at_zero: "exponent_factor h a (k * 65536) = 65536"
  by (simp add: exponent_factor_def fractional_factor_at_height_def bch_factor_value legacy_factor_value
      bch_poly_def legacy_poly_def)

theorem target_from_exponent_exact_witness:
  "le_value (target_from_exponent GENESIS_TARGET 300000 (Some 95125) (- 65536)) = 2 ^ 237"
  using target_from_exponent_exact[of GENESIS_TARGET "- 65536" 300000 "Some 95125"]
    factor_at_zero[of 300000 "Some 95125" "- 1"] target_constants
  by (simp add: scaled_target_def)

text \<open>
  The short circuit at a net shift of 46 is not the saturation its comment
  describes: for a small anchor target nothing overflows there, and the rule
  jumps from the exact scaling \<open>2 ^ 62\<close> to the genesis floor.
\<close>

lemma asert_short_circuit_jump:
  "le_value (target_from_exponent MIN_TARGET h a (62 * 65536)) = 2 ^ 238 \<and>
    scaled_target (le_value MIN_TARGET) (exponent_factor h a (62 * 65536)) 46 = 2 ^ 62"
  using factor_at_zero[of h a 62] target_constants
  by (simp add: target_from_exponent_cases(2) scaled_target_def)

section \<open>Chain work\<close>

text \<open>
  C16: the work credited for a block is the expected number of hash trials of its
  target, \<open>ceil(2 ^ 256 / target)\<close> saturated at \<open>2 ^ 256 - 1\<close>: the bitwise long
  division and the saturating increment on byte arrays compute
  \<open>(2 ^ 256 - 1) div target + 1\<close>, and a zero target earns nothing.
\<close>

theorem block_work_exact:
  assumes "wf_digest t"
  shows "le_value (block_work t) =
    (if le_value t = 0 then 0 else min ((2 ^ 256 - 1) div le_value t + 1) (2 ^ 256 - 1))"
  by (rule block_work_value(2)[OF assms])

theorem block_work_exact_witness:
  "wf_digest GENESIS_TARGET \<and> le_value (block_work GENESIS_TARGET) = 2 ^ 18"
  using block_work_exact[of GENESIS_TARGET] target_constants by simp

end
