(* ===== verification/HeaderRules.thy ===== *)
theory HeaderRules
  imports Header Difficulty
begin

text \<open>
  The header rules: timestamps (\<open>consensus/timestamps.rs\<close>), state-depth expansion
  (\<open>slot_expansion.rs\<close>), transaction epochs (\<open>epoch_anchor.rs\<close>), header validation and
  the ASERT anchor (\<open>header.rs\<close>), the tip anchor of a header prefix
  (\<open>header_anchor.rs\<close>).  Chains of headers accepted by the rules keep consecutive
  heights and hash links, targets in range, a state depth that never shrinks and a
  median time that never goes back.
\<close>

section \<open>Timestamps\<close>

definition median_time_past :: "u64 list \<Rightarrow> u64" where
  "median_time_past prev_timestamps =
    (if prev_timestamps = [] then 0
     else
       let count = min (length prev_timestamps) MEDIAN_TIME_BLOCKS;
           recent = sort (drop (length prev_timestamps - count) prev_timestamps)
       in recent ! (count div 2))"

definition median_u64 :: "u64 list \<Rightarrow> u64" where
  "median_u64 values =
    (if values = [] then 0
     else let sorted = sort values in sorted ! (length sorted div 2))"

definition validate_median_time_past :: "u64 \<Rightarrow> u64 list \<Rightarrow> consensus_error + unit" where
  "validate_median_time_past block_ts prev_timestamps =
    (let mtp = median_time_past prev_timestamps
     in if block_ts \<le> mtp then Inl BadTimestamp else Inr ())"

definition validate_future_drift :: "u64 \<Rightarrow> u64 \<Rightarrow> consensus_error + unit" where
  "validate_future_drift block_ts local_time =
    (if block_ts > saturating_add local_time MAX_FUTURE_DRIFT then Inl BadTimestamp else Inr ())"

definition validate_timestamp :: "u64 \<Rightarrow> u64 list \<Rightarrow> u64 \<Rightarrow> consensus_error + unit" where
  "validate_timestamp block_ts prev_timestamps local_time =
    bind_res (validate_median_time_past block_ts prev_timestamps) (\<lambda>_.
    validate_future_drift block_ts local_time)"

section \<open>State-depth expansion\<close>

definition finalized_expansion_window :: "u64 \<Rightarrow> (u64 \<times> u64) option" where
  "finalized_expansion_window parent_height =
    Option.bind (checked_sub parent_height CONSENSUS_FINALITY_DEPTH) (\<lambda>end_h.
    Option.bind (checked_sub EXPANSION_WINDOW 1) (\<lambda>w.
    Option.bind (checked_sub end_h w) (\<lambda>start.
    Some (start, end_h))))"

definition expected_child_log_slots :: "u64 \<Rightarrow> u32 \<Rightarrow> u64 list \<Rightarrow> u32" where
  "expected_child_log_slots parent_height parent_log_slots finalized_active_counts =
    (if finalized_expansion_window parent_height = None then parent_log_slots
     else
       let expected_window_len = unat EXPANSION_WINDOW
       in if length finalized_active_counts \<noteq> expected_window_len then parent_log_slots
          else
            let prev_capacity = (if unat parent_log_slots < 64 then push_bit (unat parent_log_slots) 1 else word_max);
                threshold_scaled = saturating_mul prev_capacity EXPAND_NUM;
                at_or_above = length (filter (\<lambda>active. saturating_mul active EXPAND_DENOM \<ge> threshold_scaled)
                  finalized_active_counts);
                trigger = at_or_above > expected_window_len div 2
            in if trigger then min (saturating_add parent_log_slots 1) LOG_SLOTS_MAX else parent_log_slots)"

section \<open>Transaction epochs\<close>

record tx_epoch_height_decomposition =
  ed_quotient :: u64
  ed_remainder :: u8

definition is_boundary :: "tx_epoch_height_decomposition \<Rightarrow> bool" where
  "is_boundary d \<longleftrightarrow> ed_remainder d = 0"

definition checked_div :: "'a::len word \<Rightarrow> 'a word \<Rightarrow> 'a word option" where
  "checked_div a b = (if b = 0 then None else Some (a div b))"

definition checked_rem :: "'a::len word \<Rightarrow> 'a word \<Rightarrow> 'a word option" where
  "checked_rem a b = (if b = 0 then None else Some (a mod b))"

definition checked_tx_epoch_height_decomposition :: "u64 \<Rightarrow> tx_epoch_height_decomposition option" where
  "checked_tx_epoch_height_decomposition height =
    Option.bind (checked_div height TX_EPOCH_BLOCKS) (\<lambda>quotient.
    Option.bind (checked_rem height TX_EPOCH_BLOCKS) (\<lambda>remainder_u64.
    Option.bind (checked_mul quotient TX_EPOCH_BLOCKS) (\<lambda>p.
    Option.bind (checked_add p remainder_u64) (\<lambda>recomposed.
    if recomposed \<noteq> height \<or> remainder_u64 \<ge> TX_EPOCH_BLOCKS then None
    else if unat remainder_u64 < 256
    then Some \<lparr> ed_quotient = quotient, ed_remainder = ucast remainder_u64 \<rparr>
    else None))))"

definition tx_epoch_anchor_height_for_child :: "u64 \<Rightarrow> u64" where
  "tx_epoch_anchor_height_for_child child_height =
    (if child_height = 0 then 0 else ((child_height - 1) div TX_EPOCH_BLOCKS) * TX_EPOCH_BLOCKS)"

text \<open>The check of one block over its transaction bodies.\<close>

primrec validate_block_epoch_anchors ::
  "tx_body list \<Rightarrow> digest \<Rightarrow> digest \<Rightarrow> consensus_error + unit" where
  "validate_block_epoch_anchors [] user_epoch_anchor_id parent_id = Inr ()"
| "validate_block_epoch_anchors (tx # txs) user_epoch_anchor_id parent_id =
    (let expected = (if is_coinbase tx then parent_id else user_epoch_anchor_id)
     in if epoch_anchor tx \<noteq> expected
        then Inl (if is_coinbase tx then BadCoinbaseAnchor else BadEpochAnchor)
        else validate_block_epoch_anchors txs user_epoch_anchor_id parent_id)"

text \<open>\<open>None\<close> is the panic of the \<open>expect\<close>.\<close>

definition next_tx_epoch_anchor_id :: "digest \<Rightarrow> u64 \<Rightarrow> digest \<Rightarrow> digest option" where
  "next_tx_epoch_anchor_id start_anchor_id accepted_child_height accepted_child_id =
    map_option (\<lambda>d. if accepted_child_height \<noteq> 0 \<and> is_boundary d then accepted_child_id else start_anchor_id)
      (checked_tx_epoch_height_decomposition accepted_child_height)"

definition resolve_user_epoch_anchor_id :: "u64 \<Rightarrow> (u64 \<Rightarrow> block_header option) \<Rightarrow> digest option" where
  "resolve_user_epoch_anchor_id child_height header_at =
    map_option block_id (header_at (tx_epoch_anchor_height_for_child child_height))"

section \<open>Header validation\<close>

definition validate_header_inner ::
  "block_header \<Rightarrow> block_header \<Rightarrow> digest \<Rightarrow> u64 list \<Rightarrow> u64 list \<Rightarrow> u64 option \<Rightarrow>
   u64 \<Rightarrow> u64 \<Rightarrow> u256 \<Rightarrow> bool \<Rightarrow> fork_schedule option \<Rightarrow> consensus_error + unit" where
  "validate_header_inner header parent expected_parent_hash prev_timestamps finalized_active_counts
     local_time anchor_height anchor_timestamp anchor_target check_pow schedule =
    (if prev_block_hash header \<noteq> expected_parent_hash then Inl BadParentHash
     else if hdr_height header \<noteq> hdr_height parent + 1 then Inl BadHeight
     else
       let expected_target =
             (case schedule of
                Some schedule \<Rightarrow>
                  next_target_with_schedule anchor_height anchor_timestamp anchor_target
                    (hdr_height header) (hdr_timestamp parent) (hdr_timestamp header) schedule
              | None \<Rightarrow>
                  next_target anchor_height anchor_timestamp anchor_target
                    (hdr_height header) (hdr_timestamp parent) (hdr_timestamp header))
       in if difficulty_target header \<noteq> expected_target then Inl BadDifficultyTarget
          else
            bind_res (map_err (\<lambda>_. BadTimestamp)
              (validate_median_time_past (hdr_timestamp header) prev_timestamps)) (\<lambda>_.
            bind_res
              (case local_time of
                 Some local_time \<Rightarrow>
                   if hdr_height parent = 0 \<and> local_time < hdr_timestamp parent then Inl BadTimestamp
                   else map_err (\<lambda>_. BadTimestamp) (validate_future_drift (hdr_timestamp header) local_time)
               | None \<Rightarrow> Inr ()) (\<lambda>_.
            bind_res (if check_pow then bind_res (validate_pow header) (\<lambda>_. Inr ()) else Inr ()) (\<lambda>_.
            if hdr_log_slots header \<noteq>
              expected_child_log_slots (hdr_height parent) (hdr_log_slots parent) finalized_active_counts
            then Inl BadLogSlotsExpansion
            else Inr ()))))"

definition validate_header ::
  "block_header \<Rightarrow> block_header \<Rightarrow> u64 list \<Rightarrow> u64 list \<Rightarrow> u64 \<Rightarrow> u64 \<Rightarrow> u64 \<Rightarrow> u256 \<Rightarrow> consensus_error + unit" where
  "validate_header header parent prev_timestamps finalized_active_counts local_time
     anchor_height anchor_timestamp anchor_target =
    validate_header_inner header parent (block_id parent) prev_timestamps finalized_active_counts
      (Some local_time) anchor_height anchor_timestamp anchor_target True None"

definition validate_header_template ::
  "block_header \<Rightarrow> block_header \<Rightarrow> u64 list \<Rightarrow> u64 list \<Rightarrow> u64 \<Rightarrow> u64 \<Rightarrow> u64 \<Rightarrow> u256 \<Rightarrow> consensus_error + unit" where
  "validate_header_template header parent prev_timestamps finalized_active_counts local_time
     anchor_height anchor_timestamp anchor_target =
    validate_header_inner header parent (block_id parent) prev_timestamps finalized_active_counts
      (Some local_time) anchor_height anchor_timestamp anchor_target False None"

definition validate_header_timeless ::
  "block_header \<Rightarrow> block_header \<Rightarrow> u64 list \<Rightarrow> u64 list \<Rightarrow> u64 \<Rightarrow> u64 \<Rightarrow> u256 \<Rightarrow> consensus_error + unit" where
  "validate_header_timeless header parent prev_timestamps finalized_active_counts
     anchor_height anchor_timestamp anchor_target =
    validate_header_inner header parent (block_id parent) prev_timestamps finalized_active_counts
      None anchor_height anchor_timestamp anchor_target True None"

definition validate_header_timeless_prehashed_parent ::
  "block_header \<Rightarrow> block_header \<Rightarrow> digest \<Rightarrow> u64 list \<Rightarrow> u64 list \<Rightarrow> u64 \<Rightarrow> u64 \<Rightarrow> u256 \<Rightarrow> consensus_error + unit" where
  "validate_header_timeless_prehashed_parent header parent parent_id prev_timestamps finalized_active_counts
     anchor_height anchor_timestamp anchor_target =
    validate_header_inner header parent parent_id prev_timestamps finalized_active_counts
      None anchor_height anchor_timestamp anchor_target True None"

definition validate_header_with_schedule ::
  "block_header \<Rightarrow> block_header \<Rightarrow> u64 list \<Rightarrow> u64 list \<Rightarrow> u64 option \<Rightarrow> u64 \<Rightarrow> u64 \<Rightarrow> u256 \<Rightarrow> bool \<Rightarrow>
   fork_schedule \<Rightarrow> consensus_error + unit" where
  "validate_header_with_schedule header parent prev_timestamps finalized_active_counts local_time
     anchor_height anchor_timestamp anchor_target check_pow schedule =
    validate_header_inner header parent (block_id parent) prev_timestamps finalized_active_counts
      local_time anchor_height anchor_timestamp anchor_target check_pow (Some schedule)"

definition asert_anchor_height_with_schedule :: "u64 \<Rightarrow> fork_schedule \<Rightarrow> u64" where
  "asert_anchor_height_with_schedule current_height schedule =
    (let regular = (current_height div EPOCH_LENGTH) * EPOCH_LENGTH
     in case sched_v2 schedule of
          Some at \<Rightarrow> if current_height \<ge> v2_height at - 1 then max regular (v2_height at - 1) else regular
        | None \<Rightarrow> regular)"

definition asert_anchor_height :: "u64 \<Rightarrow> u64" where
  "asert_anchor_height current_height = asert_anchor_height_with_schedule current_height ACTIVE_SCHEDULE"

section \<open>The tip anchor of a header prefix\<close>

record header_chain_anchor =
  hca_height :: u64
  hca_block_id :: digest
  hca_state_root :: digest
  hca_tx_root :: digest
  hca_miner_address :: address
  hca_log_slots :: u32
  hca_active_slot_count :: u64
  hca_alloc_counter :: u64
  hca_cumulative_chainwork :: digest

datatype header_chain_anchor_error =
    AnchorEmpty
  | StartsAfterGenesis u64
  | NonContiguous u64 u64
  | BadParentLink u64

definition anchor_of_header :: "block_header \<Rightarrow> digest \<Rightarrow> digest \<Rightarrow> header_chain_anchor" where
  "anchor_of_header header bid work =
    \<lparr> hca_height = hdr_height header, hca_block_id = bid, hca_state_root = state_root header,
      hca_tx_root = tx_root header, hca_miner_address = miner_address header,
      hca_log_slots = hdr_log_slots header, hca_active_slot_count = hdr_active_slot_count header,
      hca_alloc_counter = hdr_alloc_counter header, hca_cumulative_chainwork = work \<rparr>"

definition extend_header_chain_anchor_prehashed ::
  "header_chain_anchor \<Rightarrow> block_header \<Rightarrow> digest \<Rightarrow> digest \<Rightarrow> header_chain_anchor_error + header_chain_anchor" where
  "extend_header_chain_anchor_prehashed previous header bid cumulative_chainwork =
    (let expected = saturating_add (hca_height previous) 1
     in if hdr_height header \<noteq> expected then Inl (NonContiguous expected (hdr_height header))
        else if prev_block_hash header \<noteq> hca_block_id previous then Inl (BadParentLink (hdr_height header))
        else Inr (anchor_of_header header bid cumulative_chainwork))"

definition extend_header_chain_anchor ::
  "header_chain_anchor \<Rightarrow> block_header \<Rightarrow> digest \<Rightarrow> header_chain_anchor_error + header_chain_anchor" where
  "extend_header_chain_anchor previous header cumulative_chainwork =
    extend_header_chain_anchor_prehashed previous header (hash_block_header header) cumulative_chainwork"

text \<open>The loop carries the expected height, the previous id and the tip.\<close>

definition anchor_step ::
  "block_header \<Rightarrow> u64 \<times> digest \<times> (block_header \<times> digest) option \<Rightarrow>
   header_chain_anchor_error + u64 \<times> digest \<times> (block_header \<times> digest) option" where
  "anchor_step header st =
    (let (expected_height, previous_block_id, tip) = st
     in if hdr_height header \<noteq> expected_height then Inl (NonContiguous expected_height (hdr_height header))
        else if hdr_height header > 0 \<and> prev_block_hash header \<noteq> previous_block_id
        then Inl (BadParentLink (hdr_height header))
        else
          let bid = hash_block_header header
          in Inr (saturating_add expected_height 1, bid, Some (header, bid)))"

definition compute_header_chain_anchor ::
  "block_header list \<Rightarrow> digest \<Rightarrow> header_chain_anchor_error + header_chain_anchor" where
  "compute_header_chain_anchor headers cumulative_chainwork =
    (case headers of
       [] \<Rightarrow> Inl AnchorEmpty
     | first # _ \<Rightarrow>
         if hdr_height first \<noteq> 0 then Inl (StartsAfterGenesis (hdr_height first))
         else
           bind_res (fold_res anchor_step headers (0, replicate 32 0, None)) (\<lambda>(_, _, tip).
           case tip of
             Some (tip_header, bid) \<Rightarrow> Inr (anchor_of_header tip_header bid cumulative_chainwork)
           | None \<Rightarrow> Inl AnchorEmpty))"

section \<open>The median time never goes back\<close>

lemma sorted_nth_ge_iff:
  fixes m :: "'a::linorder"
  assumes "sorted ys" "k < length ys"
  shows "m \<le> ys ! k \<longleftrightarrow> length (filter (\<lambda>x. x < m) ys) \<le> k"
  using assms
proof (induction ys arbitrary: k)
  case (Cons y ys)
  show ?case
  proof (cases "y < m")
    case True
    then show ?thesis using Cons by (cases k) auto
  next
    case False
    then have "\<forall>z \<in> set (y # ys). m \<le> z" using Cons.prems(1) by fastforce
    moreover from this have "filter (\<lambda>x. x < m) (y # ys) = []" by (auto simp: filter_empty_conv not_less)
    ultimately show ?thesis using nth_mem[OF Cons.prems(2)] by (simp only: list.size le0 simp_thms)
  qed
qed simp

lemma sort_nth_ge_iff:
  fixes m :: "'a::linorder"
  shows "k < length xs \<Longrightarrow> m \<le> sort xs ! k \<longleftrightarrow> length (filter (\<lambda>x. x < m) xs) \<le> k"
  using sorted_nth_ge_iff[of "sort xs" k m] by (simp add: filter_sort)

definition recent_timestamps :: "u64 list \<Rightarrow> u64 list" where
  "recent_timestamps ts = drop (length ts - 11) ts"

lemma length_recent: "length (recent_timestamps ts) = min (length ts) 11"
  by (simp add: recent_timestamps_def)

lemma median_time_past_eq:
  "ts \<noteq> [] \<Longrightarrow> median_time_past ts =
    sort (recent_timestamps ts) ! (length (recent_timestamps ts) div 2)"
  by (auto simp: median_time_past_def recent_timestamps_def MEDIAN_TIME_BLOCKS_def Let_def min_def)

lemma mtp_ge_iff:
  assumes "ts \<noteq> []"
  shows "m \<le> median_time_past ts \<longleftrightarrow>
    length (filter (\<lambda>x. x < m) (recent_timestamps ts)) \<le> length (recent_timestamps ts) div 2"
proof -
  have "length (recent_timestamps ts) div 2 < length (recent_timestamps ts)"
    using assms by (simp add: length_recent min_def)
  then show ?thesis by (simp add: median_time_past_eq[OF assms] sort_nth_ge_iff)
qed

lemma recent_snoc:
  "recent_timestamps (ts @ [y]) =
    (if length ts < 11 then recent_timestamps ts @ [y] else tl (recent_timestamps ts) @ [y])"
proof (cases "length ts < 11")
  case False
  then have "Suc (length ts) - 11 = Suc (length ts - 11)" by simp
  then show ?thesis using False by (simp add: recent_timestamps_def tl_drop drop_Suc)
qed (simp add: recent_timestamps_def)

lemma mtp_snoc:
  assumes "median_time_past ts < y"
  shows "median_time_past ts \<le> median_time_past (ts @ [y])"
proof (cases "ts = []")
  case True
  then show ?thesis by (simp add: median_time_past_def)
next
  case False
  let ?m = "median_time_past ts" and ?r = "recent_timestamps ts"
  have old: "length (filter (\<lambda>x. x < ?m) ?r) \<le> length ?r div 2"
    using mtp_ge_iff[OF False, of ?m] by simp
  have late: "\<not> y < ?m" using assms by simp
  have tl: "length (filter P (tl xs)) \<le> length (filter P xs)" for P and xs :: "u64 list"
    by (cases xs) auto
  have "length (filter (\<lambda>x. x < ?m) (recent_timestamps (ts @ [y])))
      \<le> length (recent_timestamps (ts @ [y])) div 2"
  proof (cases "length ts < 11")
    case True
    have "length ?r div 2 \<le> Suc (length ?r) div 2" by (rule div_le_mono) simp
    then show ?thesis using True old late by (simp add: recent_snoc)
  next
    case long: False
    then have "length ?r = 11" by (simp add: length_recent)
    then show ?thesis using long old late tl[of "\<lambda>x. x < ?m" ?r] by (simp add: recent_snoc)
  qed
  then show ?thesis using mtp_ge_iff[of "ts @ [y]" ?m] by simp
qed

definition timestamps_accepted :: "u64 list \<Rightarrow> bool" where
  "timestamps_accepted ts \<longleftrightarrow>
    (\<forall>k < length ts. k \<noteq> 0 \<longrightarrow> validate_median_time_past (ts ! k) (take k ts) = Inr ())"

lemma timestamps_acceptedD:
  assumes "timestamps_accepted ts" "0 < k" "k < length ts"
  shows "median_time_past (take k ts) < ts ! k"
proof -
  have "validate_median_time_past (ts ! k) (take k ts) = Inr ()"
    using assms by (simp add: timestamps_accepted_def)
  then show ?thesis by (simp add: validate_median_time_past_def Let_def split: if_splits)
qed

lemma mtp_chain_mono:
  assumes "timestamps_accepted ts" "0 < i" "i \<le> j" "j \<le> length ts"
  shows "median_time_past (take i ts) \<le> median_time_past (take j ts)"
  using assms(3,4)
proof (induction j rule: dec_induct)
  case (step k)
  have "median_time_past (take k ts) < ts ! k"
    using timestamps_acceptedD[OF assms(1), of k] assms(2) step by simp
  then have "median_time_past (take k ts) \<le> median_time_past (take (Suc k) ts)"
    using mtp_snoc step by (simp add: take_Suc_conv_app_nth)
  then show ?case using step by simp
qed simp

text \<open>
  The clock of a chain never goes back.  If every timestamp after the first
  passes the median-time-past rule against the ones before it, the median time of
  longer prefixes is never smaller; hence each block is later than the median
  time of every earlier prefix, not only of its own eleven ancestors.
\<close>

lemma median_time_monotone:
  assumes "timestamps_accepted ts" "0 < i" "i \<le> j" "j < length ts"
  shows "median_time_past (take i ts) \<le> median_time_past (take j ts) \<and>
    median_time_past (take i ts) < ts ! j"
proof -
  have "median_time_past (take i ts) \<le> median_time_past (take j ts)"
    using mtp_chain_mono[OF assms(1-3)] assms(4) by simp
  moreover have "median_time_past (take j ts) < ts ! j"
    using timestamps_acceptedD[OF assms(1), of j] assms by simp
  ultimately show ?thesis by simp
qed

lemma median_time_monotone_witness:
  "median_time_past (take 1 [10, 20, 30, 25]) \<le> median_time_past (take 3 [10, 20, 30, 25 :: u64]) \<and>
   median_time_past (take 1 [10, 20, 30, 25]) < [10, 20, 30, 25 :: u64] ! 3"
proof -
  have "timestamps_accepted [10, 20, 30, 25]"
    by (auto simp: timestamps_accepted_def less_Suc_eq validate_median_time_past_def median_time_past_def
        MEDIAN_TIME_BLOCKS_def)
  then show ?thesis using median_time_monotone[of "[10, 20, 30, 25]" 1 3] by simp
qed

section \<open>Expansion\<close>

lemma window_None_iff: "finalized_expansion_window h = None \<longleftrightarrow> unat h < 35"
  by (auto simp: finalized_expansion_window_def checked_sub_def word_le_nat_alt unat_minus_le
      CONSENSUS_FINALITY_DEPTH_def EXPANSION_WINDOW_def)

lemma expansion_threshold:
  assumes "unat ls \<le> 62"
  shows "saturating_mul active EXPAND_DENOM \<ge> saturating_mul (push_bit (unat ls) 1 :: u64) EXPAND_NUM \<longleftrightarrow>
    3 * 2 ^ unat ls \<le> 4 * unat active"
proof -
  have bound: "(2 :: nat) ^ unat ls \<le> 2 ^ 62" using assms by (intro power_increasing) auto
  have cap: "unat (push_bit (unat ls) 1 :: u64) = 2 ^ unat ls"
    using bound by (simp only: unat_push_bit unat_1 mult_1) simp
  have small: "2 ^ unat ls * 3 \<le> (2 ^ 64 - 1 :: nat)" using bound by simp
  have "saturating_mul active EXPAND_DENOM \<ge> saturating_mul (push_bit (unat ls) 1 :: u64) EXPAND_NUM \<longleftrightarrow>
      min (2 ^ unat ls * 3) (2 ^ 64 - 1) \<le> min (unat active * 4) (2 ^ 64 - 1)"
    by (simp only: word_le_nat_alt unat_saturating_mul cap)
       (simp add: EXPAND_NUM_def EXPAND_DENOM_def)
  also have "\<dots> \<longleftrightarrow> 3 * 2 ^ unat ls \<le> 4 * unat active"
    using small by (simp only: min_absorb1 min.bounded_iff) (auto simp: mult.commute)
  finally show ?thesis .
qed

text \<open>
  C29: the expansion rule is the exact strict-majority rule.  For every depth that
  can occur, the child depth is the parent depth plus one, capped at the maximum,
  exactly when the chain is long enough, the finalized window is complete and more
  than half of its counts reach three quarters of the capacity; no 64-bit
  saturation changes a comparison.
\<close>

theorem expected_child_log_slots_exact:
  assumes "ls \<le> LOG_SLOTS_MAX"
  shows "unat (expected_child_log_slots h ls counts) =
    (if 35 \<le> unat h \<and> length counts = 18 \<and>
        length (filter (\<lambda>c. 3 * 2 ^ unat ls \<le> 4 * unat c) counts) > 9
     then min (unat ls + 1) 32 else unat ls)"
proof -
  have ls: "unat ls \<le> 32" using assms by (simp add: LOG_SLOTS_MAX_def word_le_nat_alt)
  have sat: "unat (min (saturating_add ls 1) LOG_SLOTS_MAX) = min (unat ls + 1) 32"
    using ls by (auto simp: min_def word_le_nat_alt unat_saturating_add LOG_SLOTS_MAX_def)
  have window: "unat EXPANSION_WINDOW = 18" by (simp add: EXPANSION_WINDOW_def CONSENSUS_FINALITY_DEPTH_def)
  have thr: "(\<lambda>active. saturating_mul active EXPAND_DENOM \<ge> saturating_mul (push_bit (unat ls) 1 :: u64) EXPAND_NUM) =
      (\<lambda>c. 3 * 2 ^ unat ls \<le> 4 * unat c)"
    using expansion_threshold[of ls] ls by (intro ext) simp
  have cap: "(if unat ls < 64 then push_bit (unat ls) 1 else word_max) = (push_bit (unat ls) 1 :: u64)"
    using ls by simp
  show ?thesis
    unfolding expected_child_log_slots_def Let_def window cap thr window_None_iff
    by (auto simp: sat not_less)
qed

theorem expected_child_log_slots_exact_witness:
  "unat (expected_child_log_slots 35 24 (replicate 18 12582912)) = 25 \<and>
   unat (expected_child_log_slots 35 24 (replicate 9 12582911 @ replicate 9 12582912)) = 24"
  using expected_child_log_slots_exact[of 24 35 "replicate 18 12582912"]
    expected_child_log_slots_exact[of 24 35 "replicate 9 12582911 @ replicate 9 12582912"]
  by (simp add: LOG_SLOTS_MAX_def)

lemma child_log_slots_step:
  assumes "ls \<le> LOG_SLOTS_MAX"
  shows "ls \<le> expected_child_log_slots h ls counts" "expected_child_log_slots h ls counts \<le> LOG_SLOTS_MAX"
    "unat (expected_child_log_slots h ls counts) \<le> unat ls + 1"
proof -
  have trig: "unat (min (saturating_add ls 1) LOG_SLOTS_MAX) = min (unat ls + 1) 32"
    using assms by (auto simp: min_def word_le_nat_alt unat_saturating_add LOG_SLOTS_MAX_def)
  have "expected_child_log_slots h ls counts = ls \<or>
      expected_child_log_slots h ls counts = min (saturating_add ls 1) LOG_SLOTS_MAX"
    by (simp add: expected_child_log_slots_def Let_def)
  then show "ls \<le> expected_child_log_slots h ls counts" "expected_child_log_slots h ls counts \<le> LOG_SLOTS_MAX"
    "unat (expected_child_log_slots h ls counts) \<le> unat ls + 1"
    using assms trig by (auto simp: word_le_nat_alt LOG_SLOTS_MAX_def)
qed

section \<open>Epoch anchors\<close>

lemma decomposition_total:
  "\<exists>d. checked_tx_epoch_height_decomposition h = Some d \<and>
    unat (ed_quotient d) = unat h div 144 \<and> unat (ed_remainder d) = unat h mod 144"
proof -
  let ?q = "h div TX_EPOCH_BLOCKS" and ?r = "h mod TX_EPOCH_BLOCKS"
  have e: "TX_EPOCH_BLOCKS = 144" by (simp add: TX_EPOCH_BLOCKS_def)
  have nz: "TX_EPOCH_BLOCKS \<noteq> 0" by (simp add: TX_EPOCH_BLOCKS_def)
  have q: "unat ?q = unat h div 144" and r: "unat ?r = unat h mod 144"
    by (simp_all add: e unat_div unat_mod)
  have "unat ?q * 144 + unat ?r = unat h" using q r by simp
  then have fits: "unat ?q * unat TX_EPOCH_BLOCKS < 2 ^ 64"
    "unat (?q * TX_EPOCH_BLOCKS) + unat ?r = unat h"
    using unat_lt_pow[of h] by (simp_all add: e unat_times_lt)
  then have "checked_mul ?q TX_EPOCH_BLOCKS = Some (?q * TX_EPOCH_BLOCKS)"
    "checked_add (?q * TX_EPOCH_BLOCKS) ?r = Some h"
    using unat_lt_pow[of h] by (simp_all add: checked_mul_def checked_add_Some_iff)
  moreover have "\<not> TX_EPOCH_BLOCKS \<le> ?r" "unat ?r < 256" using r by (simp_all add: word_le_nat_alt e)
  moreover have "unat (ucast ?r :: u8) = unat h mod 144"
    using r by (simp add: unat_ucast_mod)
  ultimately show ?thesis
    using q nz by (simp add: checked_tx_epoch_height_decomposition_def checked_div_def checked_rem_def)
qed

text \<open>The anchor lane run over the accepted blocks of a chain, starting from genesis.\<close>

primrec anchor_after :: "(nat \<Rightarrow> digest) \<Rightarrow> nat \<Rightarrow> digest option" where
  "anchor_after ids 0 = Some (ids 0)"
| "anchor_after ids (Suc h) =
    Option.bind (anchor_after ids h) (\<lambda>a. next_tx_epoch_anchor_id a (of_nat (Suc h)) (ids (Suc h)))"

lemma next_anchor_eq:
  "next_tx_epoch_anchor_id a h i = Some (if unat h \<noteq> 0 \<and> unat h mod 144 = 0 then i else a)"
proof -
  obtain d where "checked_tx_epoch_height_decomposition h = Some d" "unat (ed_remainder d) = unat h mod 144"
    using decomposition_total by blast
  then show ?thesis by (simp add: next_tx_epoch_anchor_id_def is_boundary_def word_unat_eq_iff)
qed

text \<open>
  C24: the epoch-anchor accumulator agrees with the height formula.  Running the
  per-block transition from genesis over any chain of block ids, without ever
  reaching its panic, yields for the child of every height the id of the block at
  the height the closed formula names, so proofs built on the accumulator and
  nodes that look headers up by height demand the same anchor.
\<close>

theorem epoch_anchor_accumulator:
  assumes "Suc h < 2 ^ 64"
  shows "anchor_after ids h = Some (ids (unat (tx_epoch_anchor_height_for_child (of_nat (Suc h)))))"
proof -
  have formula: "unat (tx_epoch_anchor_height_for_child (of_nat (Suc k))) = k div 144 * 144"
    if "Suc k < 2 ^ 64" for k
  proof -
    have "k div 144 * 144 \<le> k" by simp
    then have "unat (of_nat k div 144 * 144 :: u64) = k div 144 * 144"
      using that by (subst unat_times_lt) (simp_all add: unat_div unsigned_of_nat take_bit_nat_eq_self)
    moreover have "unat (of_nat (Suc k) :: u64) = Suc k"
      using that by (simp add: unsigned_of_nat take_bit_nat_eq_self del: of_nat_Suc)
    then have "(of_nat (Suc k) :: u64) \<noteq> 0" by (metis nat.distinct(1) unat_0)
    ultimately show ?thesis by (simp add: tx_epoch_anchor_height_for_child_def TX_EPOCH_BLOCKS_def)
  qed
  have "anchor_after ids h = Some (ids (h div 144 * 144))"
    using assms
  proof (induction h)
    case (Suc h)
    have "unat (of_nat (Suc h) :: u64) = Suc h"
      using Suc.prems by (simp add: unsigned_of_nat take_bit_nat_eq_self del: of_nat_Suc)
    moreover have "Suc h div 144 * 144 = (if Suc h mod 144 = 0 then Suc h else h div 144 * 144)"
    proof (cases "Suc h mod 144 = 0")
      case True
      then show ?thesis using div_mult_mod_eq[of "Suc h" 144] by simp
    qed (simp add: div_Suc)
    ultimately show ?case using Suc by (simp add: next_anchor_eq del: of_nat_Suc)
  qed simp
  then show ?thesis using formula[OF assms] by simp
qed

theorem epoch_anchor_accumulator_witness:
  "anchor_after (\<lambda>h. replicate 32 (of_nat h)) 200 = Some (replicate 32 144) \<and>
   tx_epoch_anchor_height_for_child 201 = 144"
  using epoch_anchor_accumulator[of 200 "\<lambda>h. replicate 32 (of_nat h)"]
  by (simp add: tx_epoch_anchor_height_for_child_def TX_EPOCH_BLOCKS_def)

section \<open>Incremental tip anchors\<close>

lemma anchor_loop_snoc:
  assumes "fold_res anchor_step hs st = Inr (e', p', t')" "hs \<noteq> []"
  shows "t' = Some (last hs, p') \<and> e' = saturating_add (hdr_height (last hs)) 1"
proof -
  obtain xs x where "hs = xs @ [x]" using assms(2) by (cases hs rule: rev_cases) auto
  then show ?thesis using assms(1)
    by (auto simp: fold_res_append anchor_step_def Let_def split: if_splits prod.splits)
qed

definition finish_anchor ::
  "digest \<Rightarrow> u64 \<times> digest \<times> (block_header \<times> digest) option \<Rightarrow> header_chain_anchor_error + header_chain_anchor" where
  "finish_anchor w = (\<lambda>(_, _, tip).
    case tip of Some (tip_header, bid) \<Rightarrow> Inr (anchor_of_header tip_header bid w) | None \<Rightarrow> Inl AnchorEmpty)"

lemma compute_anchor_eq:
  "hs \<noteq> [] \<Longrightarrow> compute_header_chain_anchor hs w =
    (if hdr_height (hd hs) \<noteq> 0 then Inl (StartsAfterGenesis (hdr_height (hd hs)))
     else bind_res (fold_res anchor_step hs (0, replicate 32 0, None)) (finish_anchor w))"
  by (cases hs) (simp_all add: compute_header_chain_anchor_def finish_anchor_def)

text \<open>
  C23: the tip anchor can be maintained incrementally.  For every non-empty prefix
  and every further header, recomputing the anchor from genesis gives exactly the
  result, error or anchor, of extending the anchor of the prefix by one header.
\<close>

theorem header_anchor_incremental:
  assumes "hs \<noteq> []"
  shows "compute_header_chain_anchor (hs @ [h]) w =
    bind_res (compute_header_chain_anchor hs w') (\<lambda>a. extend_header_chain_anchor a h w)"
proof (cases "hdr_height (hd hs) = 0")
  case False
  then show ?thesis using assms by (simp add: compute_anchor_eq)
next
  case True
  let ?s = "(0, replicate 32 0, None) :: u64 \<times> digest \<times> (block_header \<times> digest) option"
  have app: "fold_res anchor_step (hs @ [h]) ?s = bind_res (fold_res anchor_step hs ?s) (anchor_step h)"
    by (cases "fold_res anchor_step hs ?s"; cases "anchor_step h (projr (fold_res anchor_step hs ?s))")
       (auto simp: fold_res_append)
  show ?thesis
  proof (cases "fold_res anchor_step hs ?s")
    case (Inl e)
    then show ?thesis using True assms app by (simp add: compute_anchor_eq)
  next
    case (Inr st)
    obtain e' p' t' where st: "st = (e', p', t')" by (cases st)
    have tip: "t' = Some (last hs, p')" "e' = saturating_add (hdr_height (last hs)) 1"
      using anchor_loop_snoc[OF Inr[unfolded st] assms] by auto
    have "unat e' \<noteq> 0"
      using tip(2) unat_saturating_add[of "hdr_height (last hs)" 1] by simp
    then have pos: "e' \<noteq> 0" by auto
    have "compute_header_chain_anchor (hs @ [h]) w = bind_res (anchor_step h (e', p', t')) (finish_anchor w)"
      using True assms app Inr st by (simp add: compute_anchor_eq)
    moreover have "compute_header_chain_anchor hs w' = Inr (anchor_of_header (last hs) p' w')"
      using True assms Inr st tip by (simp add: compute_anchor_eq finish_anchor_def)
    ultimately show ?thesis
      using pos tip(2)
      by (auto simp: anchor_step_def extend_header_chain_anchor_def extend_header_chain_anchor_prehashed_def
          anchor_of_header_def finish_anchor_def Let_def word_gt_0)
  qed
qed

theorem header_anchor_incremental_witness:
  "compute_header_chain_anchor ([example_header\<lparr> hdr_height := 0 \<rparr>] @ [example_header]) zero_digest =
    bind_res (compute_header_chain_anchor [example_header\<lparr> hdr_height := 0 \<rparr>] zero_digest)
      (\<lambda>a. extend_header_chain_anchor a example_header zero_digest)"
  by (rule header_anchor_incremental) simp

section \<open>Chains of accepted headers\<close>

text \<open>
  A chain, oldest first, grows by an accepted header.  The ancestor timestamps
  are those of the chain; the finalized counts, the ASERT anchor and the wall clock
  are whatever the caller supplies, so the invariants hold for any of them.  The
  flag tells whether the proof of work is checked, as every acceptance path does,
  or not, as the template path does.
\<close>

inductive header_chain :: "bool \<Rightarrow> block_header list \<Rightarrow> bool" for pow where
  chain_start: "hdr_height g = 0 \<Longrightarrow> hdr_log_slots g \<le> LOG_SLOTS_MAX \<Longrightarrow> header_chain pow [g]"
| chain_extend: "header_chain pow hs \<Longrightarrow>
    validate_header_inner h (last hs) (block_id (last hs)) (map hdr_timestamp hs) counts lt ah ats t pow None
      = Inr () \<Longrightarrow>
    header_chain pow (hs @ [h])"

inductive_cases header_chain_snocE: "header_chain pow (hs @ [h])"

lemma validate_header_innerD:
  assumes "validate_header_inner h p ph ts counts lt ah ats t pow sch = Inr ()"
  shows "prev_block_hash h = ph" "hdr_height h = hdr_height p + 1"
    "validate_median_time_past (hdr_timestamp h) ts = Inr ()"
    "hdr_log_slots h = expected_child_log_slots (hdr_height p) (hdr_log_slots p) counts"
    "sch = None \<Longrightarrow> difficulty_target h =
      next_target ah ats t (hdr_height h) (hdr_timestamp p) (hdr_timestamp h)"
    "pow \<Longrightarrow> le256_lt (poseidon_pow_digest h) (difficulty_target h)"
  using assms
  by (auto simp: validate_header_inner_def validate_pow_def Let_def split: if_splits)

lemma header_chain_nonempty: "header_chain pow hs \<Longrightarrow> hs \<noteq> []"
  by (induction rule: header_chain.induct) auto

definition linked_to :: "bool \<Rightarrow> block_header \<Rightarrow> block_header \<Rightarrow> bool" where
  "linked_to pow p h \<longleftrightarrow>
    prev_block_hash h = block_id p \<and> hdr_height h = hdr_height p + 1 \<and>
    hdr_log_slots p \<le> hdr_log_slots h \<and> unat (hdr_log_slots h) \<le> unat (hdr_log_slots p) + 1 \<and>
    hdr_log_slots h \<le> LOG_SLOTS_MAX \<and>
    le_value MIN_TARGET \<le> le_value (difficulty_target h) \<and>
    le_value (difficulty_target h) \<le> le_value GENESIS_TARGET \<and>
    (pow \<longrightarrow> le_value (poseidon_pow_digest h) < le_value (difficulty_target h))"

lemma next_target_in_range:
  "wf_digest (next_target ah ats t h parent_ts ts) \<and>
    le_value MIN_TARGET \<le> le_value (next_target ah ats t h parent_ts ts) \<and>
    le_value (next_target ah ats t h parent_ts ts) \<le> le_value GENESIS_TARGET"
proof -
  obtain a e where "next_target ah ats t h parent_ts ts = target_from_exponent t h a e"
    using next_target_from_exponent by blast
  then show ?thesis unfolding target_constants using target_from_exponent_range[of t h a e] by (simp only:)
qed

lemma header_chain_invariant:
  assumes "header_chain pow hs"
  shows "(\<forall>k. Suc k < length hs \<longrightarrow> linked_to pow (hs ! k) (hs ! Suc k)) \<and>
    hdr_height (hs ! 0) = 0 \<and> hdr_log_slots (last hs) \<le> LOG_SLOTS_MAX \<and>
    timestamps_accepted (map hdr_timestamp hs)"
  using assms
proof (induction rule: header_chain.induct)
  case (chain_start g)
  then show ?case by (simp add: timestamps_accepted_def)
next
  case (chain_extend hs h counts lt ah ats t)
  note ne = header_chain_nonempty[OF chain_extend.hyps(1)]
  note d = validate_header_innerD[OF chain_extend.hyps(2)]
  have slots: "hdr_log_slots (last hs) \<le> LOG_SLOTS_MAX" using chain_extend.IH by simp
  have wf: "wf_digest (poseidon_pow_digest h)"
    by (simp add: poseidon_pow_digest_def poseidon_pow_digest_from_fields_def finalize_no_pad_def wf_digest_def)
  have target: "wf_digest (difficulty_target h)" "le_value MIN_TARGET \<le> le_value (difficulty_target h)"
    "le_value (difficulty_target h) \<le> le_value GENESIS_TARGET"
    unfolding d(5)[OF refl] using next_target_in_range by blast+
  have new: "linked_to pow (last hs) h"
    using d child_log_slots_step[OF slots, of "hdr_height (last hs)" counts] target le256_lt_iff[OF wf target(1)]
    by (simp add: linked_to_def)
  have "linked_to pow ((hs @ [h]) ! k) ((hs @ [h]) ! Suc k)" if "Suc k < length (hs @ [h])" for k
  proof (cases "Suc k < length hs")
    case True
    then show ?thesis using chain_extend.IH by (simp add: nth_append)
  next
    case False
    then have "k = length hs - 1" using that by simp
    then show ?thesis using new ne by (simp add: nth_append last_conv_nth)
  qed
  moreover have "timestamps_accepted (map hdr_timestamp (hs @ [h]))"
    using chain_extend.IH d(3) by (auto simp: timestamps_accepted_def nth_append less_Suc_eq)
  moreover have "hdr_height ((hs @ [h]) ! 0) = 0" using chain_extend.IH ne by (simp add: nth_append)
  moreover have "hdr_log_slots h \<le> LOG_SLOTS_MAX" using new by (simp add: linked_to_def)
  ultimately show ?case by simp
qed

lemma header_chain_heights:
  assumes "header_chain pow hs" "k < length hs"
  shows "hdr_height (hs ! k) = of_nat k"
  using assms(2)
proof (induction k)
  case 0
  then show ?case using header_chain_invariant[OF assms(1)] by simp
next
  case (Suc k)
  then have "linked_to pow (hs ! k) (hs ! Suc k)" using header_chain_invariant[OF assms(1)] by simp
  then show ?case using Suc by (simp add: linked_to_def)
qed

lemma header_chain_slots_mono:
  assumes "header_chain pow hs" "i \<le> j" "j < length hs"
  shows "hdr_log_slots (hs ! i) \<le> hdr_log_slots (hs ! j)"
  using assms(2,3)
proof (induction j rule: dec_induct)
  case (step k)
  then have "linked_to pow (hs ! k) (hs ! Suc k)" using header_chain_invariant[OF assms(1)] by simp
  then show ?case using step by (auto simp: linked_to_def)
qed simp

text \<open>
  C20: the invariants of a header chain.  In every chain grown by accepted headers,
  whatever finalized counts and ASERT anchors the callers supplied, the height of a
  header is its position, each header links to the id of its predecessor and has a
  target between the minimum and genesis that its work digest stays below when
  work is checked, the state depth
  never shrinks, grows by at most one per block and stays within the maximum, and
  every timestamp is later than the median time of every earlier prefix.
\<close>

theorem header_chain_safe:
  assumes "header_chain pow hs" "i < j" "j < length hs"
  shows "hdr_height (hs ! j) = of_nat j \<and>
    linked_to pow (hs ! (j - 1)) (hs ! j) \<and>
    hdr_log_slots (hs ! i) \<le> hdr_log_slots (hs ! j) \<and> hdr_log_slots (hs ! j) \<le> LOG_SLOTS_MAX \<and>
    median_time_past (map hdr_timestamp (take (Suc i) hs)) < hdr_timestamp (hs ! j)"
proof -
  note inv = header_chain_invariant[OF assms(1)]
  have "linked_to pow (hs ! (j - 1)) (hs ! j)" using inv assms by (metis Suc_diff_1 less_nat_zero_code not_gr_zero)
  moreover have "median_time_past (take (Suc i) (map hdr_timestamp hs)) \<le> median_time_past (take j (map hdr_timestamp hs))"
    using mtp_chain_mono[of "map hdr_timestamp hs" "Suc i" j] inv assms by simp
  moreover have "median_time_past (take j (map hdr_timestamp hs)) < map hdr_timestamp hs ! j"
    using timestamps_acceptedD[of "map hdr_timestamp hs" j] inv assms by simp
  ultimately show ?thesis
    using header_chain_heights[OF assms(1,3)] header_chain_slots_mono[OF assms(1) _ assms(3), of i] assms
    by (simp add: take_map linked_to_def)
qed

text \<open>A two-header chain on the template path, its target and link computed by the rules.\<close>

definition example_genesis :: block_header where
  "example_genesis = example_header\<lparr> hdr_height := 0, hdr_timestamp := 1787328000 \<rparr>"

definition example_child :: block_header where
  "example_child = example_header\<lparr> prev_block_hash := block_id example_genesis,
     difficulty_target := next_target 0 1787328000 GENESIS_TARGET 1 1787328000 1787328020 \<rparr>"

lemma example_header_chain: "header_chain False ([example_genesis] @ [example_child])"
proof (rule chain_extend[where counts = "[]" and lt = None and ah = 0 and ats = 1787328000 and t = GENESIS_TARGET])
  show "header_chain False [example_genesis]"
    by (rule chain_start) (simp_all add: example_genesis_def example_header_def LOG_SLOTS_MAX_def)
  have "expected_child_log_slots 0 24 [] = 24"
    by (simp add: expected_child_log_slots_def window_None_iff)
  then show "validate_header_inner example_child (last [example_genesis]) (block_id (last [example_genesis]))
      (map hdr_timestamp [example_genesis]) [] None 0 1787328000 GENESIS_TARGET False None = Inr ()"
    by (simp add: validate_header_inner_def example_child_def example_genesis_def example_header_def
        validate_median_time_past_def median_time_past_def MEDIAN_TIME_BLOCKS_def)
qed

theorem header_chain_safe_witness:
  "hdr_height example_child = 1 \<and> linked_to False example_genesis example_child \<and>
    median_time_past [hdr_timestamp example_genesis] < hdr_timestamp example_child"
  using header_chain_safe[OF example_header_chain, of 0 1] by simp

end
