(* ===== verification/Assembly.thy ===== *)
theory Assembly
  imports HeaderRules "HOL-Library.Multiset" "HOL-Library.List_Lexorder"
begin

text \<open>
  Fork choice (\<open>consensus/fork_choice.rs\<close>), the per-transaction and slot-conflict
  checks (\<open>checks.rs\<close>), and the miner's block assembly: conflict resolution by
  smallest transaction id (\<open>conflict.rs\<close>) and canonical ordering (\<open>ordering.rs\<close>).
  Byte arrays compare lexicographically.  Fork choice prefers the
  larger work and is a strict linear order on tips; assembly yields transactions that pass the conflict check on outputs.
\<close>

section \<open>Fork choice\<close>

datatype chain_choice = ChooseA | ChooseB | ChooseEqual

definition choose_chain_by_work :: "digest \<Rightarrow> digest \<Rightarrow> digest \<Rightarrow> digest \<Rightarrow> chain_choice" where
  "choose_chain_by_work chainwork_a hash_a chainwork_b hash_b =
    (if work_gt chainwork_a chainwork_b then ChooseA
     else if work_gt chainwork_b chainwork_a then ChooseB
     else if hash_a < hash_b then ChooseA
     else if hash_b < hash_a then ChooseB
     else ChooseEqual)"

record finalized_checkpoint =
  fc_height :: u64
  fc_hash :: digest

definition preserves_finalized_prefix :: "digest option \<Rightarrow> finalized_checkpoint \<Rightarrow> bool" where
  "preserves_finalized_prefix candidate_hash_at_finalized_height finalized \<longleftrightarrow>
    candidate_hash_at_finalized_height = Some (fc_hash finalized)"

definition reorg_allowed :: "u64 \<Rightarrow> bool" where
  "reorg_allowed n_confirmations_to_undo \<longleftrightarrow> n_confirmations_to_undo \<le> CONSENSUS_FINALITY_DEPTH"

section \<open>Transaction checks\<close>

definition validate_tx_consensus :: "tx_body \<Rightarrow> consensus_error + unit" where
  "validate_tx_consensus tx =
    bind_res (map_err (\<lambda>_. ShapeMismatch ''body semantics'') (validate_body_semantics_no_hash tx)) (\<lambda>_.
    if \<not> is_coinbase tx \<and> epoch_anchor tx = zero_digest then Inl BadEpochAnchor else Inr ())"

primrec touch_slots :: "u32 list \<Rightarrow> u32 set \<Rightarrow> consensus_error + u32 set" where
  "touch_slots [] touched = Inr touched"
| "touch_slots (s # slots) touched =
    (if s \<in> touched then Inl SlotConflict else touch_slots slots (insert s touched))"

definition touch_tx :: "tx_body \<Rightarrow> u32 set \<Rightarrow> consensus_error + u32 set" where
  "touch_tx tx touched =
    bind_res (touch_slots (map (\<lambda>x. in_slot_index (snd x)) (live_inputs tx)) touched) (\<lambda>touched.
    touch_slots (map (\<lambda>x. out_slot_index (snd x)) (live_outputs tx)) touched)"

definition validate_block_slot_conflicts :: "tx_body list \<Rightarrow> consensus_error + unit" where
  "validate_block_slot_conflicts txs = bind_res (fold_res touch_tx txs {}) (\<lambda>_. Inr ())"

section \<open>Conflict resolution\<close>

text \<open>The best claim of one output slot: entry-or-insert, then replace on a smaller id.\<close>

definition claim_slot :: "digest \<Rightarrow> nat \<Rightarrow> u32 \<Rightarrow> (u32 \<rightharpoonup> digest \<times> nat) \<Rightarrow> (u32 \<rightharpoonup> digest \<times> nat)" where
  "claim_slot tid i slot best =
    (case best slot of
       None \<Rightarrow> best(slot \<mapsto> (tid, i))
     | Some entry \<Rightarrow> if tid < fst entry then best(slot \<mapsto> (tid, i)) else best)"

definition best_claims :: "tx_body list \<Rightarrow> (u32 \<rightharpoonup> digest \<times> nat)" where
  "best_claims txs =
    fold (\<lambda>(i, tx) best. fold (\<lambda>(_, out). claim_slot (txid tx) i (out_slot_index out)) (live_outputs tx) best)
      (enumerate 0 txs) (\<lambda>_. None)"

definition loses :: "(u32 \<rightharpoonup> digest \<times> nat) \<Rightarrow> nat \<Rightarrow> tx_body \<Rightarrow> bool" where
  "loses best i tx \<longleftrightarrow>
    list_ex (\<lambda>(_, out). case best (out_slot_index out) of Some (_, winner_idx) \<Rightarrow> winner_idx \<noteq> i | None \<Rightarrow> False)
      (live_outputs tx)"

definition resolve_slot_conflicts :: "tx_body list \<Rightarrow> tx_body list \<times> digest list" where
  "resolve_slot_conflicts txs =
    (let best = best_claims txs;
         winners = map snd (filter (\<lambda>(i, tx). \<not> loses best i tx) (enumerate 0 txs));
         losers = map (\<lambda>(i, tx). txid tx) (filter (\<lambda>(i, tx). loses best i tx) (enumerate 0 txs))
     in (winners, losers))"

section \<open>Canonical ordering\<close>

text \<open>The comparison closure of the stable sort, as \<open>a \<le> b\<close>.\<close>

definition order_le :: "tx_body \<Rightarrow> tx_body \<Rightarrow> bool" where
  "order_le a b =
    (if is_coinbase a \<and> \<not> is_coinbase b then True
     else if \<not> is_coinbase a \<and> is_coinbase b then False
     else if fee b < fee a then True
     else if fee a < fee b then False
     else txid a \<le> txid b)"

primrec insort_by :: "('a \<Rightarrow> 'a \<Rightarrow> bool) \<Rightarrow> 'a \<Rightarrow> 'a list \<Rightarrow> 'a list" where
  "insort_by le x [] = [x]"
| "insort_by le x (y # ys) = (if le x y then x # y # ys else y # insort_by le x ys)"

text \<open>A stable sort has one result; insertion from the right computes it.\<close>

definition order_block_txs :: "tx_body list \<Rightarrow> tx_body list" where
  "order_block_txs txs = foldr (insort_by order_le) txs []"

section \<open>Fork choice is a linear order on tips\<close>

lemma work_gt_iff:
  "wf_digest a \<Longrightarrow> wf_digest b \<Longrightarrow> work_gt a b \<longleftrightarrow> le_value b < le_value a"
  by (simp add: work_gt_def le256_lt_iff)

lemma choose_chain_iff:
  assumes "wf_digest wa" "wf_digest wb"
  shows "choose_chain_by_work wa ha wb hb = ChooseA \<longleftrightarrow>
      le_value wb < le_value wa \<or> (le_value wa = le_value wb \<and> ha < hb)"
    "choose_chain_by_work wa ha wb hb = ChooseB \<longleftrightarrow>
      le_value wa < le_value wb \<or> (le_value wa = le_value wb \<and> hb < ha)"
    "choose_chain_by_work wa ha wb hb = ChooseEqual \<longleftrightarrow> le_value wa = le_value wb \<and> ha = hb"
  using assms by (auto simp: choose_chain_by_work_def work_gt_iff)

text \<open>
  C28: the heaviest chain wins.  On tips with 32-byte chainwork the choice falls on the
  larger work value and, at equal work, on the smaller hash, byte 0 first; it is
  symmetric in its arguments and transitive, and calls two tips equal only if their work
  and hashes agree.  A chain extended by a block of non-zero target beats the chain it
  extends whatever the hashes, as long as its work is not saturated.
\<close>

theorem fork_choice_heaviest:
  assumes "wf_digest wa" "wf_digest wb" "wf_digest wc" "wf_digest t"
  shows "(choose_chain_by_work wa ha wb hb = ChooseA \<longleftrightarrow> le_value wb < le_value wa \<or> (wa = wb \<and> ha < hb)) \<and>
    (choose_chain_by_work wa ha wb hb = ChooseB \<longleftrightarrow> choose_chain_by_work wb hb wa ha = ChooseA) \<and>
    (choose_chain_by_work wa ha wb hb = ChooseEqual \<longleftrightarrow> wa = wb \<and> ha = hb) \<and>
    (choose_chain_by_work wa ha wb hb = ChooseA \<longrightarrow> choose_chain_by_work wb hb wc hc = ChooseA \<longrightarrow>
      choose_chain_by_work wa ha wc hc = ChooseA) \<and>
    (le_value t \<noteq> 0 \<longrightarrow> le_value wa < 2 ^ 256 - 1 \<longrightarrow>
      choose_chain_by_work (add_work wa (block_work t)) hb wa ha = ChooseA)"
proof -
  have eq: "le_value wa = le_value wb \<longleftrightarrow> wa = wb"
    using assms le_value_inj[of wa wb] by (auto simp: wf_digest_def)
  have ext: "choose_chain_by_work (add_work wa (block_work t)) hb wa ha = ChooseA"
    if "le_value t \<noteq> 0" "le_value wa < 2 ^ 256 - 1"
  proof -
    note w = block_work_value[OF assms(4)] and a = add_work_value[OF assms(1) block_work_value(1)[OF assms(4)]]
    define m where "m = (2 ^ 256 - 1 :: nat)"
    have "0 < m" by (simp add: m_def)
    then have "0 < le_value (block_work t)" using that(1) w(2) by (simp add: m_def[symmetric])
    then have "le_value wa < le_value (add_work wa (block_work t))" using that(2) a(2) by (simp add: m_def[symmetric])
    then show ?thesis using choose_chain_iff(1)[OF a(1) assms(1)] by simp
  qed
  show ?thesis
    using choose_chain_iff[OF assms(1,2)] choose_chain_iff[OF assms(2,1)] choose_chain_iff[OF assms(2,3)]
      choose_chain_iff[OF assms(1,3)] eq ext by auto
qed

theorem fork_choice_heaviest_witness:
  "choose_chain_by_work GENESIS_TARGET (replicate 32 9) MIN_TARGET zero_digest = ChooseA \<and>
    choose_chain_by_work (add_work MIN_TARGET (block_work GENESIS_TARGET)) (replicate 32 9) MIN_TARGET zero_digest = ChooseA"
proof -
  have wf: "wf_digest GENESIS_TARGET" "wf_digest MIN_TARGET" and v: "le_value GENESIS_TARGET = 2 ^ 238" "le_value MIN_TARGET = 1"
    using target_constants by simp_all
  have "choose_chain_by_work GENESIS_TARGET (replicate 32 9) MIN_TARGET zero_digest = ChooseA"
    using fork_choice_heaviest[OF wf wf(1,1), of "replicate 32 9" zero_digest] v by simp
  moreover have "choose_chain_by_work (add_work MIN_TARGET (block_work GENESIS_TARGET)) (replicate 32 9) MIN_TARGET zero_digest = ChooseA"
    using fork_choice_heaviest[OF wf(2,2,2,1), of zero_digest "replicate 32 9"] v by simp
  ultimately show ?thesis by blast
qed

section \<open>Conflict resolution keeps the smallest claimants\<close>

definition claims_of :: "nat \<times> tx_body \<Rightarrow> (u32 \<times> digest \<times> nat) list" where
  "claims_of itx = map (\<lambda>s. (s, txid (snd itx), fst itx)) (live_output_slots (snd itx))"

lemma best_claims_flat:
  "best_claims txs = fold (\<lambda>(s, d, i). claim_slot d i s) (concat (map claims_of (enumerate 0 txs))) (\<lambda>_. None)"
proof -
  have inner: "fold (\<lambda>(_, out). claim_slot d i (out_slot_index out)) outs best =
      fold (\<lambda>(s, d, i). claim_slot d i s) (map (\<lambda>x. (out_slot_index (snd x), d, i)) outs) best"
    for d i best and outs :: "(nat \<times> tx_output) list"
    by (induction outs arbitrary: best) auto
  have "fold (\<lambda>(i, tx) best. fold (\<lambda>(_, out). claim_slot (txid tx) i (out_slot_index out)) (live_outputs tx) best)
      xs best = fold (\<lambda>(s, d, i). claim_slot d i s) (concat (map claims_of xs)) best" for xs best
    by (induction xs arbitrary: best) (auto simp: claims_of_def live_output_slots_def inner comp_def)
  then show ?thesis by (simp add: best_claims_def)
qed

lemma best_claims_invariant:
  assumes "sorted (map (\<lambda>c. snd (snd c)) cs)"
  shows "case fold (\<lambda>(s, d, i). claim_slot d i s) cs (\<lambda>_. None) s of
      None \<Rightarrow> \<forall>c \<in> set cs. fst c \<noteq> s
    | Some (d, i) \<Rightarrow> (s, d, i) \<in> set cs \<and> (\<forall>(s', d', i') \<in> set cs. s' = s \<longrightarrow> d < d' \<or> (d = d' \<and> i \<le> i'))"
  using assms
proof (induction cs rule: rev_induct)
  case (snoc c cs)
  obtain s' d' i' where c: "c = (s', d', i')" by (cases c)
  let ?b = "fold (\<lambda>(s, d, i). claim_slot d i s) cs (\<lambda>_. None)"
  have last: "\<forall>c \<in> set cs. snd (snd c) \<le> i'" using snoc.prems by (auto simp: c sorted_append)
  have IH: "case ?b s of None \<Rightarrow> \<forall>c \<in> set cs. fst c \<noteq> s
      | Some (d, i) \<Rightarrow> (s, d, i) \<in> set cs \<and> (\<forall>(s', d', i') \<in> set cs. s' = s \<longrightarrow> d < d' \<or> (d = d' \<and> i \<le> i'))"
    using snoc by (simp add: sorted_append)
  show ?case
  proof (cases "s' = s")
    case False
    then have "claim_slot d' i' s' ?b s = ?b s" by (auto simp: claim_slot_def split: option.split)
    then show ?thesis using IH False by (auto simp: c split: option.splits)
  next
    case True
    show ?thesis
    proof (cases "?b s")
      case None
      then have "claim_slot d' i' s' ?b s = Some (d', i')" using True by (simp add: claim_slot_def)
      then show ?thesis using IH None True by (auto simp: c)
    next
      case (Some e)
      obtain d i where e: "e = (d, i)" by (cases e)
      show ?thesis
      proof (cases "d' < d")
        case lt: True
        then have "claim_slot d' i' s' ?b s = Some (d', i')" using Some e True by (simp add: claim_slot_def)
        then show ?thesis using IH Some e True lt by (auto simp: c)
      next
        case False
        then have "claim_slot d' i' s' ?b s = Some (d, i)" using Some e True by (simp add: claim_slot_def)
        moreover have "i \<le> i'" using IH Some e last by fastforce
        ultimately show ?thesis using IH Some e True False by (auto simp: c not_less le_less)
      qed
    qed
  qed
qed simp

definition claims_slot :: "tx_body list \<Rightarrow> nat \<Rightarrow> u32 \<Rightarrow> bool" where
  "claims_slot txs i s \<longleftrightarrow> i < length txs \<and> s \<in> set (live_output_slots (txs ! i))"

lemma claim_members:
  "(s, d, i) \<in> set (concat (map claims_of (enumerate 0 txs))) \<longleftrightarrow> claims_slot txs i s \<and> d = txid (txs ! i)"
proof
  assume "claims_slot txs i s \<and> d = txid (txs ! i)"
  then show "(s, d, i) \<in> set (concat (map claims_of (enumerate 0 txs)))"
    by (auto simp: claims_slot_def claims_of_def in_set_enumerate_eq intro!: bexI[of _ "(i, txs ! i)"])
qed (auto simp: claims_slot_def claims_of_def in_set_enumerate_eq)

lemma claims_sorted:
  "sorted (map (\<lambda>c. snd (snd c)) (concat (map claims_of (enumerate k txs))))"
proof (induction txs arbitrary: k)
  case (Cons tx txs)
  have "\<forall>c \<in> set (concat (map claims_of (enumerate (Suc k) txs))). Suc k \<le> snd (snd c)"
    by (auto simp: claims_of_def in_set_enumerate_eq)
  moreover have "sorted (map (\<lambda>c. snd (snd c)) (claims_of (k, tx)))"
    by (auto simp: claims_of_def sorted_iff_nth_mono)
  moreover have "\<forall>c \<in> set (claims_of (k, tx)). snd (snd c) = k" by (auto simp: claims_of_def)
  ultimately show ?case using Cons[of "Suc k"] by (fastforce simp: sorted_append)
qed simp

lemma best_claims_spec:
  "case best_claims txs s of
     None \<Rightarrow> \<forall>i. \<not> claims_slot txs i s
   | Some (d, i) \<Rightarrow> claims_slot txs i s \<and> d = txid (txs ! i) \<and>
       (\<forall>j. claims_slot txs j s \<longrightarrow> txid (txs ! i) < txid (txs ! j) \<or> (txid (txs ! i) = txid (txs ! j) \<and> i \<le> j))"
proof -
  let ?cs = "concat (map claims_of (enumerate 0 txs))"
  have none: "(\<forall>c \<in> set ?cs. fst c \<noteq> s) \<longleftrightarrow> (\<forall>i. \<not> claims_slot txs i s)"
  proof
    assume a: "\<forall>c \<in> set ?cs. fst c \<noteq> s"
    show "\<forall>i. \<not> claims_slot txs i s"
    proof (intro allI notI)
      fix i assume "claims_slot txs i s"
      then have "(s, txid (txs ! i), i) \<in> set ?cs" by (simp only: claim_members simp_thms)
      then show False using a by force
    qed
  next
    assume a: "\<forall>i. \<not> claims_slot txs i s"
    show "\<forall>c \<in> set ?cs. fst c \<noteq> s"
    proof
      fix c assume c: "c \<in> set ?cs"
      obtain s' d i where "c = (s', d, i)" by (cases c) auto
      then show "fst c \<noteq> s" using a c claim_members[of s' d i txs] by auto
    qed
  qed
  show ?thesis
  proof (cases "best_claims txs s")
    case None
    then show ?thesis using best_claims_invariant[OF claims_sorted, of 0 txs s] none by (simp add: best_claims_flat)
  next
    case (Some e)
    obtain d i where e: "e = (d, i)" by (cases e)
    have inv: "(s, d, i) \<in> set ?cs" "\<forall>(s', d', i') \<in> set ?cs. s' = s \<longrightarrow> d < d' \<or> (d = d' \<and> i \<le> i')"
      using best_claims_invariant[OF claims_sorted, of 0 txs s] Some e by (simp_all add: best_claims_flat)
    have "txid (txs ! i) < txid (txs ! j) \<or> (txid (txs ! i) = txid (txs ! j) \<and> i \<le> j)" if "claims_slot txs j s" for j
    proof -
      have "(s, txid (txs ! j), j) \<in> set ?cs" using that by (simp only: claim_members simp_thms)
      moreover have "d = txid (txs ! i)" using inv(1) by (simp only: claim_members)
      ultimately show ?thesis using inv(2) by blast
    qed
    then show ?thesis using inv(1) Some e by (auto simp only: claim_members option.case prod.case)
  qed
qed

lemma loses_iff:
  assumes "i < length txs"
  shows "loses (best_claims txs) i (txs ! i) \<longleftrightarrow>
    (\<exists>s j. claims_slot txs i s \<and> claims_slot txs j s \<and>
      (txid (txs ! j) < txid (txs ! i) \<or> (txid (txs ! j) = txid (txs ! i) \<and> j < i)))"
proof -
  have slots: "loses (best_claims txs) i (txs ! i) \<longleftrightarrow>
      (\<exists>s. claims_slot txs i s \<and> (\<exists>d j. best_claims txs s = Some (d, j) \<and> j \<noteq> i))"
    using assms by (auto simp: loses_def list_ex_iff claims_slot_def live_output_slots_def split: option.splits prod.splits)
       force+
  have "(\<exists>d j. best_claims txs s = Some (d, j) \<and> j \<noteq> i) \<longleftrightarrow>
      (\<exists>j. claims_slot txs j s \<and> (txid (txs ! j) < txid (txs ! i) \<or> (txid (txs ! j) = txid (txs ! i) \<and> j < i)))"
    if "claims_slot txs i s" for s
    using best_claims_spec[of txs s] that
    by (auto split: option.splits) (metis le_neq_implies_less, metis less_asym leD less_irrefl)
  then show ?thesis unfolding slots by blast
qed

text \<open>
  C27: conflict resolution is exact.  A candidate is dropped precisely when it
  shares a live output slot with another candidate of smaller transaction id (or
  of the same id and earlier position); the winners keep their order, the losers'
  ids are those of the others, and no two winners claim a common output slot.
\<close>

theorem resolve_slot_conflicts_correct:
  "fst (resolve_slot_conflicts txs) =
    map (\<lambda>i. txs ! i) (filter (\<lambda>i. \<not> loses (best_claims txs) i (txs ! i)) [0..<length txs]) \<and>
   snd (resolve_slot_conflicts txs) =
    map (\<lambda>i. txid (txs ! i)) (filter (\<lambda>i. loses (best_claims txs) i (txs ! i)) [0..<length txs]) \<and>
   pairwise (\<lambda>i j. set (live_output_slots (txs ! i)) \<inter> set (live_output_slots (txs ! j)) = {})
     {i. i < length txs \<and> \<not> loses (best_claims txs) i (txs ! i)} \<and>
   {i. i < length txs \<and> loses (best_claims txs) i (txs ! i)} =
     {i. i < length txs \<and> (\<exists>s j. claims_slot txs i s \<and> claims_slot txs j s \<and>
       (txid (txs ! j) < txid (txs ! i) \<or> (txid (txs ! j) = txid (txs ! i) \<and> j < i)))}"
proof -
  have enum: "enumerate 0 txs = map (\<lambda>i. (i, txs ! i)) [0..<length txs]"
    by (rule nth_equalityI) (auto simp: nth_enumerate_eq)
  have parts: "fst (resolve_slot_conflicts txs) =
      map (\<lambda>i. txs ! i) (filter (\<lambda>i. \<not> loses (best_claims txs) i (txs ! i)) [0..<length txs])"
    "snd (resolve_slot_conflicts txs) =
      map (\<lambda>i. txid (txs ! i)) (filter (\<lambda>i. loses (best_claims txs) i (txs ! i)) [0..<length txs])"
    unfolding resolve_slot_conflicts_def enum by (simp_all add: filter_map comp_def Let_def)
  have "set (live_output_slots (txs ! i)) \<inter> set (live_output_slots (txs ! j)) = {}"
    if "i < length txs" "\<not> loses (best_claims txs) i (txs ! i)"
      "j < length txs" "\<not> loses (best_claims txs) j (txs ! j)" "i \<noteq> j" for i j
  proof -
    have "False" if s: "claims_slot txs i s" "claims_slot txs j s" for s
    proof -
      have "\<not> (txid (txs ! j) < txid (txs ! i) \<or> (txid (txs ! j) = txid (txs ! i) \<and> j < i))"
        using loses_iff[of i txs] s \<open>i < length txs\<close> \<open>\<not> loses (best_claims txs) i (txs ! i)\<close> by blast
      moreover have "\<not> (txid (txs ! i) < txid (txs ! j) \<or> (txid (txs ! i) = txid (txs ! j) \<and> i < j))"
        using loses_iff[of j txs] s \<open>j < length txs\<close> \<open>\<not> loses (best_claims txs) j (txs ! j)\<close> by blast
      ultimately show False using \<open>i \<noteq> j\<close> by auto
    qed
    then show ?thesis using that by (auto simp: claims_slot_def)
  qed
  then have "pairwise (\<lambda>i j. set (live_output_slots (txs ! i)) \<inter> set (live_output_slots (txs ! j)) = {})
     {i. i < length txs \<and> \<not> loses (best_claims txs) i (txs ! i)}"
    by (simp add: pairwise_def)
  moreover have "{i. i < length txs \<and> loses (best_claims txs) i (txs ! i)} =
     {i. i < length txs \<and> (\<exists>s j. claims_slot txs i s \<and> claims_slot txs j s \<and>
       (txid (txs ! j) < txid (txs ! i) \<or> (txid (txs ! j) = txid (txs ! i) \<and> j < i)))}"
    by (rule Collect_cong) (rule conj_cong[OF refl loses_iff])
  ultimately show ?thesis using parts by blast
qed

section \<open>Ordering\<close>

definition order_key :: "tx_body \<Rightarrow> bool \<times> u64 \<times> digest" where
  "order_key tx = (is_coinbase tx, fee tx, txid tx)"

lemma order_le_total: "order_le a b \<or> order_le b a"
  by (auto simp: order_le_def)

lemma order_le_trans: "order_le a b \<Longrightarrow> order_le b c \<Longrightarrow> order_le a c"
  by (auto simp: order_le_def split: if_splits)

lemma order_le_antisym: "order_le a b \<Longrightarrow> order_le b a \<Longrightarrow> order_key a = order_key b"
  by (auto simp: order_le_def order_key_def split: if_splits)

lemma order_le_key: "order_key a = order_key b \<Longrightarrow> order_le a b"
  by (auto simp: order_le_def order_key_def)

lemma mset_insort_by [simp]: "mset (insort_by le x ys) = add_mset x (mset ys)"
  by (induction ys) auto

lemma set_insort_by [simp]: "set (insort_by le x ys) = insert x (set ys)"
  using mset_insort_by by (metis set_mset_add_mset_insert set_mset_mset)

lemma sorted_insort_by:
  "sorted_wrt order_le ys \<Longrightarrow> sorted_wrt order_le (insort_by order_le x ys)"
proof (induction ys)
  case (Cons y ys)
  then show ?case using order_le_total[of x y] by (auto intro: order_le_trans)
qed simp

lemma filter_insort_by:
  "sorted_wrt order_le ys \<Longrightarrow> filter (\<lambda>t. order_key t = k) (insort_by order_le x ys) =
    (if order_key x = k then [x] else []) @ filter (\<lambda>t. order_key t = k) ys"
proof (induction ys)
  case (Cons y ys)
  have "order_key y \<noteq> order_key x" if "\<not> order_le x y" using that order_le_key[of x y] by metis
  then show ?case using Cons by auto
qed simp

text \<open>
  Block ordering is the stable sort by coinbase, descending fee and ascending
  id.  The result is a permutation of the input, pairwise in order, and
  transactions with equal keys keep their relative order.
\<close>

lemma order_block_txs_correct:
  "mset (order_block_txs txs) = mset txs \<and> sorted_wrt order_le (order_block_txs txs) \<and>
    filter (\<lambda>t. order_key t = k) (order_block_txs txs) = filter (\<lambda>t. order_key t = k) txs"
proof (induction txs)
  case (Cons t txs)
  then show ?case by (simp add: order_block_txs_def sorted_insort_by filter_insort_by)
qed (simp add: order_block_txs_def)

section \<open>Slot conflicts of a block\<close>

lemma touch_slots_iff:
  "touch_slots slots touched = Inr t \<longleftrightarrow>
    distinct slots \<and> set slots \<inter> touched = {} \<and> t = set slots \<union> touched"
  by (induction slots arbitrary: touched) auto

definition touched_slots :: "tx_body \<Rightarrow> u32 list" where
  "touched_slots tx = live_input_slots tx @ live_output_slots tx"

lemma touch_tx_iff:
  "touch_tx tx touched = Inr t \<longleftrightarrow>
    distinct (touched_slots tx) \<and> set (touched_slots tx) \<inter> touched = {} \<and> t = set (touched_slots tx) \<union> touched"
  by (auto simp: touch_tx_def touch_slots_iff touched_slots_def live_input_slots_def live_output_slots_def)

lemma touch_txs_iff:
  "fold_res touch_tx txs touched = Inr t \<longleftrightarrow>
    distinct (concat (map touched_slots txs)) \<and> set (concat (map touched_slots txs)) \<inter> touched = {} \<and>
    t = set (concat (map touched_slots txs)) \<union> touched"
  by (induction txs arbitrary: touched) (auto simp: touch_tx_iff)

text \<open>
  The conflict check accepts exactly the blocks in which every live input and
  output, across all transactions, touches a different slot.
\<close>

lemma validate_block_slot_conflicts_iff:
  "validate_block_slot_conflicts txs = Inr () \<longleftrightarrow> distinct (concat (map touched_slots txs))"
  by (auto simp: validate_block_slot_conflicts_def touch_txs_iff)

end
