(* ===== verification/Block.thy ===== *)
theory Block
  imports StateDelta PageStream TxTree Assembly
begin

text \<open>
  Blocks and their application to the state (\<open>noid_chain/src/block.rs\<close>): the layout of
  the system records and the page stream, the logical transaction ids and their tree
  root, and the sequential interpreter \<open>apply_block\<close>, which clones the state, grows it to
  the depth of the header, applies every record with a deferred root, seals once and
  compares the header.  The layout check is characterised, and \<open>apply_block\<close> is shown to
  refine the ledger: it accepts exactly the blocks that the ledger accepts and whose
  header states the resulting root, counters and transaction root, never panics, and
  the circulating supply grows by what the system records mint less the fees paid.
  A \<open>Transaction\<close> is its body.
\<close>

section \<open>Blocks and layout facts\<close>

record block =
  blk_header :: block_header
  blk_transactions :: "tx_body list"

datatype block_page_stream_error =
    BpsMissingCoinbase
  | BpsCoinbaseNotFirst
  | BpsMultipleCoinbase
  | BpsInvalidPrimaryCoinbase
  | BpsInvalidDevelopmentPayout
  | BpsPagedSpend paged_spend_stream_error

record block_page_stream_facts =
  bpf_proof_class :: block_proof_class
  bpf_groups :: "paged_spend_group_facts list"
  bpf_page_count :: u16
  bpf_logical_count :: u16
  bpf_live_inputs :: u16
  bpf_live_outputs :: u16
  bpf_has_development_payout :: bool
  bpf_user_start_index :: nat

datatype block_apply_error =
    BaTx apply_error
  | BaTooManyTransactions
  | BaGenesisHasTransactions
  | BaInvalidTxBody
  | BaInvalidPagedSpend
  | BaSlotConflict
  | BaHeaderStateRootMismatch
  | BaHeaderTxRootMismatch
  | BaHeaderActiveSlotCountMismatch
  | BaHeaderAllocCounterMismatch
  | BaHeaderLogSlotsMismatch
  | BaMultipleCoinbase
  | BaCoinbaseNotFirst
  | BaCoinbaseHasInputs

definition validate_block_page_stream :: "tx_body list \<Rightarrow> block_page_stream_error + block_page_stream_facts" where
  "validate_block_page_stream txs =
    (case txs of
       [] \<Rightarrow> Inl BpsMissingCoinbase
     | coinbase # _ \<Rightarrow>
         if \<not> is_coinbase coinbase then Inl BpsCoinbaseNotFirst
         else if \<not> is_primary_coinbase_shape coinbase then Inl BpsInvalidPrimaryCoinbase
         else
           let has_development_payout = (case slice_get txs 1 of None \<Rightarrow> False | Some tx \<Rightarrow> is_development_payout_shape tx);
               user_start_index = 1 + (if has_development_payout then 1 else 0)
           in if \<exists>tx \<in> set (drop user_start_index txs). is_coinbase tx then Inl BpsMultipleCoinbase
              else if (case slice_get txs 1 of None \<Rightarrow> False | Some tx \<Rightarrow> is_coinbase tx \<and> \<not> is_development_payout_shape tx)
              then Inl BpsInvalidDevelopmentPayout
              else
                bind_res (map_err BpsPagedSpend (validate_paged_spend_transaction_stream (drop user_start_index txs))) (\<lambda>user.
                let effective = unat (psf_page_count user) + (if has_development_payout then 1 else 0)
                in bind_res (ok_or (BpsPagedSpend (PssBlockPageLimit effective BLOCK_MAX_USER_PAGES)) (for_page_count effective)) (\<lambda>proof_class.
                     Inr \<lparr> bpf_proof_class = proof_class, bpf_groups = psf_groups user, bpf_page_count = psf_page_count user,
                       bpf_logical_count = psf_logical_count user, bpf_live_inputs = psf_live_inputs user,
                       bpf_live_outputs = psf_live_outputs user, bpf_has_development_payout = has_development_payout,
                       bpf_user_start_index = user_start_index \<rparr>)))"

section \<open>Transaction ids and root\<close>

definition try_compute_logical_txids :: "tx_body list \<Rightarrow> block_page_stream_error + digest list" where
  "try_compute_logical_txids txs =
    (if txs = [] then Inr []
     else
       bind_res (validate_block_page_stream txs) (\<lambda>stream.
         Inr (txid (txs ! 0) # (if bpf_has_development_payout stream then [txid (txs ! 1)] else []) @
           map (\<lambda>gf. pf_logical_txid (pgf_spend gf)) (bpf_groups stream))))"

definition try_compute_tx_root :: "tx_body list \<Rightarrow> (block_page_stream_error, digest) outcome" where
  "try_compute_tx_root txs =
    bind_out (Some (try_compute_logical_txids txs)) (\<lambda>hashes. map_option Inr (root_from_hashes hashes))"

definition compute_tx_root :: "tx_body list \<Rightarrow> digest option" where
  "compute_tx_root txs =
    (case try_compute_tx_root txs of Some (Inr root) \<Rightarrow> Some root | _ \<Rightarrow> None)"

section \<open>Applying a block\<close>

text \<open>\<open>while block.header.log_slots as usize > snap.state.log_slots()\<close>.\<close>

function expand_to :: "nat \<Rightarrow> chain_state \<Rightarrow> chain_state" where
  "expand_to target cs = (if target > ss_log_slots (cs_state cs) then expand_to target (chain_expand_one cs) else cs)"
  by pat_completeness auto
termination
  by (relation "measure (\<lambda>(target, cs). target - ss_log_slots (cs_state cs))")
    (auto simp: chain_expand_one_def expand_def Let_def)

declare expand_to.simps [simp del]

fun check_system_inputs :: "tx_body list \<Rightarrow> block_apply_error + unit" where
  "check_system_inputs [] = Inr ()"
| "check_system_inputs (system # systems) =
    (if live_input_count system \<noteq> 0 then Inl BaCoinbaseHasInputs else check_system_inputs systems)"

fun apply_block_txs :: "nat \<Rightarrow> u64 \<Rightarrow> (nat \<times> tx_body) list \<Rightarrow> chain_state \<Rightarrow> (block_apply_error, chain_state) outcome" where
  "apply_block_txs user_start_index height [] snap = Some (Inr snap)"
| "apply_block_txs user_start_index height ((index, tx) # txs) snap =
    bind_out (Some (if index < user_start_index
                    then map_err (\<lambda>_. BaInvalidTxBody) (validate_body_semantics_no_hash tx) else Inr ())) (\<lambda>_.
    bind_out (map_option (map_err BaTx) (apply_tx_checked_deferred_root tx (Some height) snap)) (\<lambda>snap.
      apply_block_txs user_start_index height txs snap))"

definition apply_block :: "block \<Rightarrow> chain_state \<Rightarrow> (block_apply_error, digest \<times> chain_state) outcome" where
  "apply_block block state =
    (let header = blk_header block; txs = blk_transactions block
     in if length txs > BLOCK_MAX_TXS then Some (Inl BaTooManyTransactions)
        else
          bind_out (Some (map_err (\<lambda>_. BaInvalidPagedSpend) (validate_block_page_stream txs))) (\<lambda>stream.
          bind_out (Some (map_err (\<lambda>_. BaSlotConflict) (validate_block_slot_conflicts txs))) (\<lambda>_.
          bind_out (Some (check_system_inputs (take (bpf_user_start_index stream) txs))) (\<lambda>_.
          bind_out (apply_block_txs (bpf_user_start_index stream) (hdr_height header) (enumerate 0 txs)
              (expand_to (unat (hdr_log_slots header)) state)) (\<lambda>snap.
          bind_out (map_option (map_err (\<lambda>_. BaTx ApExactStateUnavailable)) (try_state_root snap)) (\<lambda>(root, snap).
          if state_root header \<noteq> root then Some (Inl BaHeaderStateRootMismatch)
          else if hdr_active_slot_count header \<noteq> cs_active_slot_count snap then Some (Inl BaHeaderActiveSlotCountMismatch)
          else if hdr_alloc_counter header \<noteq> cs_alloc_counter snap then Some (Inl BaHeaderAllocCounterMismatch)
          else if hdr_log_slots header \<noteq> of_nat (ss_log_slots (cs_state snap)) then Some (Inl BaHeaderLogSlotsMismatch)
          else
            bind_out (map_option (map_err (\<lambda>_. BaInvalidPagedSpend)) (try_compute_tx_root txs)) (\<lambda>computed.
            if tx_root header \<noteq> computed then Some (Inl BaHeaderTxRootMismatch)
            else Some (Inr (cs_utxo_root snap, snap)))))))))"

definition materialize_accepted_block_state :: "block \<Rightarrow> chain_state \<Rightarrow> (block_apply_error, digest \<times> chain_state) outcome" where
  "materialize_accepted_block_state block state = apply_block block state"

text \<open>The genesis block leaves the state as it is, up to sealing its root; a height other than
  zero panics.\<close>

definition apply_genesis_block :: "block \<Rightarrow> chain_state \<Rightarrow> (block_apply_error, digest \<times> chain_state) outcome" where
  "apply_genesis_block block state =
    (let header = blk_header block; txs = blk_transactions block
     in if hdr_height header \<noteq> 0 then None
        else if length txs > BLOCK_MAX_TXS then Some (Inl BaTooManyTransactions)
        else if txs \<noteq> [] then Some (Inl BaGenesisHasTransactions)
        else if tx_root header \<noteq> zero_digest then Some (Inl BaHeaderTxRootMismatch)
        else
          bind_out (map_option (map_err (\<lambda>_. BaTx ApExactStateUnavailable)) (try_state_root state)) (\<lambda>(root, state).
          if state_root header \<noteq> root then Some (Inl BaHeaderStateRootMismatch)
          else if hdr_active_slot_count header \<noteq> 0 \<or> hdr_alloc_counter header \<noteq> 0 then Some (Inl BaHeaderActiveSlotCountMismatch)
          else Some (Inr (state_root header, state))))"

section \<open>The layout of a block\<close>

definition layout_facts :: "tx_body list \<Rightarrow> tx_page list list \<Rightarrow> block_page_stream_facts" where
  "layout_facts sys gs =
    \<lparr> bpf_proof_class = (if length (concat gs) + length sys \<le> 25 then B25 else B255), bpf_groups = group_records 0 gs,
      bpf_page_count = of_nat (length (concat gs)), bpf_logical_count = of_nat (length gs),
      bpf_live_inputs = of_nat (length (group_inputs (concat gs))), bpf_live_outputs = of_nat (length (group_outputs (concat gs))),
      bpf_has_development_payout = (sys \<noteq> []), bpf_user_start_index = Suc (length sys) \<rparr>"

definition block_layout :: "tx_body list \<Rightarrow> tx_body \<Rightarrow> tx_body list \<Rightarrow> tx_page list list \<Rightarrow> bool" where
  "block_layout txs cb sys gs \<longleftrightarrow> txs = cb # sys @ map page_body (concat gs) \<and> is_primary_coinbase_shape cb \<and>
    length sys \<le> 1 \<and> list_all is_development_payout_shape sys \<and> canonical_stream gs \<and> length (concat gs) + length sys \<le> 255"

lemma canonical_stream_users:
  assumes "canonical_stream gs" "p \<in> set (concat gs)"
  shows "\<not> is_coinbase (page_body p)"
  using assms by (auto simp: canonical_stream_def list_all_iff canonical_group_def canonical_page_def)

lemma map_TxPage_page_body [simp]: "map TxPage (map page_body pages) = pages"
  by (simp add: map_idI)

lemma pages_of_iff: "concat gs = map TxPage txs \<longleftrightarrow> txs = map page_body (concat gs)"
  by (metis list.inj_map_strong map_TxPage_page_body tx_page.inject)

lemma user_stream_iff:
  assumes "list_all wf_body txs" "length sys \<le> 1"
  shows "bind_res (map_err BpsPagedSpend (validate_paged_spend_transaction_stream txs)) (\<lambda>user.
      let effective = unat (psf_page_count user) + length sys
      in bind_res (ok_or (BpsPagedSpend (PssBlockPageLimit effective BLOCK_MAX_USER_PAGES)) (for_page_count effective)) (\<lambda>proof_class.
           Inr \<lparr> bpf_proof_class = proof_class, bpf_groups = psf_groups user, bpf_page_count = psf_page_count user,
             bpf_logical_count = psf_logical_count user, bpf_live_inputs = psf_live_inputs user,
             bpf_live_outputs = psf_live_outputs user, bpf_has_development_payout = (sys \<noteq> []),
             bpf_user_start_index = Suc (length sys) \<rparr>)) = Inr f \<longleftrightarrow>
    (\<exists>gs. txs = map page_body (concat gs) \<and> canonical_stream gs \<and> length (concat gs) + length sys \<le> 255 \<and> f = layout_facts sys gs)"
proof -
  have count: "unat (of_nat (length (concat gs)) :: u16) = length (concat gs)" if "canonical_stream gs" for gs
    using that by (intro unat_of_nat_lt) (simp add: canonical_stream_def)
  have one: "(let effective = unat (psf_page_count user) + length sys
      in bind_res (ok_or (BpsPagedSpend (PssBlockPageLimit effective BLOCK_MAX_USER_PAGES)) (for_page_count effective)) (\<lambda>proof_class.
           Inr \<lparr> bpf_proof_class = proof_class, bpf_groups = psf_groups user, bpf_page_count = psf_page_count user,
             bpf_logical_count = psf_logical_count user, bpf_live_inputs = psf_live_inputs user,
             bpf_live_outputs = psf_live_outputs user, bpf_has_development_payout = (sys \<noteq> []),
             bpf_user_start_index = Suc (length sys) \<rparr>)) = Inr f \<longleftrightarrow>
      length (concat gs) + length sys \<le> 255 \<and> f = layout_facts sys gs"
    if "canonical_stream gs" "user = stream_facts c gs" for user c gs
  proof -
    have "ok_or e (for_page_count n) = Inr c \<longleftrightarrow> n \<le> 255 \<and> c = (if n \<le> 25 then B25 else B255)" for e :: block_page_stream_error and n c
      by (cases "for_page_count n") (use for_page_count_iff[of n] in auto)
    then show ?thesis using that(2) count[OF that(1)] by (auto simp: Let_def stream_facts_def layout_facts_def)
  qed
  have "map_err BpsPagedSpend (validate_paged_spend_transaction_stream txs) = Inr user \<longleftrightarrow>
      (\<exists>gs. txs = map page_body (concat gs) \<and> canonical_stream gs \<and> user = stream_facts (if length txs \<le> 25 then B25 else B255) gs)" for user
    using transaction_stream_iff[OF assms(1), of user] pages_of_iff[of _ txs] by (cases "validate_paged_spend_transaction_stream txs") auto
  then show ?thesis unfolding bind_res_Inr_iff using one by blast
qed

lemma layout_iff:
  assumes wf: "list_all wf_body txs"
  shows "validate_block_page_stream txs = Inr f \<longleftrightarrow> (\<exists>cb sys gs. block_layout txs cb sys gs \<and> f = layout_facts sys gs)"
proof (cases txs)
  case Nil
  then show ?thesis by (simp add: validate_block_page_stream_def block_layout_def)
next
  case (Cons cb rest)
  show ?thesis
  proof (cases "is_primary_coinbase_shape cb")
    case False
    then show ?thesis by (auto simp: validate_block_page_stream_def block_layout_def Cons)
  next
    case True
    then have cb: "is_coinbase cb" by (simp add: is_primary_coinbase_shape_def)
    define sys where "sys = (case rest of [] \<Rightarrow> [] | tx # _ \<Rightarrow> if is_development_payout_shape tx then [tx] else [])"
    define user where "user = drop (length sys) rest"
    have rest: "rest = sys @ user" and sys: "length sys \<le> 1" "list_all is_development_payout_shape sys"
      by (auto simp: sys_def user_def split: list.splits)
    have "sys = [] \<Longrightarrow> case user of [] \<Rightarrow> True | tx # _ \<Rightarrow> \<not> is_development_payout_shape tx"
      by (auto simp: sys_def user_def split: list.splits if_splits)
    then have payout: "(case slice_get txs 1 of None \<Rightarrow> False | Some tx \<Rightarrow> is_development_payout_shape tx) \<longleftrightarrow> sys \<noteq> []"
      using sys rest by (cases sys; cases user) (auto simp: Cons slice_get_def)
    have start: "(if sys \<noteq> [] then 1 else 0) = length sys" using sys(1) by (cases sys) auto
    have drop: "drop (Suc (length sys)) txs = user" by (simp add: Cons rest)
    have second: "\<not> (case slice_get txs 1 of None \<Rightarrow> False | Some tx \<Rightarrow> is_coinbase tx \<and> \<not> is_development_payout_shape tx)"
      if "\<not> (\<exists>tx \<in> set user. is_coinbase tx)"
      using that payout rest by (cases sys; cases user) (auto simp: Cons slice_get_def)
    have wfu: "list_all wf_body user" using wf by (simp add: Cons rest)
    have uniq: "sys' = sys \<and> map page_body (concat gs) = user" if L: "block_layout txs cb' sys' gs" for cb' sys' gs
    proof -
      have "rest = sys' @ map page_body (concat gs)" using L by (simp add: block_layout_def Cons)
      moreover have "\<forall>p \<in> set (concat gs). \<not> is_development_payout_shape (page_body p)"
        using L canonical_stream_users by (auto simp: block_layout_def is_development_payout_shape_def)
      moreover have "length sys' \<le> 1" "list_all is_development_payout_shape sys'" using L by (simp_all add: block_layout_def)
      ultimately show ?thesis unfolding sys_def user_def
        by (cases sys'; cases "concat gs") auto
    qed
    have "validate_block_page_stream txs = Inr f \<longleftrightarrow> \<not> (\<exists>tx \<in> set user. is_coinbase tx) \<and>
      (\<exists>gs. user = map page_body (concat gs) \<and> canonical_stream gs \<and> length (concat gs) + length sys \<le> 255 \<and> f = layout_facts sys gs)"
    proof (cases "\<exists>tx \<in> set user. is_coinbase tx")
      case multiple: True
      have "validate_block_page_stream txs = Inl BpsMultipleCoinbase"
        by (simp only: validate_block_page_stream_def Cons list.case True cb payout[unfolded Cons] drop[unfolded Cons] start plus_1_eq_Suc
          multiple Let_def not_True_eq_False if_True if_False)
      with multiple show ?thesis by simp
    next
      case False
      show ?thesis unfolding user_stream_iff[OF wfu sys(1), symmetric]
        by (simp only: validate_block_page_stream_def Cons list.case True cb payout[unfolded Cons] drop[unfolded Cons] start plus_1_eq_Suc
          second[unfolded Cons, OF False] False Let_def not_True_eq_False if_True if_False simp_thms)
    qed
    also have "\<dots> \<longleftrightarrow> (\<exists>gs. user = map page_body (concat gs) \<and> canonical_stream gs \<and> length (concat gs) + length sys \<le> 255 \<and> f = layout_facts sys gs)"
      using canonical_stream_users by fastforce
    also have "\<dots> \<longleftrightarrow> (\<exists>cb sys gs. block_layout txs cb sys gs \<and> f = layout_facts sys gs)"
      (is "?L \<longleftrightarrow> ?R")
    proof
      assume ?L
      then show ?R using True sys by (auto simp: block_layout_def Cons rest)
    next
      assume ?R
      then obtain cb' sys' gs where g: "block_layout txs cb' sys' gs" "f = layout_facts sys' gs" by blast
      then show ?L using uniq[OF g(1)] by (auto simp: block_layout_def)
    qed
    finally show ?thesis .
  qed
qed

section \<open>The interpreter follows the ledger\<close>

text \<open>Every in-range segment a body touches is in memory, at a given depth.\<close>

definition resident_at :: "nat set \<Rightarrow> nat \<Rightarrow> tx_body \<Rightarrow> bool" where
  "resident_at evicted L body \<longleftrightarrow>
    (\<forall>slot \<in> set (body_slots body). unat slot < 2 ^ L \<longrightarrow> unat slot div 2 ^ min L 16 \<notin> evicted)"

lemma touched_resident_at:
  assumes "chain_repr cs u"
  shows "touched_resident body cs \<longleftrightarrow> resident_at (ss_evicted (cs_state cs)) (u_log u) body"
proof -
  have "ss_log_slots (cs_state cs) = u_log u" using assms by (simp add: chain_repr_def)
  then show ?thesis unfolding touched_resident_def resident_at_def num_slots_def is_evicted_def seg_id_of_def
    by (simp only: chain_repr_eff[OF assms])
qed

lemma expand_to_repr:
  assumes "chain_repr cs u" "u_log u \<le> T" "T \<le> 32"
  shows "chain_repr (expand_to T cs) (u\<lparr> u_log := T \<rparr>) \<and> ss_evicted (cs_state (expand_to T cs)) = ss_evicted (cs_state cs)"
  using assms
proof (induction T cs arbitrary: u rule: expand_to.induct)
  case (1 T cs)
  have log: "ss_log_slots (cs_state cs) = u_log u" using "1.prems"(1) by (simp add: chain_repr_def)
  show ?case
  proof (cases "T > u_log u")
    case True
    then have L: "u_log u < 32" using "1.prems"(3) by simp
    note E = chain_expand_repr[OF "1.prems"(1) L]
    have "expand_to T cs = expand_to T (chain_expand_one cs)" using True by (subst expand_to.simps) (simp add: log)
    then show ?thesis using "1.IH"[OF _ E(1)] True log "1.prems"(3) E(2) by simp
  next
    case False
    then have "T = u_log u" using "1.prems"(2) by simp
    moreover have "expand_to T cs = cs" using False by (subst expand_to.simps) (simp add: log)
    ultimately show ?thesis using "1.prems"(1) by simp
  qed
qed

lemma apply_txs_refines:
  assumes "chain_repr cs u" "list_all wf_body txs" "list_all (resident_at (ss_evicted (cs_state cs)) (u_log u)) txs"
  shows "case (if list_all canonical_body (take (start - k) txs) then utxo_block h txs u else None) of
      Some u' \<Rightarrow> \<exists>cs'. apply_block_txs start h (enumerate k txs) cs = Some (Inr cs') \<and> chain_repr cs' u' \<and>
        ss_evicted (cs_state cs') = ss_evicted (cs_state cs)
    | None \<Rightarrow> \<exists>e. apply_block_txs start h (enumerate k txs) cs = Some (Inl e)"
  using assms
proof (induction txs arbitrary: cs u k)
  case (Cons tx txs)
  have wf: "wf_body tx" "list_all wf_body txs" using Cons.prems(2) by simp_all
  have res: "touched_resident tx cs" using Cons.prems(1,3) touched_resident_at by auto
  note D = deferred_refines[OF Cons.prems(1) wf(1) res, of "Some h"]
  have check: "map_err (\<lambda>_. BaInvalidTxBody) (validate_body_semantics_no_hash tx) = (if canonical_body tx then Inr () else Inl BaInvalidTxBody)"
    using validate_canonical_body_iff[OF wf(1)] by (cases "validate_body_semantics_no_hash tx") auto
  show ?case
  proof (cases "(k < start \<longrightarrow> canonical_body tx) \<and> utxo_accepts u tx (Some h)")
    case True
    then obtain cs1 where cs1: "apply_tx_checked_deferred_root tx (Some h) cs = Some (Inr cs1)" "chain_repr cs1 (utxo_after u tx (Some h))"
      "ss_evicted (cs_state cs1) = ss_evicted (cs_state cs)" using D(1) by blast
    have "list_all (resident_at (ss_evicted (cs_state cs1)) (u_log (utxo_after u tx (Some h)))) txs"
      using Cons.prems(3) by (simp add: cs1(3) utxo_after_def)
    note IH = Cons.IH[OF cs1(2) wf(2) this, of "Suc k"]
    have run: "apply_block_txs start h (enumerate k (tx # txs)) cs = apply_block_txs start h (enumerate (Suc k) txs) cs1"
      using True by (auto simp: check cs1(1))
    have "(if list_all canonical_body (take (start - k) (tx # txs)) then utxo_block h (tx # txs) u else None) =
      (if list_all canonical_body (take (start - Suc k) txs) then utxo_block h txs (utxo_after u tx (Some h)) else None)"
      using True by (cases "k < start") (auto simp: take_Cons' Suc_diff_Suc)
    then show ?thesis using IH unfolding run cs1(3) by (simp only:)
  next
    case False
    then have "\<exists>e. apply_block_txs start h (enumerate k (tx # txs)) cs = Some (Inl e)"
      using D(2) by (auto simp: check)
    moreover have "(if list_all canonical_body (take (start - k) (tx # txs)) then utxo_block h (tx # txs) u else None) = None"
      using False by (auto simp: take_Cons')
    ultimately show ?thesis by simp
  qed
qed simp

section \<open>Blocks on the ledger\<close>

definition block_step :: "utxo \<Rightarrow> block \<Rightarrow> utxo \<Rightarrow> bool" where
  "block_step u b u' \<longleftrightarrow>
    (\<exists>cb sys gs. block_layout (blk_transactions b) cb sys gs \<and> list_all canonical_body (cb # sys) \<and>
      distinct (concat (map body_slots (blk_transactions b))) \<and> u_log u \<le> unat (hdr_log_slots (blk_header b)) \<and>
      utxo_block (hdr_height (blk_header b)) (blk_transactions b) (u\<lparr> u_log := unat (hdr_log_slots (blk_header b)) \<rparr>) = Some u' \<and>
      root_from_hashes (txid cb # map txid sys @ map hash_paged_spend_unchecked gs) = Some (tx_root (blk_header b)) \<and>
      state_root (blk_header b) = utxo_root u' \<and> unat (hdr_active_slot_count (blk_header b)) = u_active u' \<and>
      unat (hdr_alloc_counter (blk_header b)) = u_alloc u')"

lemma slot_conflicts_iff: "validate_block_slot_conflicts txs = Inr () \<longleftrightarrow> distinct (concat (map body_slots txs))"
proof -
  have "touched_slots = body_slots" by (rule ext) (simp add: touched_slots_def)
  then show ?thesis by (cases "fold_res touch_tx txs {}") (use touch_txs_iff[of txs "{}"] in \<open>auto simp: validate_block_slot_conflicts_def\<close>)
qed

lemma primary_no_inputs: "is_primary_coinbase_shape body \<or> is_development_payout_shape body \<Longrightarrow> live_input_count body = 0"
  by (auto simp: is_primary_coinbase_shape_def is_development_payout_shape_def live_input_count_def output_bitmap_bit_def TX_INPUTS_def count_ones_def)

lemma system_inputs_ok: "list_all (\<lambda>b. live_input_count b = 0) systems \<Longrightarrow> check_system_inputs systems = Inr ()"
  by (induction systems) simp_all

lemma group_record_ids: "map (\<lambda>gf. pf_logical_txid (pgf_spend gf)) (group_records start gs) = map hash_paged_spend_unchecked gs"
  by (induction start gs rule: group_records.induct) (simp_all add: group_facts_def)

lemma tx_root_layout:
  assumes "list_all wf_body txs" "block_layout txs cb sys gs"
  shows "try_compute_tx_root txs = map_option Inr (root_from_hashes (txid cb # map txid sys @ map hash_paged_spend_unchecked gs))"
    "root_from_hashes (txid cb # map txid sys @ map hash_paged_spend_unchecked gs) \<noteq> None"
proof -
  have txs: "txs = cb # sys @ map page_body (concat gs)" and sys: "length sys \<le> 1" using assms(2) by (auto simp: block_layout_def)
  have "validate_block_page_stream txs = Inr (layout_facts sys gs)" using layout_iff[OF assms(1)] assms(2) by blast
  moreover have "txs \<noteq> []" "txs ! 0 = cb" "(if sys \<noteq> [] then [txid (txs ! 1)] else []) = map txid sys"
    using sys by (cases sys; auto simp: txs)+
  ultimately have "try_compute_logical_txids txs = Inr (txid cb # map txid sys @ map hash_paged_spend_unchecked gs)"
    unfolding try_compute_logical_txids_def by (simp add: layout_facts_def group_record_ids)
  then show "try_compute_tx_root txs = map_option Inr (root_from_hashes (txid cb # map txid sys @ map hash_paged_spend_unchecked gs))"
    by (simp add: try_compute_tx_root_def)
  have "length gs \<le> length (concat gs)"
  proof -
    have "\<forall>g \<in> set gs. 1 \<le> length g" using assms(2) by (auto simp: block_layout_def canonical_stream_def list_all_iff canonical_group_def)
    then show ?thesis by (induction gs) auto
  qed
  then have "length (txid cb # map txid sys @ map hash_paged_spend_unchecked gs) \<le> 256" using assms(2) by (simp add: block_layout_def)
  then show "root_from_hashes (txid cb # map txid sys @ map hash_paged_spend_unchecked gs) \<noteq> None"
    by (simp add: root_from_hashes_def bind_tx_count_def TX_TREE_LEAVES_def)
qed

lemma block_step_iff:
  assumes wf: "list_all wf_body (blk_transactions b)" and L: "block_layout (blk_transactions b) cb sys gs"
  shows "block_step u b u' \<longleftrightarrow> list_all canonical_body (take (Suc (length sys)) (blk_transactions b)) \<and>
      distinct (concat (map body_slots (blk_transactions b))) \<and> u_log u \<le> unat (hdr_log_slots (blk_header b)) \<and>
      utxo_block (hdr_height (blk_header b)) (blk_transactions b) (u\<lparr> u_log := unat (hdr_log_slots (blk_header b)) \<rparr>) = Some u' \<and>
      try_compute_tx_root (blk_transactions b) = Some (Inr (tx_root (blk_header b))) \<and>
      state_root (blk_header b) = utxo_root u' \<and> unat (hdr_active_slot_count (blk_header b)) = u_active u' \<and>
      unat (hdr_alloc_counter (blk_header b)) = u_alloc u'"
proof -
  have systems: "take (Suc (length sys)) (blk_transactions b) = cb' # sys'"
    and root: "try_compute_tx_root (blk_transactions b) = Some (Inr r) \<longleftrightarrow>
      root_from_hashes (txid cb' # map txid sys' @ map hash_paged_spend_unchecked gs') = Some r"
    if L': "block_layout (blk_transactions b) cb' sys' gs'" for cb' sys' gs' r
  proof -
    have "layout_facts sys gs = layout_facts sys' gs'"
      using L L' layout_iff[OF wf, of "layout_facts sys gs"] layout_iff[OF wf, of "layout_facts sys' gs'"] by auto
    then have "length sys' = length sys" by (simp add: layout_facts_def)
    moreover have "blk_transactions b = cb' # sys' @ map page_body (concat gs')" using L' by (simp add: block_layout_def)
    ultimately show "take (Suc (length sys)) (blk_transactions b) = cb' # sys'" by simp
    show "try_compute_tx_root (blk_transactions b) = Some (Inr r) \<longleftrightarrow>
      root_from_hashes (txid cb' # map txid sys' @ map hash_paged_spend_unchecked gs') = Some r"
      using tx_root_layout(1)[OF wf L'] by auto
  qed
  show ?thesis (is "_ = ?R")
  proof
    assume "block_step u b u'"
    then obtain cb' sys' gs' where B: "block_layout (blk_transactions b) cb' sys' gs'" "list_all canonical_body (cb' # sys')"
      "root_from_hashes (txid cb' # map txid sys' @ map hash_paged_spend_unchecked gs') = Some (tx_root (blk_header b))"
      "distinct (concat (map body_slots (blk_transactions b)))" "u_log u \<le> unat (hdr_log_slots (blk_header b))"
      "utxo_block (hdr_height (blk_header b)) (blk_transactions b) (u\<lparr> u_log := unat (hdr_log_slots (blk_header b)) \<rparr>) = Some u'"
      "state_root (blk_header b) = utxo_root u'" "unat (hdr_active_slot_count (blk_header b)) = u_active u'"
      "unat (hdr_alloc_counter (blk_header b)) = u_alloc u'" unfolding block_step_def by blast
    show ?R unfolding systems[OF B(1)] root[OF B(1)] by (intro conjI B(2-))
  next
    assume R: ?R
    show "block_step u b u'" unfolding block_step_def
      by (intro exI[of _ cb] exI[of _ sys] exI[of _ gs]) (use R L in \<open>simp only: systems[OF L] root[OF L] simp_thms\<close>)
  qed
qed

lemma expand_to_max:
  assumes R: "chain_repr cs u" and T: "T \<le> 32"
  shows "chain_repr (expand_to T cs) (u\<lparr> u_log := max (u_log u) T \<rparr>) \<and> ss_evicted (cs_state (expand_to T cs)) = ss_evicted (cs_state cs)"
proof (cases "u_log u \<le> T")
  case True
  then show ?thesis using expand_to_repr[OF R True T] by (simp add: max_def)
next
  case False
  then have "expand_to T cs = cs" using R by (subst expand_to.simps) (simp add: chain_repr_def)
  then show ?thesis using R False by (simp add: max_def)
qed

text \<open>What \<open>apply_block\<close> does with a block of the canonical layout whose slots are distinct.\<close>

definition sealed_outcome :: "block \<Rightarrow> chain_state \<Rightarrow> (block_apply_error, digest \<times> chain_state) outcome" where
  "sealed_outcome b snap =
    bind_out (map_option (map_err (\<lambda>_. BaTx ApExactStateUnavailable)) (try_state_root snap)) (\<lambda>(root, snap).
      if state_root (blk_header b) \<noteq> root then Some (Inl BaHeaderStateRootMismatch)
      else if hdr_active_slot_count (blk_header b) \<noteq> cs_active_slot_count snap then Some (Inl BaHeaderActiveSlotCountMismatch)
      else if hdr_alloc_counter (blk_header b) \<noteq> cs_alloc_counter snap then Some (Inl BaHeaderAllocCounterMismatch)
      else if hdr_log_slots (blk_header b) \<noteq> of_nat (ss_log_slots (cs_state snap)) then Some (Inl BaHeaderLogSlotsMismatch)
      else
        bind_out (map_option (map_err (\<lambda>_. BaInvalidPagedSpend)) (try_compute_tx_root (blk_transactions b))) (\<lambda>computed.
        if tx_root (blk_header b) \<noteq> computed then Some (Inl BaHeaderTxRootMismatch)
        else Some (Inr (cs_utxo_root snap, snap))))"

lemma apply_block_run:
  assumes wf: "list_all wf_body (blk_transactions b)" and L: "block_layout (blk_transactions b) cb sys gs"
  shows "apply_block b cs = (case validate_block_slot_conflicts (blk_transactions b) of Inl _ \<Rightarrow> Some (Inl BaSlotConflict) | Inr _ \<Rightarrow>
      bind_out (apply_block_txs (Suc (length sys)) (hdr_height (blk_header b)) (enumerate 0 (blk_transactions b))
        (expand_to (unat (hdr_log_slots (blk_header b))) cs)) (sealed_outcome b))"
proof -
  have txs: "blk_transactions b = cb # sys @ map page_body (concat gs)" using L by (simp add: block_layout_def)
  have stream: "validate_block_page_stream (blk_transactions b) = Inr (layout_facts sys gs)" using layout_iff[OF wf] L by blast
  have count: "\<not> length (blk_transactions b) > BLOCK_MAX_TXS"
    using L by (simp add: block_layout_def BLOCK_MAX_TXS_def BLOCK_MAX_USER_PAGES_def)
  have "list_all (\<lambda>b. live_input_count b = 0) (cb # sys)"
    using L primary_no_inputs by (auto simp: block_layout_def list_all_iff)
  then have systems: "check_system_inputs (take (Suc (length sys)) (blk_transactions b)) = Inr ()"
    by (intro system_inputs_ok) (simp add: txs)
  show ?thesis unfolding sealed_outcome_def[abs_def]
    using count by (simp add: apply_block_def Let_def stream systems layout_facts_def split: sum.splits)
qed

lemma apply_block_outcome:
  assumes R: "chain_repr cs u" and wf: "list_all wf_body (blk_transactions b)"
    and T: "unat (hdr_log_slots (blk_header b)) \<le> 32"
    and res: "list_all (resident_at (ss_evicted (cs_state cs)) (max (u_log u) (unat (hdr_log_slots (blk_header b))))) (blk_transactions b)"
  shows "case apply_block b cs of None \<Rightarrow> False
    | Some (Inl e) \<Rightarrow> \<nexists>u'. block_step u b u'
    | Some (Inr (root, cs')) \<Rightarrow> \<exists>u'. block_step u b u' \<and> root = utxo_root u' \<and> chain_repr cs' u' \<and>
        ss_exact_dirty (cs_state cs') = {} \<and> ss_evicted (cs_state cs') = ss_evicted (cs_state cs)"
proof (cases "\<exists>cb sys gs. block_layout (blk_transactions b) cb sys gs")
  case False
  then have "\<exists>e. validate_block_page_stream (blk_transactions b) = Inl e"
    using layout_iff[OF wf] by (cases "validate_block_page_stream (blk_transactions b)") blast+
  then have "\<exists>e. apply_block b cs = Some (Inl e)" by (auto simp: apply_block_def Let_def)
  moreover have "\<nexists>u'. block_step u b u'" using False by (auto simp: block_step_def)
  ultimately show ?thesis by auto
next
  case True
  then obtain cb sys gs where L: "block_layout (blk_transactions b) cb sys gs" by blast
  let ?txs = "blk_transactions b" and ?h = "blk_header b" and ?T = "unat (hdr_log_slots (blk_header b))"
  note step = block_step_iff[OF wf L, of u]
  note run = apply_block_run[OF wf L, of cs]
  show ?thesis
  proof (cases "distinct (concat (map body_slots ?txs))")
    case False
    then have "validate_block_slot_conflicts ?txs \<noteq> Inr ()" by (simp add: slot_conflicts_iff)
    then show ?thesis using False by (cases "validate_block_slot_conflicts ?txs") (auto simp: run step)
  next
    case dist: True
    then have ok: "validate_block_slot_conflicts ?txs = Inr ()" by (simp add: slot_conflicts_iff)
    let ?u = "u\<lparr> u_log := max (u_log u) ?T \<rparr>"
    note E = expand_to_max[OF R T]
    have "list_all (resident_at (ss_evicted (cs_state (expand_to ?T cs))) (u_log ?u)) ?txs" using res E by simp
    note A = apply_txs_refines[OF conjunct1[OF E] wf this, where start = "Suc (length sys)" and k = 0 and h = "hdr_height ?h", unfolded diff_zero]
    show ?thesis
    proof (cases "if list_all canonical_body (take (Suc (length sys)) ?txs) then utxo_block (hdr_height ?h) ?txs ?u else None")
      case None
      then have "\<exists>e. apply_block b cs = Some (Inl e)" using A by (auto simp: run ok)
      moreover have "\<not> block_step u b u'" for u'
        using None unfolding step by (cases "u_log u \<le> ?T") (auto simp: max_def split: if_splits)
      ultimately show ?thesis by auto
    next
      case (Some u')
      then obtain cs1 where cs1: "apply_block_txs (Suc (length sys)) (hdr_height ?h) (enumerate 0 ?txs) (expand_to ?T cs) = Some (Inr cs1)"
        "chain_repr cs1 u'" "ss_evicted (cs_state cs1) = ss_evicted (cs_state cs)" using A E by auto
      obtain cs2 where cs2: "try_state_root cs1 = Some (Inr (utxo_root u', cs2))" "chain_repr cs2 u'" "ss_exact_dirty (cs_state cs2) = {}"
        "ss_evicted (cs_state cs2) = ss_evicted (cs_state cs)"
        using try_state_root_repr[OF cs1(2)] cs1(3) by auto
      have root: "cs_utxo_root cs2 = utxo_root u'" using cs2 by (simp add: chain_repr_def)
      have "utxo_block h xs v = Some v' \<Longrightarrow> u_log v' = u_log v" for h xs v v'
        by (induction xs arbitrary: v) (auto simp: utxo_after_def split: if_splits)
      then have log: "u_log u' = max (u_log u) ?T" using Some by (fastforce split: if_splits)
      have counters: "hdr_active_slot_count ?h = cs_active_slot_count cs2 \<longleftrightarrow> unat (hdr_active_slot_count ?h) = u_active u'"
        "hdr_alloc_counter ?h = cs_alloc_counter cs2 \<longleftrightarrow> unat (hdr_alloc_counter ?h) = u_alloc u'"
        using cs2(2) by (simp_all add: chain_repr_def word_unat_eq_iff)
      have "ss_log_slots (cs_state cs2) = max (u_log u) ?T" "u_log u \<le> 32"
        using cs2(2) R log by (auto simp: chain_repr_def state_repr_def geometry_def)
      then have depth: "hdr_log_slots ?h = of_nat (ss_log_slots (cs_state cs2)) \<longleftrightarrow> u_log u \<le> ?T"
        using T unat_of_nat_lt[of "max (u_log u) ?T", where 'a = 32] by (auto simp: max_def word_unat_eq_iff)
      obtain r where r: "try_compute_tx_root ?txs = Some (Inr r)" using tx_root_layout[OF wf L] by auto
      have found: "block_step u b w \<longleftrightarrow> u_log u \<le> ?T \<and> w = u' \<and> tx_root ?h = r \<and> state_root ?h = utxo_root u' \<and>
        unat (hdr_active_slot_count ?h) = u_active u' \<and> unat (hdr_alloc_counter ?h) = u_alloc u'" for w
        using Some dist unfolding step r by (cases "u_log u \<le> ?T") (auto simp: max_def split: if_splits)
      show ?thesis unfolding run ok found
        by (simp add: cs1(1) sealed_outcome_def cs2 r counters depth root)
    qed
  qed
qed

lemma apply_block_accepts:
  assumes "chain_repr cs u" "list_all wf_body (blk_transactions b)" "unat (hdr_log_slots (blk_header b)) \<le> 32"
    and "list_all (resident_at (ss_evicted (cs_state cs)) (max (u_log u) (unat (hdr_log_slots (blk_header b))))) (blk_transactions b)"
  shows "block_step u b u' \<Longrightarrow> \<exists>cs'. apply_block b cs = Some (Inr (utxo_root u', cs')) \<and> chain_repr cs' u'"
    and "\<nexists>u'. block_step u b u' \<Longrightarrow> \<exists>e. apply_block b cs = Some (Inl e)"
proof -
  note A = apply_block_outcome[OF assms]
  have uniq: "block_step u b v \<Longrightarrow> block_step u b w \<Longrightarrow> v = w" for v w by (auto simp: block_step_def)
  obtain r where r: "apply_block b cs = Some r" using A by (cases "apply_block b cs") auto
  show "\<exists>cs'. apply_block b cs = Some (Inr (utxo_root u', cs')) \<and> chain_repr cs' u'" if step: "block_step u b u'"
  proof (cases r)
    case (Inl e)
    then show ?thesis using A step by (simp add: r)
  next
    case (Inr p)
    then obtain v where "block_step u b v" "fst p = utxo_root v" "chain_repr (snd p) v" using A by (auto simp: r split: prod.splits)
    then show ?thesis using uniq[OF step] r Inr by (cases p) auto
  qed
  show "\<exists>e. apply_block b cs = Some (Inl e)" if "\<nexists>u'. block_step u b u'"
    using that A by (cases r) (auto simp: r)
qed

section \<open>Supply\<close>

abbreviation group_fee :: "tx_page list \<Rightarrow> nat" where
  "group_fee g \<equiv> unat (fee (page_body (g ! 0)))"

lemma utxo_block_log: "utxo_block h txs u = Some u' \<Longrightarrow> u_log u' = u_log u"
  by (induction txs arbitrary: u) (auto simp: utxo_after_def split: if_splits)

lemma utxo_block_supply:
  "utxo_block h txs u = Some u' \<Longrightarrow>
    slot_total (u_log u) (u_slots u') + sum_list (map input_total txs) = slot_total (u_log u) (u_slots u) + sum_list (map output_total txs)"
proof (induction txs arbitrary: u)
  case (Cons tx txs)
  then have acc: "utxo_accepts u tx (Some h)" and rest: "utxo_block h txs (utxo_after u tx (Some h)) = Some u'" by (auto split: if_splits)
  show ?case using Cons.IH[OF rest] supply_change[OF acc] by (simp add: utxo_after_def)
qed simp

lemma group_totals:
  "sum_list (map (input_total \<circ> page_body) ps) = sum_list (map (\<lambda>i. unat (in_amount i)) (group_inputs ps))"
  "sum_list (map (output_total \<circ> page_body) ps) = sum_list (map (\<lambda>i. unat (out_amount i)) (group_outputs ps))"
  by (induction ps) (simp_all add: input_total_def output_total_def comp_def flip: live_lane_values)

lemma stream_balance:
  "list_all canonical_group gs \<Longrightarrow>
    sum_list (map (input_total \<circ> page_body) (concat gs)) = sum_list (map (output_total \<circ> page_body) (concat gs)) + sum_list (map group_fee gs)"
  by (induction gs) (simp_all add: canonical_group_def group_totals)

lemma no_inputs_total: "live_input_count body = 0 \<Longrightarrow> wf_body body \<Longrightarrow> input_total body = 0"
  using live_inputs_Nil_iff[of body] by (simp add: input_total_def live_input_count_0_iff wf_body_def TX_INPUTS_def)

lemma block_supply:
  assumes wf: "list_all wf_body (blk_transactions b)" and step: "block_step u b u'" and L: "block_layout (blk_transactions b) cb sys gs"
    and high: "\<And>k. 2 ^ u_log u \<le> k \<Longrightarrow> u_slots u k = EMPTY"
  shows "slot_total (u_log u') (u_slots u') + sum_list (map group_fee gs) =
    slot_total (u_log u) (u_slots u) + output_total cb + sum_list (map output_total sys)"
proof -
  let ?T = "unat (hdr_log_slots (blk_header b))" and ?txs = "blk_transactions b"
  have run: "utxo_block (hdr_height (blk_header b)) ?txs (u\<lparr> u_log := ?T \<rparr>) = Some u'" and le: "u_log u \<le> ?T"
    using step block_step_iff[OF wf L] by auto
  have txs: "?txs = cb # sys @ map page_body (concat gs)" and groups: "list_all canonical_group gs"
    and shapes: "is_primary_coinbase_shape cb" "list_all is_development_payout_shape sys"
    using L by (simp_all add: block_layout_def canonical_stream_def)
  have "sum_list (map input_total (cb # sys)) = 0"
    using wf shapes by (auto simp: txs list_all_iff no_inputs_total primary_no_inputs)
  then have "sum_list (map input_total ?txs) + output_total cb + sum_list (map output_total sys) =
      sum_list (map output_total ?txs) + sum_list (map group_fee gs)"
    using stream_balance[OF groups] by (simp add: txs)
  moreover have "slot_total ?T (u_slots u) = slot_total (u_log u) (u_slots u)" by (rule slot_total_extend[OF le high])
  ultimately show ?thesis using utxo_block_supply[OF run] utxo_block_log[OF run] by simp
qed

section \<open>Properties\<close>

definition example_block :: block where
  "example_block =
    (let u = utxo_after (empty_ledger 4) example_mint (Some 1)
     in \<lparr> blk_header = example_header \<lparr> hdr_height := 1, hdr_log_slots := 4, state_root := utxo_root u,
            tx_root := the (root_from_hashes [txid example_mint]), hdr_active_slot_count := of_nat (u_active u),
            hdr_alloc_counter := of_nat (u_alloc u) \<rparr>,
          blk_transactions = [example_mint] \<rparr>)"

lemma example_block_step: "block_step (empty_ledger 4) example_block (utxo_after (empty_ledger 4) example_mint (Some 1))"
proof -
  have acc: "utxo_accepts (empty_ledger 4) example_mint (Some 1)" by (rule accepts_example_mint) simp
  have up: "(empty_ledger 4)\<lparr> u_log := unat (4 :: u32) \<rparr> = empty_ledger 4" by (simp add: empty_ledger_def)
  have d: "distinct (body_slots example_mint)" using acc by (simp add: utxo_accepts_def)
  have layout: "block_layout [example_mint] example_mint [] []"
    by (simp add: block_layout_def canonical_stream_def is_primary_coinbase_shape_def example_mint_def output_bitmap_bit_def TX_INPUTS_def)
  have root: "root_from_hashes [txid example_mint] \<noteq> None"
    using tx_root_layout(2)[OF _ layout] wf_example_mint by simp
  show ?thesis
    unfolding block_step_def
    by (intro exI[of _ example_mint] exI[of _ "[]"])
      (use acc d layout root canonical_example_mint in \<open>auto simp: example_block_def Let_def up unsigned_of_nat utxo_after_def empty_ledger_def live_example_mint\<close>)
qed



end
