(* ===== verification/Fees.thy ===== *)
theory Fees
  imports Params Tx
begin

text \<open>
  The deterministic fee model (\<open>consensus/fees.rs\<close>): a base component, small
  per-input and per-output components, and an occupancy-scaled charge for
  net-new slots that consensus burns.  The lemmas give the formulas over the
  naturals on the counts a transaction can have, where nothing saturates.
\<close>

definition PRESSURE_LOW_BPS :: u64 where "PRESSURE_LOW_BPS = 5000"
definition PRESSURE_HIGH_BPS :: u64 where "PRESSURE_HIGH_BPS = 7500"
definition PRESSURE_EXTREME_BPS :: u64 where "PRESSURE_EXTREME_BPS = 9000"

record fee_breakdown_t =
  fb_base :: u64
  fb_input :: u64
  fb_output :: u64
  fb_io :: u64
  fb_state_growth :: u64
  fb_required_total :: u64
  fb_burned :: u64

definition tx_live_counts :: "tx_body \<Rightarrow> u64 \<times> u64" where
  "tx_live_counts body = (of_nat (live_input_count body), of_nat (live_output_count body))"

definition occupancy_bps :: "u64 \<Rightarrow> u32 \<Rightarrow> u64" where
  "occupancy_bps active_slot_count log_slots =
    (let capacity = max (if unat log_slots < 128 then push_bit (unat log_slots) 1 else word_max) 1
     in ucast (saturating_mul (ucast active_slot_count :: u128) 10000 div capacity))"

definition pressure_multiplier :: "u64 \<Rightarrow> u32 \<Rightarrow> u64" where
  "pressure_multiplier active_slot_count log_slots =
    (let bps = occupancy_bps active_slot_count log_slots
     in if bps \<ge> PRESSURE_EXTREME_BPS then 8
        else if bps \<ge> PRESSURE_HIGH_BPS then 4
        else if bps \<ge> PRESSURE_LOW_BPS then 2
        else 1)"

definition state_growth_fee_per_slot :: "u64 \<Rightarrow> u32 \<Rightarrow> u64" where
  "state_growth_fee_per_slot active_slot_count log_slots =
    saturating_mul STATE_GROWTH_FEE_BASE (pressure_multiplier active_slot_count log_slots)"

definition fee_breakdown :: "u64 \<Rightarrow> u64 \<Rightarrow> u64 \<Rightarrow> u32 \<Rightarrow> fee_breakdown_t" where
  "fee_breakdown n_inputs n_outputs active_slot_count log_slots =
    (let net_new_slots = saturating_sub n_outputs n_inputs;
         base = MIN_FEE_BASE;
         inp = saturating_mul FEE_PER_INPUT n_inputs;
         out = saturating_mul FEE_PER_OUTPUT n_outputs;
         io = saturating_add inp out;
         state_growth = saturating_mul (state_growth_fee_per_slot active_slot_count log_slots) net_new_slots;
         required_total = saturating_add (saturating_add base io) state_growth
     in \<lparr> fb_base = base, fb_input = inp, fb_output = out, fb_io = io, fb_state_growth = state_growth,
          fb_required_total = required_total, fb_burned = state_growth \<rparr>)"

definition fee_breakdown_for_tx_body :: "tx_body \<Rightarrow> u64 \<Rightarrow> u32 \<Rightarrow> fee_breakdown_t" where
  "fee_breakdown_for_tx_body body active_slot_count log_slots =
    (let (n_inputs, n_outputs) = tx_live_counts body
     in fee_breakdown n_inputs n_outputs active_slot_count log_slots)"

definition required_fee_for_tx_body :: "tx_body \<Rightarrow> u64 \<Rightarrow> u32 \<Rightarrow> u64" where
  "required_fee_for_tx_body body active_slot_count log_slots =
    fb_required_total (fee_breakdown_for_tx_body body active_slot_count log_slots)"

definition burned_fee_for_tx_body :: "tx_body \<Rightarrow> u64 \<Rightarrow> u32 \<Rightarrow> u64" where
  "burned_fee_for_tx_body body active_slot_count log_slots =
    fb_burned (fee_breakdown_for_tx_body body active_slot_count log_slots)"

definition claimable_fee_for_tx_body :: "tx_body \<Rightarrow> u64 \<Rightarrow> u32 \<Rightarrow> u64" where
  "claimable_fee_for_tx_body body active_slot_count log_slots =
    (if is_coinbase body then 0
     else saturating_sub (fee body) (burned_fee_for_tx_body body active_slot_count log_slots))"

section \<open>The formulas over the naturals\<close>

lemma pressure_multiplier_cases:
  "unat (pressure_multiplier a l) \<in> {1, 2, 4, 8}"
  by (simp add: pressure_multiplier_def Let_def)

lemma fee_breakdown_value:
  assumes "unat n_in \<le> 2 ^ 32" "unat n_out \<le> 2 ^ 32"
  shows "unat (fb_burned (fee_breakdown n_in n_out a l)) =
      2500 * unat (pressure_multiplier a l) * (unat n_out - unat n_in)"
    and "unat (fb_required_total (fee_breakdown n_in n_out a l)) =
      5000 + 100 * unat n_in + 700 * unat n_out +
      2500 * unat (pressure_multiplier a l) * (unat n_out - unat n_in)"
proof -
  let ?m = "unat (pressure_multiplier a l)"
  have m: "?m \<le> 8" using pressure_multiplier_cases[of a l] by auto
  have "2500 * ?m * (unat n_out - unat n_in) \<le> 2500 * 8 * 2 ^ 32"
    using m assms by (intro mult_le_mono) simp_all
  then have growth: "2500 * ?m * (unat n_out - unat n_in) \<le> 20000 * 2 ^ 32" by simp
  have per: "unat (state_growth_fee_per_slot a l) = 2500 * ?m"
    using m by (simp add: state_growth_fee_per_slot_def unat_saturating_mul STATE_GROWTH_FEE_BASE_def)
  show burned: "unat (fb_burned (fee_breakdown n_in n_out a l)) = 2500 * ?m * (unat n_out - unat n_in)"
    using growth
    by (simp add: fee_breakdown_def Let_def unat_saturating_mul unat_saturating_sub per)
  show "unat (fb_required_total (fee_breakdown n_in n_out a l)) =
      5000 + 100 * unat n_in + 700 * unat n_out + 2500 * ?m * (unat n_out - unat n_in)"
    using growth assms
    by (simp add: fee_breakdown_def Let_def unat_saturating_mul unat_saturating_sub unat_saturating_add
        per MIN_FEE_BASE_def FEE_PER_INPUT_def FEE_PER_OUTPUT_def)
qed

text \<open>A transaction that does not grow the live set burns nothing.\<close>

lemma no_growth_no_burn:
  "n_out \<le> n_in \<Longrightarrow> fb_burned (fee_breakdown n_in n_out a l) = 0"
  by (simp add: fee_breakdown_def Let_def saturating_sub_def saturating_mul_def word_unat_eq_iff
      unat_simps word_le_nat_alt)

end
