(* ===== verification/Emission.thy ===== *)
theory Emission
  imports Fees
begin

text \<open>
  Block subsidy (\<open>consensus/emission.rs\<close>) and the three-year development
  allocation (\<open>consensus/development_allocation.rs\<close>) carved out of it, legacy and
  version-2 rules.  The allocation is total on the release schedule, splits each
  subsidy exactly, and over any chain whose state depth never shrinks the
  payouts never exceed the shares withheld from the miners.
\<close>

section \<open>Block reward\<close>

definition V2_REWARD_INTERVAL_BLOCKS :: u64 where "V2_REWARD_INTERVAL_BLOCKS = 1051200"

definition V2_REWARDS_MICRONOID :: "u64 list" where
  "V2_REWARDS_MICRONOID =
    [16000000, 11300000, 8000000, 5650000, 4000000, 2830000, 2000000, 1410000, 1000000]"

definition v2_block_reward_at_elapsed :: "u64 \<Rightarrow> u64" where
  "v2_block_reward_at_elapsed elapsed_blocks =
    (let epoch = min (elapsed_blocks div V2_REWARD_INTERVAL_BLOCKS)
                   (of_nat (length V2_REWARDS_MICRONOID - 1))
     in V2_REWARDS_MICRONOID ! unat epoch)"

definition block_reward :: "u32 \<Rightarrow> u64" where
  "block_reward log_slots =
    (let expansions = unat (saturating_sub log_slots LOG_SLOTS_GENESIS)
     in max (if expansions < 64 then drop_bit expansions BASE_REWARD_MICRONOID else 0)
          FLOOR_REWARD_MICRONOID)"

definition block_reward_with_schedule :: "u64 \<Rightarrow> u32 \<Rightarrow> fork_schedule \<Rightarrow> u64" where
  "block_reward_with_schedule height log_slots schedule =
    (case sched_v2 schedule of
       Some activation \<Rightarrow>
         if height \<ge> v2_height activation
         then v2_block_reward_at_elapsed (height - v2_height activation)
         else block_reward log_slots
     | None \<Rightarrow> block_reward log_slots)"

definition block_reward_at_height :: "u64 \<Rightarrow> u32 \<Rightarrow> u64" where
  "block_reward_at_height height log_slots = block_reward_with_schedule height log_slots ACTIVE_SCHEDULE"

section \<open>Development allocation\<close>

definition TARGET_BLOCKS_PER_DAY :: u64 where "TARGET_BLOCKS_PER_DAY = 24 * 60 * 60 div BLOCK_TIME"
definition DEVELOPMENT_ALLOCATION_END_HEIGHT :: u64 where
  "DEVELOPMENT_ALLOCATION_END_HEIGHT = TARGET_BLOCKS_PER_DAY * 365 * 3"
definition DEVELOPMENT_ALLOCATION_DURATION_SECONDS :: u64 where
  "DEVELOPMENT_ALLOCATION_DURATION_SECONDS = 86400 * 365 * 3"
definition DEVELOPMENT_SHARE_DENOMINATOR :: u64 where "DEVELOPMENT_SHARE_DENOMINATOR = 20"

definition O1_NETWORK_FUND_ADDRESS :: address where
  "O1_NETWORK_FUND_ADDRESS =
    [0x1c, 0x5b, 0x23, 0x74, 0x54, 0xad, 0xab, 0xeb, 0x0e, 0x95, 0x37, 0xb5, 0x87, 0x02, 0xd7, 0xfe,
     0x8c, 0x0e, 0x63, 0x30, 0xc3, 0x0b, 0x58, 0xee, 0x9b, 0x3f, 0x19, 0x8a, 0x3b, 0x46, 0xf6, 0x78]"

definition PARANO1D_LAB_ADDRESS :: address where
  "PARANO1D_LAB_ADDRESS =
    [0x36, 0x24, 0xd0, 0xc7, 0x8d, 0x0d, 0x20, 0x87, 0x61, 0x93, 0xdc, 0xbf, 0xc2, 0xc2, 0x91, 0xe5,
     0x52, 0x6a, 0x6e, 0x37, 0x08, 0x38, 0xc4, 0x3f, 0x99, 0xda, 0x82, 0x35, 0x6c, 0x63, 0x2b, 0x40]"

record development_allocation_t =
  da_active :: bool
  da_payout_due :: bool
  da_share_each :: u64
  da_payout_each :: "u64 option"
  da_miner_subsidy :: u64

datatype development_allocation_error =
    InexactRewardShare
  | PayoutOverflow
  | InexactInterval

definition development_allocation_end_height_with_schedule :: "fork_schedule \<Rightarrow> u64" where
  "development_allocation_end_height_with_schedule schedule =
    (case sched_v2 schedule of
       None \<Rightarrow> DEVELOPMENT_ALLOCATION_END_HEIGHT
     | Some at \<Rightarrow>
         if v2_height at > DEVELOPMENT_ALLOCATION_END_HEIGHT then DEVELOPMENT_ALLOCATION_END_HEIGHT
         else
           let legacy_blocks = v2_height at - 1;
               remaining = DEVELOPMENT_ALLOCATION_DURATION_SECONDS - legacy_blocks * BLOCK_TIME
           in legacy_blocks + remaining div v2_block_time at)"

definition development_allocation_active :: "u64 \<Rightarrow> bool" where
  "development_allocation_active height \<longleftrightarrow>
    height > 0 \<and> height \<le> DEVELOPMENT_ALLOCATION_END_HEIGHT"

definition development_payout_due :: "u64 \<Rightarrow> bool" where
  "development_payout_due height \<longleftrightarrow>
    development_allocation_active height \<and> height mod TARGET_BLOCKS_PER_DAY = 0"

definition development_share_each :: "u64 \<Rightarrow> development_allocation_error + u64" where
  "development_share_each subsidy =
    (if subsidy mod DEVELOPMENT_SHARE_DENOMINATOR \<noteq> 0 then Inl InexactRewardShare
     else Inr (subsidy div DEVELOPMENT_SHARE_DENOMINATOR))"

definition inactive_allocation :: "u64 \<Rightarrow> development_allocation_t" where
  "inactive_allocation subsidy =
    \<lparr> da_active = False, da_payout_due = False, da_share_each = 0, da_payout_each = None,
      da_miner_subsidy = subsidy \<rparr>"

definition development_allocation ::
  "u64 \<Rightarrow> u32 \<Rightarrow> development_allocation_error + development_allocation_t" where
  "development_allocation child_height child_log_slots =
    (let subsidy = block_reward child_log_slots
     in if \<not> development_allocation_active child_height then Inr (inactive_allocation subsidy)
        else
          bind_res (development_share_each subsidy) (\<lambda>share_each.
          let payout_due = development_payout_due child_height
          in bind_res
               (if payout_due
                then map_sum id Some (ok_or PayoutOverflow (checked_mul share_each TARGET_BLOCKS_PER_DAY))
                else Inr None) (\<lambda>payout_each.
             Inr \<lparr> da_active = True, da_payout_due = payout_due, da_share_each = share_each,
                   da_payout_each = payout_each, da_miner_subsidy = subsidy - 2 * share_each \<rparr>)))"

definition development_allocation_with_schedule ::
  "u64 \<Rightarrow> u32 \<Rightarrow> fork_schedule \<Rightarrow> development_allocation_error + development_allocation_t" where
  "development_allocation_with_schedule height log_slots schedule =
    (case sched_v2 schedule of
       None \<Rightarrow> development_allocation height log_slots
     | Some at \<Rightarrow>
         if \<not> height \<ge> v2_height at then development_allocation height log_slots
         else if 86400 mod v2_block_time at \<noteq> 0 then Inl InexactInterval
         else
           let subsidy = block_reward_with_schedule height log_slots schedule;
               end_height = development_allocation_end_height_with_schedule schedule
           in if height > end_height then Inr (inactive_allocation subsidy)
              else
                bind_res (development_share_each subsidy) (\<lambda>share_each.
                let interval = 86400 div v2_block_time at;
                    elapsed = height - (v2_height at - 1);
                    count = (if height = v2_height at then None
                             else if elapsed mod interval = 0 then Some interval
                             else if height = end_height then Some (elapsed mod interval)
                             else None)
                in bind_res
                     (case count of
                        None \<Rightarrow> Inr None
                      | Some c \<Rightarrow> map_sum id Some (ok_or PayoutOverflow (checked_mul share_each c))) (\<lambda>payout_each.
                   Inr \<lparr> da_active = True, da_payout_due = (count \<noteq> None), da_share_each = share_each,
                         da_payout_each = payout_each, da_miner_subsidy = subsidy - 2 * share_each \<rparr>)))"

definition development_allocation_at_height ::
  "u64 \<Rightarrow> u32 \<Rightarrow> development_allocation_error + development_allocation_t" where
  "development_allocation_at_height height log_slots =
    development_allocation_with_schedule height log_slots ACTIVE_SCHEDULE"

text \<open>The \<open>expect\<close> of the release accessors is the value \<open>None\<close>.\<close>

definition ok_value :: "'e + 'a \<Rightarrow> 'a option" where
  "ok_value r = (case r of Inl _ \<Rightarrow> None | Inr x \<Rightarrow> Some x)"

section \<open>The coinbase ceiling\<close>

definition max_coinbase_value_from_claimable_fee_sum_with_schedule ::
  "u64 \<Rightarrow> u32 \<Rightarrow> u128 \<Rightarrow> fork_schedule \<Rightarrow> development_allocation_error + u128" where
  "max_coinbase_value_from_claimable_fee_sum_with_schedule child_height child_log_slots claimable_fee_sum schedule =
    bind_res (development_allocation_with_schedule child_height child_log_slots schedule) (\<lambda>allocation.
    Inr (ucast (da_miner_subsidy allocation) + claimable_fee_sum))"

definition max_coinbase_value_from_claimable_fee_sum :: "u64 \<Rightarrow> u32 \<Rightarrow> u128 \<Rightarrow> u128 option" where
  "max_coinbase_value_from_claimable_fee_sum child_height child_log_slots claimable_fee_sum =
    ok_value (max_coinbase_value_from_claimable_fee_sum_with_schedule
      child_height child_log_slots claimable_fee_sum ACTIVE_SCHEDULE)"

section \<open>Rewards over the naturals\<close>

lemma block_reward_eq:
  "unat (block_reward ls) =
    (let e = unat ls - 24 in if e < 6 then 50000000 div 2 ^ e else 1000000)"
proof -
  have small: "50000000 div 2 ^ e \<le> (1000000 :: nat)" if "6 \<le> e" for e :: nat
  proof -
    have "50000000 div 2 ^ e \<le> 50000000 div (2 ^ 6 :: nat)"
      using that by (intro div_le_mono2 power_increasing) auto
    then show ?thesis by simp
  qed
  define e where "e = unat ls - 24"
  have u: "unat (saturating_sub ls LOG_SLOTS_GENESIS) = e"
    by (simp add: unat_simps LOG_SLOTS_GENESIS_def e_def)
  have m: "unat (max a b) = max (unat a) (unat b)" for a b :: u64
    by (simp add: max_def word_le_nat_alt)
  consider "e = 0" | "e = 1" | "e = 2" | "e = 3" | "e = 4" | "e = 5" | "6 \<le> e" by linarith
  then show ?thesis
    unfolding block_reward_def u Let_def e_def[symmetric]
    by cases
       (use small[of e] in \<open>simp_all add: m unat_drop_bit BASE_REWARD_MICRONOID_def FLOOR_REWARD_MICRONOID_def
         MICRONOID_PER_NOID_def\<close>)
qed

lemma block_reward_cases:
  "unat (block_reward ls) \<in> {50000000, 25000000, 12500000, 6250000, 3125000, 1562500, 1000000}"
proof -
  define e where "e = unat ls - 24"
  consider "e = 0" | "e = 1" | "e = 2" | "e = 3" | "e = 4" | "e = 5" | "6 \<le> e" by linarith
  then show ?thesis
    unfolding block_reward_eq Let_def e_def[symmetric] by cases auto
qed

lemma block_reward_antimono:
  assumes "ls \<le> ls'" shows "unat (block_reward ls') \<le> unat (block_reward ls)"
proof -
  define e e' where "e = unat ls - 24" and "e' = unat ls' - 24"
  have le: "e \<le> e'" using assms by (auto simp: e_def e'_def word_le_nat_alt)
  have floor: "1000000 \<le> unat (block_reward ls)" using block_reward_cases[of ls] by auto
  show ?thesis
  proof (cases "e' < 6")
    case True
    have "50000000 div 2 ^ e' \<le> 50000000 div (2 ^ e :: nat)"
      using le by (intro div_le_mono2 power_increasing) auto
    then show ?thesis
      using True le by (simp add: block_reward_eq Let_def e_def[symmetric] e'_def[symmetric])
  next
    case False
    then show ?thesis using floor by (simp add: block_reward_eq[of ls'] Let_def e'_def[symmetric])
  qed
qed

lemma unat_v2_reward:
  "unat (v2_block_reward_at_elapsed e) =
    [16000000, 11300000, 8000000, 5650000, 4000000, 2830000, 2000000, 1410000, 1000000]
      ! min (unat e div 1051200) 8"
proof -
  define k where "k = min (unat e div 1051200) 8"
  have "unat (min (e div V2_REWARD_INTERVAL_BLOCKS) (of_nat (length V2_REWARDS_MICRONOID - 1))) = k"
    by (auto simp: k_def min_def word_le_nat_alt unat_div V2_REWARD_INTERVAL_BLOCKS_def V2_REWARDS_MICRONOID_def)
  moreover have "k = 0 \<or> k = 1 \<or> k = 2 \<or> k = 3 \<or> k = 4 \<or> k = 5 \<or> k = 6 \<or> k = 7 \<or> k = 8"
    using min.cobounded2[of "unat e div 1051200" 8] unfolding k_def[symmetric] by linarith
  ultimately show ?thesis
    unfolding v2_block_reward_at_elapsed_def Let_def k_def[symmetric]
    by (auto simp: V2_REWARDS_MICRONOID_def)
qed

lemma v2_reward_table_antimono:
  assumes "i \<le> j" "j \<le> 8"
  shows "[16000000, 11300000, 8000000, 5650000, 4000000, 2830000, 2000000, 1410000, 1000000 :: nat] ! j
    \<le> [16000000, 11300000, 8000000, 5650000, 4000000, 2830000, 2000000, 1410000, 1000000] ! i"
proof -
  have "j = 0 \<or> j = 1 \<or> j = 2 \<or> j = 3 \<or> j = 4 \<or> j = 5 \<or> j = 6 \<or> j = 7 \<or> j = 8"
    using assms by auto
  moreover have "i = 0 \<or> i = 1 \<or> i = 2 \<or> i = 3 \<or> i = 4 \<or> i = 5 \<or> i = 6 \<or> i = 7 \<or> i = 8"
    using assms by auto
  ultimately show ?thesis using assms(1) by (elim disjE) simp_all
qed

lemma v2_block_reward_antimono:
  "e \<le> e' \<Longrightarrow> unat (v2_block_reward_at_elapsed e') \<le> unat (v2_block_reward_at_elapsed e)"
  unfolding unat_v2_reward
  by (rule v2_reward_table_antimono) (auto simp: word_le_nat_alt min_def div_le_mono intro: order_trans)

lemma v2_block_reward_cases:
  "unat (v2_block_reward_at_elapsed e)
    \<in> {16000000, 11300000, 8000000, 5650000, 4000000, 2830000, 2000000, 1410000, 1000000}"
proof -
  define k where "k = min (unat e div 1051200) 8"
  have "k = 0 \<or> k = 1 \<or> k = 2 \<or> k = 3 \<or> k = 4 \<or> k = 5 \<or> k = 6 \<or> k = 7 \<or> k = 8"
    using min.cobounded2[of "unat e div 1051200" 8] unfolding k_def[symmetric] by linarith
  then show ?thesis unfolding unat_v2_reward k_def[symmetric] by auto
qed

section \<open>The allocation on the release schedule\<close>

text \<open>
  The share of a block, the number of blocks a payout settles and the number of
  blocks still unsettled after it, by height.
\<close>

definition release_end :: nat where "release_end = 3223778"

definition share_of :: "u64 \<Rightarrow> u32 \<Rightarrow> nat" where
  "share_of h ls =
    (if 0 < unat h \<and> unat h \<le> release_end then unat (block_reward_at_height h ls) div 20 else 0)"

definition settled :: "nat \<Rightarrow> nat" where
  "settled h =
    (if h = 0 \<or> h = 210537 \<or> release_end < h then 0
     else if h < 210537 then (if h mod 4320 = 0 then 4320 else 0)
     else if (h - 210536) mod 2880 = 0 then 2880
     else if h = release_end then (h - 210536) mod 2880
     else 0)"

definition unsettled :: "nat \<Rightarrow> nat" where
  "unsettled h =
    (if h < 210537 then h mod 4320
     else if h < release_end then (h - 210536) mod 2880
     else 0)"

lemma release_activation: "sched_v2 ACTIVE_SCHEDULE = Some \<lparr> v2_height = 210537, v2_block_time = 30 \<rparr>"
  by (simp add: ACTIVE_SCHEDULE_def V2_ACTIVATION_HEIGHT_def MAINNET_V2_ACTIVATION_HEIGHT_def
      V2_BLOCK_TIME_def v2_activation_new_def)

lemma release_reward:
  "block_reward_at_height h ls =
    (if 210537 \<le> h then v2_block_reward_at_elapsed (h - 210537) else block_reward ls)"
  by (simp add: block_reward_at_height_def block_reward_with_schedule_def release_activation)

lemma release_reward_cases:
  "unat (block_reward_at_height h ls) \<in>
    {50000000, 25000000, 12500000, 6250000, 3125000, 1562500, 1000000} \<union>
    {16000000, 11300000, 8000000, 5650000, 4000000, 2830000, 2000000, 1410000, 1000000}"
  using block_reward_cases[of ls] v2_block_reward_cases[of "h - 210537"]
  by (simp only: release_reward Un_iff split: if_split) blast

lemma release_reward_bounds:
  "unat (block_reward_at_height h ls) \<le> 50000000" "20 dvd unat (block_reward_at_height h ls)"
  using release_reward_cases[of h ls] by auto

lemma release_end_height:
  "development_allocation_end_height_with_schedule ACTIVE_SCHEDULE = 3223778"
  by (simp add: development_allocation_end_height_with_schedule_def release_activation
      DEVELOPMENT_ALLOCATION_END_HEIGHT_def TARGET_BLOCKS_PER_DAY_def BLOCK_TIME_def
      DEVELOPMENT_ALLOCATION_DURATION_SECONDS_def)

lemma share_each_exact:
  fixes s :: u64
  assumes "20 dvd unat s"
  shows "development_share_each s = Inr (s div 20)" "unat (s div 20) = unat s div 20"
    "unat (s - 2 * (s div 20)) + 2 * (unat s div 20) = unat s"
proof -
  have "unat (s mod 20) = 0" using assms by (simp add: unat_mod)
  then show "development_share_each s = Inr (s div 20)"
    by (simp add: development_share_each_def DEVELOPMENT_SHARE_DENOMINATOR_def unat_eq_zero)
  show d: "unat (s div 20) = unat s div 20" by (simp add: unat_div)
  have lt: "2 * (unat s div 20) < 2 ^ 64" using unat_lt_pow[of s] by simp
  then have two: "unat (2 * (s div 20)) = 2 * (unat s div 20)"
    using d by (subst unat_times_lt) auto
  then have "2 * (s div 20) \<le> s" by (simp add: word_le_nat_alt)
  then show "unat (s - 2 * (s div 20)) + 2 * (unat s div 20) = unat s"
    using two by (simp add: unat_minus_le)
qed

lemma payout_fits:
  fixes s c :: u64
  assumes "unat s \<le> 50000000" "unat c \<le> 4320"
  shows "checked_mul (s div 20) c = Some (s div 20 * c)" "unat (s div 20 * c) = (unat s div 20) * unat c"
proof -
  have "(unat s div 20) * unat c \<le> 50000000 * 4320"
    using assms by (intro mult_mono) auto
  then have "unat (s div 20) * unat c < 2 ^ 64" by (simp add: unat_div)
  then show "checked_mul (s div 20) c = Some (s div 20 * c)" "unat (s div 20 * c) = (unat s div 20) * unat c"
    by (simp_all add: checked_mul_def unat_times_lt unat_div)
qed

definition paid_each :: "development_allocation_t \<Rightarrow> nat" where
  "paid_each a = (case da_payout_each a of None \<Rightarrow> 0 | Some p \<Rightarrow> unat p)"

definition exact_allocation :: "u64 \<Rightarrow> u32 \<Rightarrow> development_allocation_t \<Rightarrow> bool" where
  "exact_allocation h ls a \<longleftrightarrow>
    unat (da_share_each a) = share_of h ls \<and>
    unat (da_miner_subsidy a) + 2 * share_of h ls = unat (block_reward_at_height h ls) \<and>
    paid_each a = settled (unat h) * share_of h ls \<and>
    (da_payout_due a \<longleftrightarrow> da_payout_each a \<noteq> None)"

lemma legacy_allocation:
  assumes "unat h < 210537"
  shows "\<exists>a. development_allocation h ls = Inr a \<and> exact_allocation h ls a"
proof -
  define s where "s = block_reward ls"
  have r: "block_reward_at_height h ls = s"
    using assms by (simp add: release_reward s_def word_le_nat_alt)
  note share = share_each_exact[OF release_reward_bounds(2)[of h ls], unfolded r]
  note pay = payout_fits[OF release_reward_bounds(1)[of h ls, unfolded r], of 4320, simplified]
  have active: "development_allocation_active h \<longleftrightarrow> 0 < unat h"
    using assms by (auto simp: development_allocation_active_def DEVELOPMENT_ALLOCATION_END_HEIGHT_def
        TARGET_BLOCKS_PER_DAY_def BLOCK_TIME_def word_le_nat_alt word_less_nat_alt)
  have due: "h mod TARGET_BLOCKS_PER_DAY = 0 \<longleftrightarrow> unat h mod 4320 = 0"
    by (simp add: TARGET_BLOCKS_PER_DAY_def BLOCK_TIME_def word_unat_eq_iff unat_mod)
  have day: "TARGET_BLOCKS_PER_DAY = 4320" by (simp add: TARGET_BLOCKS_PER_DAY_def BLOCK_TIME_def)
  have so: "share_of h ls = (if 0 < unat h then unat s div 20 else 0)"
    using assms by (simp add: share_of_def r release_end_def)
  have st: "settled (unat h) = (if 0 < unat h \<and> unat h mod 4320 = 0 then 4320 else 0)"
    using assms by (simp add: settled_def release_end_def)
  show ?thesis
    unfolding development_allocation_def Let_def s_def[symmetric] share development_payout_due_def active due
    by (simp add: exact_allocation_def r so st share pay inactive_allocation_def paid_each_def day)
qed

lemma v2_allocation:
  assumes "210537 \<le> unat h"
  shows "\<exists>a. development_allocation_at_height h ls = Inr a \<and> exact_allocation h ls a"
proof -
  define s where "s = block_reward_at_height h ls"
  define e where "e = unat h - 210536"
  define c :: "u64 option" where "c = (if h = 210537 then None
    else if (h - 210536) mod 2880 = 0 then Some 2880
    else if h = 3223778 then Some ((h - 210536) mod 2880) else None)"
  note share = share_each_exact[OF release_reward_bounds(2)[of h ls], folded s_def]
  note pay = payout_fits[OF release_reward_bounds(1)[of h ls, folded s_def]]
  have e: "unat (h - 210536) = e" using assms by (simp add: unat_minus_le word_le_nat_alt e_def)
  have em: "unat ((h - 210536) mod 2880) = e mod 2880" by (simp add: unat_mod e)
  have eq: "h = 210537 \<longleftrightarrow> unat h = 210537" "h = 3223778 \<longleftrightarrow> unat h = 3223778"
    "(h - 210536) mod 2880 = 0 \<longleftrightarrow> e mod 2880 = 0"
    by (simp_all add: word_unat_eq_iff em)
  have count: "(case c of None \<Rightarrow> 0 | Some k \<Rightarrow> unat k) = settled (unat h)" if "unat h \<le> 3223778"
    using that assms em by (simp add: c_def settled_def eq release_end_def e_def)
  have small: "unat k \<le> 4320" if "c = Some k" for k
    using that em by (auto simp: c_def split: if_splits)
  have le: "h \<ge> 210537" using assms by (simp add: word_le_nat_alt)
  show ?thesis
  proof (cases "unat h \<le> 3223778")
    case False
    then have "share_of h ls = 0" "\<not> h \<le> 3223778" by (simp_all add: share_of_def release_end_def word_le_nat_alt)
    moreover have "settled (unat h) = 0" using False assms by (simp add: settled_def release_end_def)
    ultimately show ?thesis using le
      by (simp add: development_allocation_at_height_def development_allocation_with_schedule_def
          release_activation release_end_height block_reward_at_height_def exact_allocation_def
          inactive_allocation_def paid_each_def not_le)
  next
    case True
    then have so: "share_of h ls = unat s div 20"
      using assms by (simp add: share_of_def release_end_def s_def)
    have nh: "\<not> 3223778 < h" using True by (simp add: word_less_nat_alt)
    have eqn: "development_allocation_at_height h ls =
      bind_res (development_share_each s) (\<lambda>share_each.
        bind_res (case c of None \<Rightarrow> Inr None
                  | Some k \<Rightarrow> map_sum id Some (ok_or PayoutOverflow (checked_mul share_each k))) (\<lambda>payout_each.
        Inr \<lparr> da_active = True, da_payout_due = (c \<noteq> None), da_share_each = share_each,
              da_payout_each = payout_each, da_miner_subsidy = s - 2 * share_each \<rparr>))"
      using le nh unfolding s_def c_def
      by (simp add: development_allocation_at_height_def development_allocation_with_schedule_def
          release_activation release_end_height block_reward_at_height_def Let_def)
    show ?thesis
    proof (cases c)
      case None
      then show ?thesis using count[OF True]
        by (simp add: eqn exact_allocation_def so share paid_each_def s_def[symmetric])
    next
      case (Some k)
      then show ?thesis using count[OF True] pay[OF small[OF Some]]
        by (simp add: eqn exact_allocation_def so share paid_each_def s_def[symmetric])
    qed
  qed
qed

lemma release_allocation:
  obtains a where "development_allocation_at_height h ls = Inr a" "exact_allocation h ls a"
proof (cases "unat h < 210537")
  case True
  then have "development_allocation_at_height h ls = development_allocation h ls"
    by (simp add: development_allocation_at_height_def development_allocation_with_schedule_def
        release_activation word_le_nat_alt)
  then show ?thesis using legacy_allocation[OF True] that by auto
next
  case False
  then show ?thesis using v2_allocation[of h ls] that by auto
qed

section \<open>Issuance over a chain\<close>

text \<open>
  A settlement scheme in which a payout settles at most the blocks still open,
  at the current share, never pays more than was withheld, as long as the share
  does not grow while blocks are open.
\<close>

lemma settlement_bound:
  fixes share count rest :: "nat \<Rightarrow> nat"
  assumes start: "rest 0 = 0"
    and step: "\<And>h. h < n \<Longrightarrow> count (Suc h) + rest (Suc h) \<le> 1 \<or>
      (count (Suc h) + rest (Suc h) \<le> Suc (rest h) \<and> share (Suc h) \<le> share h)"
  shows "(\<Sum>h = 1..n. count h * share h) + rest n * share n \<le> (\<Sum>h = 1..n. share h)"
  using step
proof (induction n)
  case (Suc n)
  have IH: "(\<Sum>h = 1..n. count h * share h) + rest n * share n \<le> (\<Sum>h = 1..n. share h)"
    using Suc by simp
  have "count (Suc n) * share (Suc n) + rest (Suc n) * share (Suc n)
      \<le> rest n * share n + share (Suc n)"
  proof (cases "count (Suc n) + rest (Suc n) \<le> 1")
    case True
    then have "(count (Suc n) + rest (Suc n)) * share (Suc n) \<le> 1 * share (Suc n)"
      by (rule mult_le_mono1)
    then show ?thesis by (simp add: add_mult_distrib)
  next
    case False
    then have le: "count (Suc n) + rest (Suc n) \<le> Suc (rest n)" "share (Suc n) \<le> share n"
      using Suc.prems[of n] by auto
    have "(count (Suc n) + rest (Suc n)) * share (Suc n) \<le> Suc (rest n) * share (Suc n)"
      using le(1) by (rule mult_le_mono1)
    moreover have "rest n * share (Suc n) \<le> rest n * share n" using le(2) by (rule mult_le_mono2)
    ultimately show ?thesis unfolding add_mult_distrib mult_Suc by linarith
  qed
  then show ?case using IH by simp
qed (simp add: start)

lemma settled_step: "settled (Suc h) + unsettled (Suc h) \<le> Suc (unsettled h)"
proof -
  have wrap: "(if Suc k mod m = 0 then m else 0) + Suc k mod m \<le> Suc (k mod m)" if "0 < m" for k m :: nat
    using that by (simp add: mod_Suc)
  consider "Suc h < 210537" | "Suc h = 210537" | "210537 < Suc h" "Suc h < release_end"
    | "Suc h = release_end" | "release_end < Suc h"
    by linarith
  then show ?thesis
  proof cases
    case 1
    then show ?thesis using wrap[of 4320 h] by (simp add: settled_def unsettled_def release_end_def)
  next
    case 2
    then show ?thesis by (simp add: settled_def unsettled_def release_end_def)
  next
    case 3
    then have "Suc h - 210536 = Suc (h - 210536)" by linarith
    then show ?thesis
      using 3 wrap[of 2880 "h - 210536"]
      by (simp add: settled_def unsettled_def release_end_def split: if_splits)
  next
    case 4
    then have "h = 3223777" by (simp add: release_end_def)
    then show ?thesis by (simp add: settled_def unsettled_def release_end_def)
  next
    case 5
    then show ?thesis by (simp add: settled_def unsettled_def release_end_def)
  qed
qed

lemma share_of_step:
  assumes "Suc h < 2 ^ 64" "ls \<le> ls'" "h \<noteq> 0" "Suc h \<noteq> 210537"
  shows "share_of (of_nat (Suc h)) ls' \<le> share_of (of_nat h) ls"
proof -
  have u: "unat (of_nat (Suc h) :: u64) = Suc h" "unat (of_nat h :: u64) = h"
    using assms(1) by (simp_all add: unsigned_of_nat take_bit_nat_eq_self del: of_nat_Suc)
  have "unat (block_reward_at_height (of_nat (Suc h)) ls') \<le> unat (block_reward_at_height (of_nat h) ls)"
  proof (cases "Suc h < 210537")
    case True
    then have "\<not> 210537 \<le> (of_nat h :: u64)" "\<not> 210537 \<le> (of_nat (Suc h) :: u64)"
      using u by (simp_all add: word_le_nat_alt del: of_nat_Suc)
    then show ?thesis using block_reward_antimono[OF assms(2)] by (simp add: release_reward)
  next
    case False
    then have ge: "210537 \<le> (of_nat h :: u64)" "210537 \<le> (of_nat (Suc h) :: u64)"
      using u assms(4) by (simp_all add: word_le_nat_alt del: of_nat_Suc)
    then have "of_nat h - 210537 \<le> (of_nat (Suc h) - 210537 :: u64)"
      using u by (simp add: word_le_nat_alt unat_minus_le del: of_nat_Suc)
    then show ?thesis using v2_block_reward_antimono ge by (simp add: release_reward del: of_nat_Suc)
  qed
  then show ?thesis using u assms(3) by (simp add: share_of_def div_le_mono del: of_nat_Suc)
qed

text \<open>All value a block may create besides fees: the miner subsidy and both fund payouts.\<close>

definition issued :: "development_allocation_t \<Rightarrow> nat" where
  "issued a = unat (da_miner_subsidy a) + 2 * paid_each a"

definition issued_at_height :: "u64 \<Rightarrow> u32 \<Rightarrow> nat" where
  "issued_at_height h ls =
    (case development_allocation_at_height h ls of Inl _ \<Rightarrow> 0 | Inr a \<Rightarrow> issued a)"

lemma issued_at_height_eq:
  "issued_at_height h ls + 2 * share_of h ls =
    unat (block_reward_at_height h ls) + 2 * (settled (unat h) * share_of h ls)"
proof -
  obtain a where "development_allocation_at_height h ls = Inr a" "exact_allocation h ls a"
    by (rule release_allocation)
  then show ?thesis by (simp add: issued_at_height_def issued_def exact_allocation_def)
qed

lemma issuance_bound:
  assumes "n < 2 ^ 64" and depth: "\<And>h. h < n \<Longrightarrow> ls h \<le> ls (Suc h)"
  shows "(\<Sum>h = 1..n. issued_at_height (of_nat h) (ls h))
    \<le> (\<Sum>h = 1..n. unat (block_reward_at_height (of_nat h) (ls h)))"
proof -
  let ?s = "\<lambda>h. share_of (of_nat h) (ls h)"
  have u: "unat (of_nat h :: u64) = h" if "h \<in> {1..n}" for h
    using that assms(1) by (simp add: unsigned_of_nat take_bit_nat_eq_self)
  have "(\<Sum>h = 1..n. settled h * ?s h) + unsettled n * ?s n \<le> (\<Sum>h = 1..n. ?s h)"
  proof (rule settlement_bound)
    show "unsettled 0 = 0" by (simp add: unsettled_def)
    fix h assume h: "h < n"
    show "settled (Suc h) + unsettled (Suc h) \<le> 1 \<or>
      settled (Suc h) + unsettled (Suc h) \<le> Suc (unsettled h) \<and> ?s (Suc h) \<le> ?s h"
    proof (cases "h = 0 \<or> Suc h = 210537")
      case True
      then have "settled (Suc h) + unsettled (Suc h) = 1"
        by (auto simp: settled_def unsettled_def release_end_def)
      then show ?thesis by simp
    next
      case False
      then have "?s (Suc h) \<le> ?s h"
        using share_of_step[of h "ls h" "ls (Suc h)"] depth[OF h] h assms(1) by simp
      then show ?thesis using settled_step[of h] by simp
    qed
  qed
  then have pay: "(\<Sum>h = 1..n. settled h * ?s h) \<le> (\<Sum>h = 1..n. ?s h)" by simp
  have "(\<Sum>h = 1..n. issued_at_height (of_nat h) (ls h) + 2 * ?s h) =
    (\<Sum>h = 1..n. unat (block_reward_at_height (of_nat h) (ls h)) + 2 * (settled h * ?s h))"
    by (rule sum.cong[OF refl]) (metis issued_at_height_eq u)
  then show ?thesis using pay by (simp add: sum.distrib flip: sum_distrib_left)
qed

text \<open>C9: Over heights 1 to n of any chain whose state depth never shrinks, the value
  issued to the miners and to both development funds together never exceeds the sum of
  the block rewards, across the version-2 fork and the end of the allocation.\<close>

theorem issuance_never_exceeds_rewards:
  assumes "n < 2 ^ 64" and depth: "\<And>h. h < n \<Longrightarrow> ls h \<le> ls (Suc h)"
  shows "(\<Sum>h = 1..n. issued_at_height (of_nat h) (ls h))
    \<le> (\<Sum>h = 1..n. unat (block_reward_at_height (of_nat h) (ls h)))"
  by (rule issuance_bound[where ls = ls]) (use assms in auto)

theorem issuance_never_exceeds_rewards_witness:
  "(\<Sum>h = 1..3300000. issued_at_height (of_nat h) (if h < 4000 then 24 else 25))
    \<le> (\<Sum>h = 1..3300000. unat (block_reward_at_height (of_nat h) (if h < 4000 then 24 else 25)))"
  by (rule issuance_never_exceeds_rewards[of 3300000 "\<lambda>h. if h < 4000 then 24 else 25"]) simp_all

text \<open>C18: On the release schedule the development allocation is defined at every height and
  depth, no error branch is taken; the miner part and the two shares add up to the reward,
  and inside the allocation window each share is exactly one twentieth of it.\<close>

theorem development_allocation_total:
  "\<exists>a. development_allocation_at_height h ls = Inr a \<and>
    unat (da_miner_subsidy a) + 2 * unat (da_share_each a) = unat (block_reward_at_height h ls) \<and>
    20 * unat (da_share_each a) =
      (if 0 < h \<and> h \<le> 3223778 then unat (block_reward_at_height h ls) else 0) \<and>
    (da_payout_due a \<longleftrightarrow> da_payout_each a \<noteq> None)"
proof -
  obtain a where a: "development_allocation_at_height h ls = Inr a" "exact_allocation h ls a"
    by (rule release_allocation)
  have "20 * share_of h ls = (if 0 < h \<and> h \<le> 3223778 then unat (block_reward_at_height h ls) else 0)"
    using release_reward_bounds(2)[of h ls]
    by (simp add: share_of_def release_end_def word_le_nat_alt word_less_nat_alt)
  then show ?thesis using a by (simp add: exact_allocation_def)
qed

lemma max_coinbase_value_total:
  "\<exists>v. max_coinbase_value_from_claimable_fee_sum h ls fees = Some v \<and>
    (\<exists>a. development_allocation_at_height h ls = Inr a \<and> v = ucast (da_miner_subsidy a) + fees)"
proof -
  obtain a where "development_allocation_at_height h ls = Inr a" "exact_allocation h ls a"
    by (rule release_allocation)
  then show ?thesis
    by (simp add: max_coinbase_value_from_claimable_fee_sum_def ok_value_def
        max_coinbase_value_from_claimable_fee_sum_with_schedule_def development_allocation_at_height_def)
qed

end
