(* ===== verification/Validation.thy ===== *)
theory Validation
  imports Block Emission
begin

text \<open>
  Block validation (\<open>noid_chain/src/consensus/validation.rs\<close>): the resource preflight, the fee
  policy, the mandatory system mints, the native checks and the sequential path
  \<open>validate_block_consensus\<close>, which runs every check and then applies the block.  The
  path is shown to accept exactly the blocks that pass the checks and that the ledger
  accepts, and never to panic; over every chain of accepted blocks the circulating
  supply never exceeds the sum of the block rewards.  Of a display message only the fixed
  part is kept; panics of \<open>expect\<close> are the value \<open>None\<close>.
\<close>

section \<open>Resource preflight\<close>

record anchor_info =
  ai_height :: u64
  ai_timestamp :: u64
  ai_target :: u256

record block_resource_preflight =
  brp_user_page_count :: nat
  brp_logical_tx_count :: nat
  brp_live_input_count :: nat
  brp_output_count :: nat
  brp_action_count :: nat
  brp_touched_slot_count :: nat
  brp_distinct_segment_count :: nat
  brp_state_frontier_node_count :: nat

fun page_stream_consensus_error :: "block_page_stream_error \<Rightarrow> consensus_error" where
  "page_stream_consensus_error BpsMissingCoinbase = MissingCoinbase"
| "page_stream_consensus_error BpsCoinbaseNotFirst = CoinbaseNotFirst"
| "page_stream_consensus_error BpsMultipleCoinbase = MultipleCoinbase"
| "page_stream_consensus_error (BpsPagedSpend (PssBlockPageLimit actual capacity)) = BlockResourceLimitExceeded ''user_pages'' actual capacity"
| "page_stream_consensus_error (BpsPagedSpend (PssTooManyGroups actual capacity)) = BlockResourceLimitExceeded ''logical_txs'' actual capacity"
| "page_stream_consensus_error (BpsPagedSpend (PssBlockInputLimit actual capacity)) = BlockResourceLimitExceeded ''live_inputs'' actual capacity"
| "page_stream_consensus_error (BpsPagedSpend (PssBlockOutputLimit actual capacity)) = BlockResourceLimitExceeded ''user_outputs'' actual capacity"
| "page_stream_consensus_error (BpsPagedSpend (PssDuplicateInputSlot _)) = SlotConflict"
| "page_stream_consensus_error (BpsPagedSpend (PssDuplicateOutputSlot _)) = SlotConflict"
| "page_stream_consensus_error (BpsPagedSpend (PssInputOutputSlotOverlap _)) = SlotConflict"
| "page_stream_consensus_error other = InvalidPagedSpend ''page stream''"

text \<open>The inner loops: a counter, the touched slots and the segments.\<close>

fun resource_slots :: "string \<Rightarrow> nat \<Rightarrow> u32 list \<Rightarrow> nat \<times> u32 set \<times> u32 set \<Rightarrow> consensus_error + nat \<times> u32 set \<times> u32 set" where
  "resource_slots message slot_domain [] s = Inr s"
| "resource_slots message slot_domain (slot # slots) (n, touched, segments) =
    (if unat slot \<ge> slot_domain then Inl (ShapeMismatch message)
     else resource_slots message slot_domain slots (n + 1, insert slot touched, insert (drop_bit (unat LOG_SEGMENT_SIZE) slot) segments))"

definition resource_tx :: "nat \<Rightarrow> tx_body \<Rightarrow> nat \<times> nat \<times> u32 set \<times> u32 set \<Rightarrow> consensus_error + nat \<times> nat \<times> u32 set \<times> u32 set" where
  "resource_tx slot_domain tx = (\<lambda>(live_inputs, outputs, touched, segments).
    bind_res (resource_slots ''live input slot is outside block log_slots'' slot_domain (live_input_slots tx)
        (live_inputs, touched, segments)) (\<lambda>(live_inputs, touched, segments).
    bind_res (resource_slots ''live output slot is outside block log_slots'' slot_domain (live_output_slots tx)
        (outputs, touched, segments)) (\<lambda>(outputs, touched, segments).
    if card segments > BLOCK_MAX_DISTINCT_SEGMENTS
    then Inl (BlockResourceLimitExceeded ''distinct_segments'' (card segments) BLOCK_MAX_DISTINCT_SEGMENTS)
    else Inr (live_inputs, outputs, touched, segments))))"

definition validate_block_resource_preflight :: "block \<Rightarrow> (consensus_error, block_resource_preflight) outcome" where
  "validate_block_resource_preflight block =
    (if length (blk_transactions block) > BLOCK_MAX_TXS then Some (Inl TooManyTxs)
     else if \<not> (1 \<le> hdr_log_slots (blk_header block) \<and> hdr_log_slots (blk_header block) \<le> 32)
     then Some (Inl (ShapeMismatch ''block log_slots is outside the u32 slot domain''))
     else
       let slot_domain = 2 ^ unat (hdr_log_slots (blk_header block))
       in bind_out (Some (map_err page_stream_consensus_error (validate_block_page_stream (blk_transactions block)))) (\<lambda>stream.
          let user_page_count = unat (bpf_page_count stream); logical_tx_count = unat (bpf_logical_count stream)
          in if user_page_count > BLOCK_MAX_USER_PAGES
             then Some (Inl (BlockResourceLimitExceeded ''user_pages'' user_page_count BLOCK_MAX_USER_PAGES))
             else
               bind_out (Some (fold_res (resource_tx slot_domain) (blk_transactions block) (0, 0, {}, {})))
                 (\<lambda>(live_input_count, output_count, touched_slots, segments).
               if live_input_count > BLOCK_MAX_LIVE_INPUTS
               then Some (Inl (BlockResourceLimitExceeded ''live_inputs'' live_input_count BLOCK_MAX_LIVE_INPUTS))
               else if output_count > BLOCK_MAX_USER_OUTPUTS + 1
               then Some (Inl (BlockResourceLimitExceeded ''outputs'' output_count (BLOCK_MAX_USER_OUTPUTS + 1)))
               else
                 let action_count = live_input_count + output_count
                 in if action_count > BLOCK_MAX_ACTIONS
                    then Some (Inl (BlockResourceLimitExceeded ''actions'' action_count BLOCK_MAX_ACTIONS))
                    else
                      Option.bind (if touched_slots = {} then Some 0
                        else ok_value (expected_sibling_count (sorted_list_of_set touched_slots) (hdr_log_slots (blk_header block))))
                        (\<lambda>state_frontier_node_count.
                      Some (Inr \<lparr> brp_user_page_count = user_page_count, brp_logical_tx_count = logical_tx_count,
                        brp_live_input_count = live_input_count, brp_output_count = output_count,
                        brp_action_count = action_count, brp_touched_slot_count = card touched_slots,
                        brp_distinct_segment_count = card segments,
                        brp_state_frontier_node_count = state_frontier_node_count \<rparr>)))))"

section \<open>Fees and system mints\<close>

fun claimable_fees :: "u64 \<Rightarrow> u32 \<Rightarrow> paged_spend_group_facts list \<Rightarrow> u128 \<Rightarrow> consensus_error + u128" where
  "claimable_fees active log_slots [] claimable_fee_sum = Inr claimable_fee_sum"
| "claimable_fees active log_slots (gf # groups) claimable_fee_sum =
    (let breakdown = fee_breakdown (ucast (pf_live_inputs (pgf_spend gf))) (ucast (pf_live_outputs (pgf_spend gf))) active log_slots;
         required = fb_required_total breakdown; actual = pf_fee (pgf_spend gf)
     in if actual < required then Inl (BelowMinFee required actual)
        else
          bind_res (ok_or (ShapeMismatch ''claimable fee sum overflow'')
            (checked_add claimable_fee_sum (ucast (saturating_sub actual (fb_burned breakdown)))))
            (claimable_fees active log_slots groups))"

definition validate_fee_policy_and_claimable_fee_sum :: "block \<Rightarrow> block_header \<Rightarrow> consensus_error + u128" where
  "validate_fee_policy_and_claimable_fee_sum block parent =
    bind_res (map_err page_stream_consensus_error (validate_block_page_stream (blk_transactions block))) (\<lambda>stream.
      claimable_fees (hdr_active_slot_count parent) (hdr_log_slots parent) (bpf_groups stream) 0)"

definition validate_mandatory_coinbase_with_schedule :: "block \<Rightarrow> block_header \<Rightarrow> fork_schedule \<Rightarrow> consensus_error + unit" where
  "validate_mandatory_coinbase_with_schedule block parent schedule =
    (let expected_anchor = block_id parent; header = blk_header block; txs = blk_transactions block
     in bind_res (map_err page_stream_consensus_error (validate_block_page_stream txs)) (\<lambda>stream.
        bind_res (map_err (\<lambda>_. ShapeMismatch ''coinbase semantics'') (validate_body_semantics_no_hash (txs ! 0))) (\<lambda>_.
        if epoch_anchor (txs ! 0) \<noteq> expected_anchor then Inl BadCoinbaseAnchor
        else if out_owner (outputs (txs ! 0) ! 0) \<noteq> miner_address header then Inl BadCoinbaseOwner
        else
          bind_res (map_err (\<lambda>_. BadDevelopmentPayout)
            (development_allocation_with_schedule (hdr_height header) (hdr_log_slots header) schedule)) (\<lambda>allocation.
          case (da_payout_each allocation, bpf_has_development_payout stream) of
            (Some _, False) \<Rightarrow> Inl MissingDevelopmentPayout
          | (None, True) \<Rightarrow> Inl UnexpectedDevelopmentPayout
          | (None, False) \<Rightarrow> Inr ()
          | (Some expected_amount, True) \<Rightarrow>
              bind_res (map_err (\<lambda>_. ShapeMismatch ''development payout has non-canonical body semantics'')
                (validate_body_semantics_no_hash (txs ! 1))) (\<lambda>_.
              if epoch_anchor (txs ! 1) \<noteq> expected_anchor then Inl BadDevelopmentPayout
              else
                let first = outputs (txs ! 1) ! 0; second = outputs (txs ! 1) ! 1
                in if out_owner first \<noteq> O1_NETWORK_FUND_ADDRESS \<or> out_owner second \<noteq> PARANO1D_LAB_ADDRESS \<or>
                     out_amount first \<noteq> expected_amount \<or> out_amount second \<noteq> expected_amount
                   then Inl BadDevelopmentPayout else Inr ())))))"

definition validate_mandatory_coinbase :: "block \<Rightarrow> block_header \<Rightarrow> consensus_error + unit" where
  "validate_mandatory_coinbase block parent = validate_mandatory_coinbase_with_schedule block parent ACTIVE_SCHEDULE"

section \<open>Native checks\<close>

definition validate_block_checks_inner ::
  "block \<Rightarrow> block_header \<Rightarrow> u64 list \<Rightarrow> u64 list \<Rightarrow> anchor_info \<Rightarrow> u64 option \<Rightarrow> bool \<Rightarrow> fork_schedule option \<Rightarrow>
   (consensus_error, unit) outcome" where
  "validate_block_checks_inner block parent prev_timestamps finalized_active_counts anchor local_time check_pow schedule =
    (let header = blk_header block; txs = blk_transactions block;
         active = (case schedule of Some s \<Rightarrow> s | None \<Rightarrow> ACTIVE_SCHEDULE)
     in bind_out (validate_block_resource_preflight block) (\<lambda>_.
        bind_out (Some (case schedule of
            Some schedule \<Rightarrow>
              validate_header_with_schedule header parent prev_timestamps finalized_active_counts local_time
                (ai_height anchor) (ai_timestamp anchor) (ai_target anchor) check_pow schedule
          | None \<Rightarrow>
              (case (local_time, check_pow) of
                 (Some local_time, True) \<Rightarrow>
                   validate_header header parent prev_timestamps finalized_active_counts local_time
                     (ai_height anchor) (ai_timestamp anchor) (ai_target anchor)
               | (Some local_time, False) \<Rightarrow>
                   validate_header_template header parent prev_timestamps finalized_active_counts local_time
                     (ai_height anchor) (ai_timestamp anchor) (ai_target anchor)
               | (None, _) \<Rightarrow>
                   validate_header_timeless header parent prev_timestamps finalized_active_counts
                     (ai_height anchor) (ai_timestamp anchor) (ai_target anchor)))) (\<lambda>_.
        bind_out (Some (validate_mandatory_coinbase_with_schedule block parent active)) (\<lambda>_.
        bind_out (Some (map_err page_stream_consensus_error (validate_block_page_stream txs))) (\<lambda>_.
        bind_out (Some (validate_block_slot_conflicts txs)) (\<lambda>_.
        bind_out (Some (validate_tx_consensus (txs ! 0))) (\<lambda>_.
        bind_out (Some (validate_fee_policy_and_claimable_fee_sum block parent)) (\<lambda>claimable_fee_sum.
        case txs of
          [] \<Rightarrow> Some (Inr ())
        | cb # _ \<Rightarrow>
            if is_coinbase cb then
              (case live_outputs cb of
                 [] \<Rightarrow> None
               | (_, output) # _ \<Rightarrow>
                   bind_out (Some (map_err (\<lambda>_. BadDevelopmentPayout)
                     (max_coinbase_value_from_claimable_fee_sum_with_schedule (hdr_height header) (hdr_log_slots header)
                       claimable_fee_sum active))) (\<lambda>max_allowed.
                   if ucast (out_amount output) > max_allowed then Some (Inl InflatedCoinbase) else Some (Inr ())))
            else Some (Inr ())))))))))"

definition validate_block_checks :: "block \<Rightarrow> block_header \<Rightarrow> u64 list \<Rightarrow> u64 list \<Rightarrow> u64 \<Rightarrow> anchor_info \<Rightarrow> (consensus_error, unit) outcome" where
  "validate_block_checks block parent prev_timestamps finalized_active_counts local_time anchor =
    validate_block_checks_inner block parent prev_timestamps finalized_active_counts anchor (Some local_time) True None"

definition validate_block_checks_template :: "block \<Rightarrow> block_header \<Rightarrow> u64 list \<Rightarrow> u64 list \<Rightarrow> u64 \<Rightarrow> anchor_info \<Rightarrow> (consensus_error, unit) outcome" where
  "validate_block_checks_template block parent prev_timestamps finalized_active_counts local_time anchor =
    validate_block_checks_inner block parent prev_timestamps finalized_active_counts anchor (Some local_time) False None"

definition validate_block_checks_timeless :: "block \<Rightarrow> block_header \<Rightarrow> u64 list \<Rightarrow> u64 list \<Rightarrow> anchor_info \<Rightarrow> (consensus_error, unit) outcome" where
  "validate_block_checks_timeless block parent prev_timestamps finalized_active_counts anchor =
    validate_block_checks_inner block parent prev_timestamps finalized_active_counts anchor None True None"

definition validate_block_checks_with_schedule ::
  "block \<Rightarrow> block_header \<Rightarrow> u64 list \<Rightarrow> u64 list \<Rightarrow> u64 option \<Rightarrow> anchor_info \<Rightarrow> bool \<Rightarrow> fork_schedule \<Rightarrow> (consensus_error, unit) outcome" where
  "validate_block_checks_with_schedule block parent prev_timestamps finalized_active_counts local_time anchor check_pow schedule =
    validate_block_checks_inner block parent prev_timestamps finalized_active_counts anchor local_time check_pow (Some schedule)"

section \<open>The sequential path\<close>

fun block_apply_consensus_error :: "block_apply_error \<Rightarrow> consensus_error" where
  "block_apply_consensus_error BaTooManyTransactions = TooManyTxs"
| "block_apply_consensus_error BaInvalidTxBody = ShapeMismatch ''invalid fixed transaction body''"
| "block_apply_consensus_error BaInvalidPagedSpend = InvalidPagedSpend ''invalid block page stream''"
| "block_apply_consensus_error BaHeaderStateRootMismatch = BadStateRoot"
| "block_apply_consensus_error BaHeaderTxRootMismatch = BadTxRoot"
| "block_apply_consensus_error _ = ShapeMismatch ''block application''"

definition validate_block_consensus ::
  "block \<Rightarrow> block_header \<Rightarrow> u64 list \<Rightarrow> u64 list \<Rightarrow> u64 \<Rightarrow> anchor_info \<Rightarrow> chain_state \<Rightarrow> (consensus_error, digest \<times> chain_state) outcome" where
  "validate_block_consensus block parent prev_timestamps finalized_active_counts local_time anchor state =
    (let header = blk_header block; txs = blk_transactions block
     in bind_out (Some (validate_header header parent prev_timestamps finalized_active_counts local_time
          (ai_height anchor) (ai_timestamp anchor) (ai_target anchor))) (\<lambda>_.
        bind_out (validate_block_resource_preflight block) (\<lambda>_.
        bind_out (Some (validate_mandatory_coinbase block parent)) (\<lambda>_.
        bind_out (Some (map_err page_stream_consensus_error (validate_block_page_stream txs))) (\<lambda>_.
        bind_out (Some (validate_block_slot_conflicts txs)) (\<lambda>_.
        bind_out (Some (validate_tx_consensus (txs ! 0))) (\<lambda>_.
        bind_out (Some (validate_fee_policy_and_claimable_fee_sum block parent)) (\<lambda>claimable_fee_sum.
        bind_out
          (case txs of
             [] \<Rightarrow> Some (Inr ())
           | cb # _ \<Rightarrow>
               if is_coinbase cb then
                 (case live_outputs cb of
                    [] \<Rightarrow> None
                  | (_, output) # _ \<Rightarrow>
                      Option.bind (max_coinbase_value_from_claimable_fee_sum (hdr_height header) (hdr_log_slots header)
                        claimable_fee_sum) (\<lambda>max_allowed.
                      if ucast (out_amount output) > max_allowed then Some (Inl InflatedCoinbase) else Some (Inr ())))
               else Some (Inr ())) (\<lambda>_.
        bind_out (map_option (map_err block_apply_consensus_error) (apply_block block state)) (\<lambda>(_, state).
        Some (Inr (state_root header, state))))))))))))"

section \<open>The preflight\<close>

abbreviation segment_of :: "u32 \<Rightarrow> u32" where
  "segment_of slot \<equiv> drop_bit 16 slot"

lemma resource_slots_iff:
  "resource_slots m D slots (n, t, s) = Inr r \<longleftrightarrow>
    (\<forall>x \<in> set slots. unat x < D) \<and> r = (n + length slots, set slots \<union> t, segment_of ` set slots \<union> s)"
  by (induction slots arbitrary: n t s) (auto simp: LOG_SEGMENT_SIZE_def not_le)

lemma resource_tx_iff:
  "resource_tx D tx (i, k, t, s) = Inr r \<longleftrightarrow>
    (\<forall>x \<in> set (body_slots tx). unat x < D) \<and> card (segment_of ` set (body_slots tx) \<union> s) \<le> 256 \<and>
    r = (i + length (live_input_slots tx), k + length (live_output_slots tx), set (body_slots tx) \<union> t, segment_of ` set (body_slots tx) \<union> s)"
proof -
  have "segment_of ` set (live_output_slots tx) \<union> (segment_of ` set (live_input_slots tx) \<union> s) = segment_of ` set (body_slots tx) \<union> s"
    "set (live_output_slots tx) \<union> (set (live_input_slots tx) \<union> t) = set (body_slots tx) \<union> t" by auto
  then show ?thesis
    by (simp add: resource_tx_def bind_res_Inr_iff resource_slots_iff BLOCK_MAX_DISTINCT_SEGMENTS_def image_Un Un_assoc) auto
qed

definition slots_of :: "tx_body list \<Rightarrow> u32 list" where
  "slots_of txs = concat (map body_slots txs)"

lemma slots_of_simps [simp]: "slots_of [] = []" "slots_of (tx # txs) = body_slots tx @ slots_of txs" "slots_of (xs @ ys) = slots_of xs @ slots_of ys"
  by (simp_all add: slots_of_def)

lemma resource_fold_iff:
  "finite s \<Longrightarrow> card s \<le> 256 \<Longrightarrow> fold_res (resource_tx D) txs (i, k, t, s) = Inr r \<longleftrightarrow>
    (\<forall>x \<in> set (slots_of txs). unat x < D) \<and> card (segment_of ` set (slots_of txs) \<union> s) \<le> 256 \<and>
    r = (i + sum_list (map (length \<circ> live_input_slots) txs), k + sum_list (map (length \<circ> live_output_slots) txs),
      set (slots_of txs) \<union> t, segment_of ` set (slots_of txs) \<union> s)"
proof (induction txs arbitrary: i k t s)
  case (Cons tx txs)
  let ?s = "segment_of ` set (body_slots tx) \<union> s"
  have fin: "finite ?s" using Cons.prems by simp
  have all: "segment_of ` set (slots_of (tx # txs)) \<union> s = segment_of ` set (slots_of txs) \<union> ?s" by auto
  have mono: "card (segment_of ` set (slots_of txs) \<union> ?s) \<le> 256 \<Longrightarrow> card ?s \<le> 256"
    by (rule order_trans[OF card_mono]) (use fin in auto)
  show ?case
  proof (cases "(\<forall>x \<in> set (body_slots tx). unat x < D) \<and> card ?s \<le> 256")
    case True
    then have step: "resource_tx D tx (i, k, t, s) =
        Inr (i + length (live_input_slots tx), k + length (live_output_slots tx), set (body_slots tx) \<union> t, ?s)"
      unfolding resource_tx_iff by blast
    have "fold_res (resource_tx D) (tx # txs) (i, k, t, s) = fold_res (resource_tx D) txs
        (i + length (live_input_slots tx), k + length (live_output_slots tx), set (body_slots tx) \<union> t, ?s)"
      by (simp only: fold_res.simps step bind_res.simps)
    then show ?thesis unfolding all using Cons.IH[OF fin] True by (auto simp: Un_assoc add.assoc)
  next
    case False
    then have "resource_tx D tx (i, k, t, s) \<noteq> Inr r'" for r' using resource_tx_iff by blast
    then have "fold_res (resource_tx D) (tx # txs) (i, k, t, s) \<noteq> Inr r" by (cases "resource_tx D tx (i, k, t, s)") auto
    moreover have "\<not> ((\<forall>x \<in> set (slots_of (tx # txs)). unat x < D) \<and> card (segment_of ` set (slots_of txs) \<union> ?s) \<le> 256)"
      using False mono by auto
    ultimately show ?thesis unfolding all by blast
  qed
qed auto

text \<open>Outputs of the system records: one of the coinbase, two of the development payout.\<close>

lemma primary_outputs: "wf_body cb \<Longrightarrow> is_primary_coinbase_shape cb \<Longrightarrow> live_outputs cb = [(0, outputs cb ! 0)]"
  by (auto simp: live_outputs_def output_is_live_iff is_primary_coinbase_shape_def output_bitmap_bit_def TX_INPUTS_def TX_OUTPUTS_def wf_simps
      length_Suc_conv numeral_2_eq_2 bit_simps)

lemma payout_outputs: "wf_body tx \<Longrightarrow> is_development_payout_shape tx \<Longrightarrow> live_outputs tx = [(0, outputs tx ! 0), (1, outputs tx ! 1)]"
  by (auto simp: live_outputs_def output_is_live_iff is_development_payout_shape_def output_bitmap_bit_def TX_INPUTS_def TX_OUTPUTS_def wf_simps
      length_Suc_conv numeral_2_eq_2 bit_simps)

definition block_inputs :: "tx_body list \<Rightarrow> nat" where
  "block_inputs txs = sum_list (map (length \<circ> live_input_slots) txs)"

definition block_outputs :: "tx_body list \<Rightarrow> nat" where
  "block_outputs txs = sum_list (map (length \<circ> live_output_slots) txs)"

lemma page_counts:
  "sum_list (map (length \<circ> live_input_slots \<circ> page_body) ps) = length (group_inputs ps)"
  by (induction ps) (simp_all add: live_input_slots_def flip: live_lane_values)

lemma layout_counts:
  assumes wf: "list_all wf_body txs" and L: "block_layout txs cb sys gs"
  shows "block_inputs txs \<le> 1020" "block_outputs txs \<le> 511"
proof -
  have txs: "txs = cb # sys @ map page_body (concat gs)" and n: "length sys + length (concat gs) \<le> 255"
    and cb: "is_primary_coinbase_shape cb" and sys: "list_all is_development_payout_shape sys"
    and ins: "length (group_inputs (concat gs)) \<le> 1020"
    using L by (simp_all add: block_layout_def canonical_stream_def)
  have none: "live_inputs tx = []" if "tx \<in> set (cb # sys)" for tx
    using that wf cb sys live_inputs_Nil_iff[of tx] primary_no_inputs[of tx]
    by (auto simp: txs list_all_iff live_input_count_0_iff wf_simps TX_INPUTS_def)
  then have free: "live_input_slots cb = []" "sum_list (map (length \<circ> live_input_slots) sys) = 0" by (auto simp: live_input_slots_def)
  show "block_inputs txs \<le> 1020" using ins page_counts[of "concat gs"] by (simp add: block_inputs_def txs comp_assoc free)
  have outs: "sum_list (map (length \<circ> live_output_slots) xs) \<le> 2 * length xs" if "list_all wf_body xs" for xs
    using that by (induction xs) (use live_count_bounds in \<open>fastforce simp: live_output_slots_def\<close>)+
  have one: "length (live_output_slots cb) = 1" using primary_outputs[of cb] wf cb by (simp add: txs live_output_slots_def)
  have "list_all wf_body (sys @ map page_body (concat gs))" using wf by (simp add: txs)
  from outs[OF this] show "block_outputs txs \<le> 511" using n one by (simp add: block_outputs_def txs)
qed

definition resources_ok :: "block \<Rightarrow> bool" where
  "resources_ok b \<longleftrightarrow> 1 \<le> hdr_log_slots (blk_header b) \<and> hdr_log_slots (blk_header b) \<le> 32 \<and>
    (\<exists>cb sys gs. block_layout (blk_transactions b) cb sys gs) \<and>
    (\<forall>x \<in> set (slots_of (blk_transactions b)). unat x < 2 ^ unat (hdr_log_slots (blk_header b))) \<and>
    card (segment_of ` set (slots_of (blk_transactions b))) \<le> 256"

lemma canonical_stream_groups:
  assumes "canonical_stream gs"
  shows "length gs \<le> length (concat gs)"
proof -
  have "\<forall>g \<in> set gs. g \<noteq> []" using assms by (auto simp: canonical_stream_def list_all_iff canonical_group_def)
  then show ?thesis
  proof (induction gs)
    case (Cons g gs)
    then show ?case by (cases g) auto
  qed simp
qed

lemma preflight_correct:
  assumes wf: "list_all wf_body (blk_transactions b)"
  shows "case validate_block_resource_preflight b of None \<Rightarrow> False
    | Some (Inl _) \<Rightarrow> \<not> resources_ok b
    | Some (Inr r) \<Rightarrow> resources_ok b \<and>
        (\<exists>cb sys gs. block_layout (blk_transactions b) cb sys gs \<and>
          brp_user_page_count r = length (concat gs) \<and> brp_logical_tx_count r = length gs) \<and>
        brp_live_input_count r = block_inputs (blk_transactions b) \<and> brp_output_count r = block_outputs (blk_transactions b) \<and>
        brp_action_count r = block_inputs (blk_transactions b) + block_outputs (blk_transactions b) \<and>
        brp_distinct_segment_count r = card (segment_of ` set (slots_of (blk_transactions b))) \<and>
        brp_touched_slot_count r = card (set (slots_of (blk_transactions b))) \<and>
        brp_state_frontier_node_count r = (if slots_of (blk_transactions b) = [] then 0
          else length (frontier (unat ` set (slots_of (blk_transactions b))) (unat (hdr_log_slots (blk_header b)))))"
proof (cases "1 \<le> hdr_log_slots (blk_header b) \<and> hdr_log_slots (blk_header b) \<le> 32 \<and> (\<exists>cb sys gs. block_layout (blk_transactions b) cb sys gs)")
  case False
  have "\<exists>e. validate_block_page_stream (blk_transactions b) = Inl e"
    if "1 \<le> hdr_log_slots (blk_header b)" "hdr_log_slots (blk_header b) \<le> 32"
    using that False layout_iff[OF wf] by (cases "validate_block_page_stream (blk_transactions b)") blast+
  then have "\<exists>e. validate_block_resource_preflight b = Some (Inl e)"
    by (fastforce simp: validate_block_resource_preflight_def Let_def)
  then show ?thesis using False by (auto simp: resources_ok_def)
next
  case True
  then obtain cb sys gs where L: "block_layout (blk_transactions b) cb sys gs" and T: "1 \<le> hdr_log_slots (blk_header b)" "hdr_log_slots (blk_header b) \<le> 32"
    by blast
  let ?txs = "blk_transactions b" and ?T = "hdr_log_slots (blk_header b)"
  let ?S = "set (slots_of ?txs)"
  have stream: "validate_block_page_stream ?txs = Inr (layout_facts sys gs)" using layout_iff[OF wf] L by blast
  have n: "length (concat gs) \<le> 255" "length ?txs \<le> 256" using L by (simp_all add: block_layout_def)
  moreover have "length gs \<le> length (concat gs)" using L canonical_stream_groups by (simp add: block_layout_def)
  ultimately have facts: "unat (bpf_page_count (layout_facts sys gs)) = length (concat gs)"
    "unat (bpf_logical_count (layout_facts sys gs)) = length gs"
    by (simp_all add: layout_facts_def unat_of_nat_lt)
  note fold = resource_fold_iff[of "{}" "2 ^ unat ?T" ?txs 0 0 "{}", simplified, folded block_inputs_def block_outputs_def]
  note counts = layout_counts[OF wf L]
  show ?thesis
  proof (cases "(\<forall>x \<in> ?S. unat x < 2 ^ unat ?T) \<and> card (segment_of ` ?S) \<le> 256")
    case False
    then have "fold_res (resource_tx (2 ^ unat ?T)) ?txs (0, 0, {}, {}) \<noteq> Inr r" for r using fold by blast
    then obtain e where "fold_res (resource_tx (2 ^ unat ?T)) ?txs (0, 0, {}, {}) = Inl e"
      by (cases "fold_res (resource_tx (2 ^ unat ?T)) ?txs (0, 0, {}, {})") auto
    then have "\<exists>e. validate_block_resource_preflight b = Some (Inl e)"
      using T by (auto simp: validate_block_resource_preflight_def Let_def stream)
    then show ?thesis using False by (auto simp: resources_ok_def)
  next
    case ok: True
    then have run: "fold_res (resource_tx (2 ^ unat ?T)) ?txs (0, 0, {}, {}) = Inr (block_inputs ?txs, block_outputs ?txs, ?S, segment_of ` ?S)"
      using fold by blast
    have sib: "expected_sibling_count (sorted_list_of_set ?S) ?T = Inr (length (frontier (unat ` ?S) (unat ?T)))" if "?S \<noteq> {}"
      using that ok T by (simp add: expected_sibling_count_iff valid_indices_def)
    have res: "resources_ok b" using ok T L by (auto simp: resources_ok_def)
    show ?thesis
      using T n counts sib res L
      by (auto simp: facts validate_block_resource_preflight_def Let_def stream run BLOCK_MAX_TXS_def BLOCK_MAX_USER_PAGES_def
          BLOCK_MAX_LIVE_INPUTS_def BLOCK_MAX_USER_OUTPUTS_def BLOCK_MAX_ACTIONS_def BLOCK_MAX_USER_ACTIONS_def ok_value_def)
  qed
qed

section \<open>The two validation paths\<close>

lemma bind_out_assoc: "bind_out (bind_out m f) g = bind_out m (\<lambda>x. bind_out (f x) g)"
  by (cases m; cases "the m") auto

lemma bind_out_Inr_iff: "bind_out m f = Some (Inr y) \<longleftrightarrow> (\<exists>x. m = Some (Inr x) \<and> f x = Some (Inr y))"
  by (cases m; cases "the m") auto

lemma bind_out_None_iff: "bind_out m f = None \<longleftrightarrow> m = None \<or> (\<exists>x. m = Some (Inr x) \<and> f x = None)"
  by (cases m; cases "the m") auto

text \<open>What both paths check after the header and the resources.\<close>

definition mint_checks :: "block \<Rightarrow> block_header \<Rightarrow> (consensus_error, unit) outcome" where
  "mint_checks b parent =
    bind_out (Some (validate_mandatory_coinbase b parent)) (\<lambda>_.
    bind_out (Some (map_err page_stream_consensus_error (validate_block_page_stream (blk_transactions b)))) (\<lambda>_.
    bind_out (Some (validate_block_slot_conflicts (blk_transactions b))) (\<lambda>_.
    bind_out (Some (validate_tx_consensus (blk_transactions b ! 0))) (\<lambda>_.
    bind_out (Some (validate_fee_policy_and_claimable_fee_sum b parent)) (\<lambda>claimable_fee_sum.
    case blk_transactions b of
      [] \<Rightarrow> Some (Inr ())
    | cb # _ \<Rightarrow>
        if is_coinbase cb then
          (case live_outputs cb of
             [] \<Rightarrow> None
           | (_, output) # _ \<Rightarrow>
               Option.bind (max_coinbase_value_from_claimable_fee_sum (hdr_height (blk_header b)) (hdr_log_slots (blk_header b))
                 claimable_fee_sum) (\<lambda>max_allowed.
               if ucast (out_amount output) > max_allowed then Some (Inl InflatedCoinbase) else Some (Inr ())))
        else Some (Inr ()))))))"

lemma max_coinbase_release:
  "bind_out (Some (map_err E (max_coinbase_value_from_claimable_fee_sum_with_schedule h l c ACTIVE_SCHEDULE))) f =
    Option.bind (max_coinbase_value_from_claimable_fee_sum h l c) f"
  using max_coinbase_value_total[of h l c]
  by (auto simp: max_coinbase_value_from_claimable_fee_sum_def ok_value_def split: sum.splits)

lemma checks_inner_eq:
  "validate_block_checks_inner b p ts counts anchor lt pow None =
    bind_out (validate_block_resource_preflight b) (\<lambda>_.
    bind_out (Some (case (lt, pow) of
        (Some local_time, True) \<Rightarrow>
          validate_header (blk_header b) p ts counts local_time (ai_height anchor) (ai_timestamp anchor) (ai_target anchor)
      | (Some local_time, False) \<Rightarrow>
          validate_header_template (blk_header b) p ts counts local_time (ai_height anchor) (ai_timestamp anchor) (ai_target anchor)
      | (None, _) \<Rightarrow> validate_header_timeless (blk_header b) p ts counts (ai_height anchor) (ai_timestamp anchor) (ai_target anchor)))
    (\<lambda>_. mint_checks b p))"
  unfolding validate_block_checks_inner_def mint_checks_def Let_def validate_mandatory_coinbase_def option.case max_coinbase_release ..

lemma validate_block_checks_eq:
  "validate_block_checks b parent ts counts lt anchor =
    bind_out (validate_block_resource_preflight b) (\<lambda>_.
    bind_out (Some (validate_header (blk_header b) parent ts counts lt (ai_height anchor) (ai_timestamp anchor) (ai_target anchor))) (\<lambda>_.
    mint_checks b parent))"
  by (simp add: validate_block_checks_def checks_inner_eq)

lemma validate_block_consensus_eq:
  "validate_block_consensus b parent ts counts lt anchor cs =
    bind_out (Some (validate_header (blk_header b) parent ts counts lt (ai_height anchor) (ai_timestamp anchor) (ai_target anchor))) (\<lambda>_.
    bind_out (validate_block_resource_preflight b) (\<lambda>_.
    bind_out (mint_checks b parent) (\<lambda>_.
    bind_out (map_option (map_err block_apply_consensus_error) (apply_block b cs)) (\<lambda>(_, cs').
    Some (Inr (state_root (blk_header b), cs'))))))"
  unfolding validate_block_consensus_def mint_checks_def Let_def bind_out_assoc ..

lemma mint_checks_total:
  assumes "list_all wf_body (blk_transactions b)" "block_layout (blk_transactions b) cb sys gs"
  shows "mint_checks b parent \<noteq> None"
proof -
  have txs: "blk_transactions b = cb # sys @ map page_body (concat gs)" and cb: "is_primary_coinbase_shape cb"
    using assms(2) by (simp_all add: block_layout_def)
  have out: "live_outputs cb = [(0, outputs cb ! 0)]" using primary_outputs assms(1) cb by (simp add: txs)
  have ceiling: "\<exists>z. Option.bind (max_coinbase_value_from_claimable_fee_sum h l c) (\<lambda>m. if P m then Some x else Some y) = Some z"
    for h l c P and x y :: "consensus_error + unit"
    using max_coinbase_value_total[of h l c] by (elim exE conjE) simp
  show ?thesis unfolding mint_checks_def bind_out_None_iff txs list.case out prod.case
    by (simp add: ceiling)
qed

lemma preflight_cases:
  assumes "list_all wf_body (blk_transactions b)"
  obtains (accept) r where "validate_block_resource_preflight b = Some (Inr r)" "resources_ok b"
  | (reject) e where "validate_block_resource_preflight b = Some (Inl e)"
  using preflight_correct[OF assms] by (cases "validate_block_resource_preflight b" rule: option.exhaust) (auto split: sum.splits)

lemma checks_total:
  assumes wf: "list_all wf_body (blk_transactions b)"
  shows "validate_block_checks b parent ts counts lt anchor \<noteq> None"
  using wf
proof (cases rule: preflight_cases)
  case (accept r)
  then have "mint_checks b parent \<noteq> None" using mint_checks_total[OF wf] by (auto simp: resources_ok_def)
  then show ?thesis by (simp add: validate_block_checks_eq accept bind_out_None_iff)
qed (simp add: validate_block_checks_eq)

lemma consensus_run:
  assumes wf: "list_all wf_body (blk_transactions b)"
  shows "validate_block_checks b parent ts counts lt anchor = Some (Inr ()) \<Longrightarrow>
      validate_block_consensus b parent ts counts lt anchor cs =
        bind_out (map_option (map_err block_apply_consensus_error) (apply_block b cs)) (\<lambda>(_, cs'). Some (Inr (state_root (blk_header b), cs')))"
    and "validate_block_checks b parent ts counts lt anchor \<noteq> Some (Inr ()) \<Longrightarrow>
      \<exists>e. validate_block_consensus b parent ts counts lt anchor cs = Some (Inl e)"
proof -
  let ?H = "validate_header (blk_header b) parent ts counts lt (ai_height anchor) (ai_timestamp anchor) (ai_target anchor)"
  show "validate_block_consensus b parent ts counts lt anchor cs =
        bind_out (map_option (map_err block_apply_consensus_error) (apply_block b cs)) (\<lambda>(_, cs'). Some (Inr (state_root (blk_header b), cs')))"
    if "validate_block_checks b parent ts counts lt anchor = Some (Inr ())"
    using that unfolding validate_block_checks_eq validate_block_consensus_eq bind_out_Inr_iff by auto
  show "\<exists>e. validate_block_consensus b parent ts counts lt anchor cs = Some (Inl e)"
    if "validate_block_checks b parent ts counts lt anchor \<noteq> Some (Inr ())"
    using wf
  proof (cases rule: preflight_cases)
    case (reject e)
    then show ?thesis by (cases ?H) (simp_all add: validate_block_consensus_eq)
  next
    case (accept r)
    then have "mint_checks b parent \<noteq> None" using mint_checks_total[OF wf] by (auto simp: resources_ok_def)
    moreover have "\<not> (?H = Inr () \<and> mint_checks b parent = Some (Inr ()))"
      using that by (auto simp: validate_block_checks_eq accept)
    ultimately show ?thesis
      by (cases ?H; cases "mint_checks b parent"; cases "the (mint_checks b parent)") (auto simp: validate_block_consensus_eq accept)
  qed
qed

section \<open>Minting is bounded\<close>

lemma claimable_bound:
  "claimable_fees a l (group_records k gs) s = Inr c \<Longrightarrow> unat c \<le> unat s + sum_list (map group_fee gs)"
proof (induction k gs arbitrary: s rule: group_records.induct)
  case (2 k g gs)
  let ?b = "fee_breakdown (ucast (pf_live_inputs (group_facts g))) (ucast (pf_live_outputs (group_facts g))) a l"
  obtain s' where s': "checked_add s (ucast (saturating_sub (pf_fee (group_facts g)) (fb_burned ?b))) = Some s'"
    and rest: "claimable_fees a l (group_records (k + length g) gs) s' = Inr c"
    using "2.prems"
    by (cases "checked_add s (ucast (saturating_sub (pf_fee (group_facts g)) (fb_burned ?b)))") (auto simp: Let_def split: if_splits)
  have "unat (ucast (saturating_sub (pf_fee (group_facts g)) (fb_burned ?b)) :: u128) = unat (saturating_sub (pf_fee (group_facts g)) (fb_burned ?b))"
    by simp
  then have "unat s' \<le> unat s + group_fee g"
    using s' by (simp add: checked_add_Some_iff unat_saturating_sub group_facts_def)
  then show ?case using "2.IH"[OF rest] by simp
qed simp

lemma mint_bound:
  assumes wf: "list_all wf_body (blk_transactions b)" and L: "block_layout (blk_transactions b) cb sys gs"
    and ok: "mint_checks b parent = Some (Inr ())"
  shows "output_total cb + sum_list (map output_total sys) \<le>
    issued_at_height (hdr_height (blk_header b)) (hdr_log_slots (blk_header b)) + sum_list (map group_fee gs)"
proof -
  let ?txs = "blk_transactions b" and ?h = "hdr_height (blk_header b)" and ?l = "hdr_log_slots (blk_header b)"
  have txs: "?txs = cb # sys @ map page_body (concat gs)" and cb: "is_primary_coinbase_shape cb"
    and sys: "length sys \<le> 1" "list_all is_development_payout_shape sys"
    using L by (simp_all add: block_layout_def)
  have stream: "validate_block_page_stream ?txs = Inr (layout_facts sys gs)" using layout_iff[OF wf] L by blast
  have out: "live_outputs cb = [(0, outputs cb ! 0)]" using primary_outputs wf cb by (simp add: txs)
  obtain a where a: "development_allocation_at_height ?h ?l = Inr a" by (rule release_allocation)
  have man: "validate_mandatory_coinbase b parent = Inr ()" using ok by (auto simp: mint_checks_def bind_out_Inr_iff)
  obtain c where c: "validate_fee_policy_and_claimable_fee_sum b parent = Inr c"
    and le: "\<not> ucast (da_miner_subsidy a) + c < (ucast (out_amount (outputs cb ! 0)) :: u128)"
    using ok cb max_coinbase_value_total[of ?h ?l] a
    by (auto simp: mint_checks_def bind_out_Inr_iff txs out is_primary_coinbase_shape_def bind_eq_Some_conv split: if_splits)
  have "unat c \<le> sum_list (map group_fee gs)"
    using c claimable_bound[of "hdr_active_slot_count parent" "hdr_log_slots parent" 0 gs 0 c]
    by (simp add: validate_fee_policy_and_claimable_fee_sum_def stream layout_facts_def)
  moreover have "unat (out_amount (outputs cb ! 0)) \<le> unat (da_miner_subsidy a) + unat c"
  proof -
    have "unat (ucast (out_amount (outputs cb ! 0)) :: u128) \<le> unat (ucast (da_miner_subsidy a) + c)"
      using le by (simp add: not_less word_le_nat_alt)
    also have "\<dots> \<le> unat (ucast (da_miner_subsidy a) :: u128) + unat c" by (simp add: unat_word_ariths)
    finally show ?thesis by simp
  qed
  moreover have "sum_list (map output_total sys) = 2 * paid_each a"
  proof (cases sys)
    case Nil
    then show ?thesis using man a
      by (auto simp: validate_mandatory_coinbase_def validate_mandatory_coinbase_with_schedule_def Let_def stream layout_facts_def
          paid_each_def development_allocation_at_height_def bind_res_Inr_iff split: option.splits if_splits)
  next
    case (Cons p rest)
    then have p: "sys = [p]" "txs ! 1 = p" if "txs = ?txs" for txs using sys(1) that txs by auto
    have po: "live_outputs p = [(0, outputs p ! 0), (1, outputs p ! 1)]" using payout_outputs wf sys p[OF refl] by (simp add: txs)
    show ?thesis using man a p[OF refl] po
      by (auto simp: validate_mandatory_coinbase_def validate_mandatory_coinbase_with_schedule_def Let_def stream layout_facts_def
          paid_each_def development_allocation_at_height_def bind_res_Inr_iff output_total_def split: option.splits if_splits)
  qed
  ultimately show ?thesis by (simp add: issued_at_height_def a issued_def output_total_def out)
qed

section \<open>Chains of accepted blocks\<close>

text \<open>
  A chain grown from a genesis block by blocks that pass the native checks and whose
  application succeeds; this is what the sequential path does, and what a full node does
  when it materializes a verified block.  The finalized counts, the ASERT anchor and the
  wall clock are those the caller supplies, the previous timestamps those of the chain.
  The flag tells whether a caller that supplies a wall clock asks for the proof of work.
\<close>

inductive accepted_chain :: "bool \<Rightarrow> block_header list \<Rightarrow> chain_state \<Rightarrow> bool" for pow where
  accept_genesis: "1 \<le> hdr_log_slots (blk_header b) \<Longrightarrow> hdr_log_slots (blk_header b) \<le> LOG_SLOTS_MAX \<Longrightarrow>
    with_log_slots (unat (hdr_log_slots (blk_header b))) = Some cs0 \<Longrightarrow> apply_genesis_block b cs0 = Some (Inr (root, cs)) \<Longrightarrow>
    accepted_chain pow [blk_header b] cs"
| accept_block: "accepted_chain pow hs cs \<Longrightarrow> list_all wf_body (blk_transactions b) \<Longrightarrow>
    validate_block_checks_inner b (last hs) (map hdr_timestamp hs) counts anchor lt pow None = Some (Inr ()) \<Longrightarrow>
    apply_block b cs = Some (Inr (root, cs')) \<Longrightarrow>
    accepted_chain pow (hs @ [blk_header b]) cs'"

lemma header_inner_without_pow:
  "validate_header_inner h p ph ts counts lt ah ats t True sch = Inr () \<Longrightarrow> validate_header_inner h p ph ts counts lt ah ats t False sch = Inr ()"
  by (auto simp: validate_header_inner_def Let_def bind_res_Inr_iff split: if_splits)

lemma checks_inner_parts:
  assumes "validate_block_checks_inner b p ts counts anchor lt pow None = Some (Inr ())"
  shows "\<exists>lt. validate_header_inner (blk_header b) p (block_id p) ts counts lt (ai_height anchor) (ai_timestamp anchor) (ai_target anchor) pow None = Inr ()"
    and "mint_checks b p = Some (Inr ())" and "\<exists>r. validate_block_resource_preflight b = Some (Inr r)"
proof -
  from assms obtain r where r: "validate_block_resource_preflight b = Some (Inr r)" and m: "mint_checks b p = Some (Inr ())"
    and H: "(case (lt, pow) of
        (Some local_time, True) \<Rightarrow>
          validate_header (blk_header b) p ts counts local_time (ai_height anchor) (ai_timestamp anchor) (ai_target anchor)
      | (Some local_time, False) \<Rightarrow>
          validate_header_template (blk_header b) p ts counts local_time (ai_height anchor) (ai_timestamp anchor) (ai_target anchor)
      | (None, _) \<Rightarrow> validate_header_timeless (blk_header b) p ts counts (ai_height anchor) (ai_timestamp anchor) (ai_target anchor)) = Inr ()"
    by (auto simp: checks_inner_eq bind_out_Inr_iff)
  show "mint_checks b p = Some (Inr ())" "\<exists>r. validate_block_resource_preflight b = Some (Inr r)" by (rule m) (use r in blast)
  show "\<exists>lt. validate_header_inner (blk_header b) p (block_id p) ts counts lt (ai_height anchor) (ai_timestamp anchor) (ai_target anchor) pow None = Inr ()"
    using H by (cases lt; cases pow) (auto intro: header_inner_without_pow simp: validate_header_def validate_header_template_def validate_header_timeless_def)
qed

lemma genesis_empty:
  assumes "1 \<le> L" "L \<le> 32" "with_log_slots L = Some cs0" "apply_genesis_block b cs0 = Some (Inr (root, cs))"
  shows "hdr_height (blk_header b) = 0" "chain_repr cs (empty_ledger L)" "ss_evicted (cs_state cs) = {}"
proof -
  have R: "chain_repr cs0 (empty_ledger L)" "ss_evicted (cs_state cs0) = {}" using with_log_slots_repr[OF assms(1,2)] assms(3) by auto
  from try_state_root_repr[OF R(1)] obtain cs1 where cs1: "try_state_root cs0 = Some (Inr (utxo_root (empty_ledger L), cs1))"
    "chain_repr cs1 (empty_ledger L)" "ss_evicted (cs_state cs1) = {}" using R(2) by auto
  have "hdr_height (blk_header b) = 0 \<and> cs = cs1"
    using assms(4) by (auto simp: apply_genesis_block_def Let_def cs1(1) split: if_splits)
  then show "hdr_height (blk_header b) = 0" "chain_repr cs (empty_ledger L)" "ss_evicted (cs_state cs) = {}" using cs1 by auto
qed

lemma block_supply_bound:
  assumes R: "chain_repr cs u" and ev: "ss_evicted (cs_state cs) = {}" and wf: "list_all wf_body (blk_transactions b)"
    and checks: "validate_block_checks_inner b p ts counts anchor lt pow None = Some (Inr ())"
    and run: "apply_block b cs = Some (Inr (root, cs'))"
  shows "\<exists>u'. chain_repr cs' u' \<and> ss_evicted (cs_state cs') = {} \<and> unat (cs_circulating_supply_micronoid cs') \<le>
    unat (cs_circulating_supply_micronoid cs) + issued_at_height (hdr_height (blk_header b)) (hdr_log_slots (blk_header b))"
proof -
  note parts = checks_inner_parts[OF checks]
  have res: "resources_ok b" using preflight_correct[OF wf] parts(3) by auto
  then have T: "unat (hdr_log_slots (blk_header b)) \<le> 32" by (simp add: resources_ok_def word_le_nat_alt)
  have "list_all (resident_at {} L) (blk_transactions b)" for L by (simp add: resident_at_def list_all_iff)
  then obtain u' where u': "block_step u b u'" "chain_repr cs' u'" "ss_evicted (cs_state cs') = {}"
    using apply_block_outcome[OF R wf T] run by (auto simp: ev)
  obtain cb sys gs where L: "block_layout (blk_transactions b) cb sys gs" using res by (auto simp: resources_ok_def)
  have high: "u_slots u k = EMPTY" if "2 ^ u_log u \<le> k" for k using R that by (simp add: chain_repr_def state_repr_def)
  have "unat (cs_circulating_supply_micronoid cs') = slot_total (u_log u') (u_slots u')"
    "unat (cs_circulating_supply_micronoid cs) = slot_total (u_log u) (u_slots u)" using R u'(2) by (simp_all add: chain_repr_def)
  then show ?thesis using u' block_supply[OF wf u'(1) L high] mint_bound[OF wf L parts(2)] by (intro exI[of _ u']) simp
qed

lemma accepted_chain_invariant:
  assumes "accepted_chain pow hs cs"
  shows "header_chain pow hs \<and> (\<exists>u. chain_repr cs u) \<and> ss_evicted (cs_state cs) = {} \<and>
    unat (cs_circulating_supply_micronoid cs) \<le> (\<Sum>h = 1..<length hs. issued_at_height (hdr_height (hs ! h)) (hdr_log_slots (hs ! h)))"
  using assms
proof induction
  case (accept_genesis b cs0 root cs)
  have L: "1 \<le> unat (hdr_log_slots (blk_header b))" "unat (hdr_log_slots (blk_header b)) \<le> 32"
    using accept_genesis(1,2) by (simp_all add: word_le_nat_alt LOG_SLOTS_MAX_def)
  note G = genesis_empty[OF L accept_genesis(3,4)]
  have "unat (cs_circulating_supply_micronoid cs) = 0" using G(2) by (simp add: chain_repr_def empty_ledger_def slot_total_def)
  moreover have "header_chain pow [blk_header b]" by (rule chain_start[OF G(1) accept_genesis(2)])
  ultimately show ?case using G by auto
next
  case (accept_block hs cs b counts anchor lt root cs')
  then obtain u where u: "chain_repr cs u" "ss_evicted (cs_state cs) = {}" and hc: "header_chain pow hs" by blast
  note step = block_supply_bound[OF u accept_block(2-4)]
  have "header_chain pow (hs @ [blk_header b])"
    using chain_extend[OF hc] checks_inner_parts(1)[OF accept_block(3)] by blast
  moreover have "(\<Sum>h = 1..<length (hs @ [blk_header b]). issued_at_height (hdr_height ((hs @ [blk_header b]) ! h)) (hdr_log_slots ((hs @ [blk_header b]) ! h))) =
    (\<Sum>h = 1..<length hs. issued_at_height (hdr_height (hs ! h)) (hdr_log_slots (hs ! h))) +
      issued_at_height (hdr_height (blk_header b)) (hdr_log_slots (blk_header b))"
    using header_chain_nonempty[OF hc] by (simp add: nth_append Suc_leI)
  ultimately show ?case using step accept_block.IH by auto
qed

section \<open>Properties\<close>

text \<open>A genesis block and a first block whose coinbase stays below the subsidy.\<close>

definition genesis_block :: block where
  "genesis_block = \<lparr> blk_header = example_genesis\<lparr> state_root := utxo_root (empty_ledger 24), tx_root := zero_digest,
     hdr_active_slot_count := 0, hdr_alloc_counter := 0 \<rparr>, blk_transactions = [] \<rparr>"

definition first_mint :: tx_body where
  "first_mint = example_mint\<lparr> epoch_anchor := block_id (blk_header genesis_block) \<rparr>"

definition first_ledger :: utxo where
  "first_ledger = utxo_after (empty_ledger 24) first_mint (Some 1)"

definition first_block :: block where
  "first_block = \<lparr> blk_header = example_child\<lparr> prev_block_hash := block_id (blk_header genesis_block), miner_address := replicate 32 2,
     state_root := utxo_root first_ledger, tx_root := the (root_from_hashes [txid first_mint]), hdr_active_slot_count := 1,
     hdr_alloc_counter := 1 \<rparr>, blk_transactions = [first_mint] \<rparr>"

lemma first_header:
  "hdr_height (blk_header first_block) = 1" "hdr_log_slots (blk_header first_block) = 24"
  "hdr_height (blk_header genesis_block) = 0" "hdr_log_slots (blk_header genesis_block) = 24"
  "hdr_timestamp (blk_header genesis_block) = 1787328000" "blk_transactions first_block = [first_mint]"
  by (simp_all add: first_block_def genesis_block_def example_genesis_def example_child_def example_header_def)

lemma first_mint_live:
  "live_inputs first_mint = []"
  "live_outputs first_mint = [(0, \<lparr> out_slot_index = 9, out_amount = 900, out_owner = replicate 32 2 \<rparr>)]"
  "live_input_slots first_mint = []" "live_output_slots first_mint = [9]" "outputs first_mint ! 0 = \<lparr> out_slot_index = 9, out_amount = 900, out_owner = replicate 32 2 \<rparr>"
  by (simp_all add: live_inputs_def live_outputs_def input_is_live_iff output_is_live_iff first_mint_def example_mint_def live_input_slots_def live_output_slots_def)

lemma wf_first_mint: "wf_body first_mint"
  using wf_example_mint by (simp add: first_mint_def wf_simps block_id_def hash_block_header_def Let_def)

lemma canonical_first_mint: "canonical_body first_mint"
proof -
  have "canonical_body example_mint" by (rule canonical_example_mint)
  then show ?thesis
    unfolding canonical_body_def canonical_mint_def canonical_spend_def dead_lanes_zero_def first_mint_def input_is_live_iff output_is_live_iff
      live_input_slots_def live_output_slots_def live_inputs_def live_outputs_def input_total_def output_total_def
    by (simp add: example_mint_def)
qed

lemma first_block_step: "block_step (empty_ledger 24) first_block first_ledger" "block_layout [first_mint] first_mint [] []"
proof -
  have acc: "utxo_accepts (empty_ledger 24) first_mint (Some 1)"
    by (simp add: utxo_accepts_def empty_ledger_def first_mint_live)
  have up: "(empty_ledger 24)\<lparr> u_log := unat (24 :: u32) \<rparr> = empty_ledger 24" by (simp add: empty_ledger_def)
  show layout: "block_layout [first_mint] first_mint [] []"
    by (simp add: block_layout_def canonical_stream_def is_primary_coinbase_shape_def first_mint_def example_mint_def output_bitmap_bit_def TX_INPUTS_def)
  have root: "root_from_hashes [txid first_mint] \<noteq> None"
    using tx_root_layout(2)[OF _ layout] wf_first_mint by simp
  show "block_step (empty_ledger 24) first_block first_ledger"
    unfolding block_step_def first_header
    by (intro exI[of _ first_mint] exI[of _ "[]"])
      (use acc layout root canonical_first_mint in \<open>auto simp: first_block_def up first_mint_live first_ledger_def utxo_after_def empty_ledger_def\<close>)
qed

lemma first_preflight: "\<exists>r. validate_block_resource_preflight first_block = Some (Inr r)"
proof -
  have "resources_ok first_block"
    using first_block_step(2) by (auto simp: resources_ok_def first_header first_mint_live word_le_nat_alt)
  then show ?thesis using preflight_correct[of first_block] wf_first_mint
    by (auto simp: first_header split: option.splits sum.splits)
qed

lemma first_allocation:
  "development_allocation_at_height 1 24 =
    Inr \<lparr> da_active = True, da_payout_due = False, da_share_each = 2500000, da_payout_each = None, da_miner_subsidy = 45000000 \<rparr>"
proof -
  have "development_allocation_at_height 1 24 = development_allocation 1 24"
    by (simp add: development_allocation_at_height_def development_allocation_with_schedule_def release_activation word_le_nat_alt)
  moreover have "block_reward 24 = 50000000"
    using block_reward_eq[of 24] by (simp add: Let_def word_unat_eq_iff)
  ultimately show ?thesis
    by (simp add: development_allocation_def development_allocation_active_def development_payout_due_def development_share_each_def Let_def
        DEVELOPMENT_ALLOCATION_END_HEIGHT_def TARGET_BLOCKS_PER_DAY_def BLOCK_TIME_def DEVELOPMENT_SHARE_DENOMINATOR_def
        word_le_nat_alt word_less_nat_alt word_unat_eq_iff unat_mod unat_div)
qed

lemma first_mint_checks: "mint_checks first_block (blk_header genesis_block) = Some (Inr ())"
proof -
  have stream: "validate_block_page_stream [first_mint] = Inr (layout_facts [] [])"
    using layout_iff[of "[first_mint]"] wf_first_mint first_block_step(2) by auto
  have body: "validate_body_semantics_no_hash first_mint = Inr ()"
    using validate_canonical_body_iff[OF wf_first_mint] canonical_first_mint by simp
  have cb: "is_coinbase first_mint" "epoch_anchor first_mint = block_id (blk_header genesis_block)"
    by (simp_all add: first_mint_def example_mint_def)
  have owner: "miner_address (blk_header first_block) = replicate 32 2" by (simp add: first_block_def)
  obtain a where a: "development_allocation_at_height 1 24 = Inr a" "da_payout_each a = None" "da_miner_subsidy a = 45000000"
    using first_allocation by auto
  have man: "validate_mandatory_coinbase first_block (blk_header genesis_block) = Inr ()"
    using a by (simp add: validate_mandatory_coinbase_def validate_mandatory_coinbase_with_schedule_def first_header stream body cb owner
        first_mint_live layout_facts_def development_allocation_at_height_def)
  have fees: "validate_fee_policy_and_claimable_fee_sum first_block (blk_header genesis_block) = Inr 0"
    by (simp add: validate_fee_policy_and_claimable_fee_sum_def first_header stream layout_facts_def)
  have ceiling: "max_coinbase_value_from_claimable_fee_sum 1 24 0 = Some 45000000"
    using a max_coinbase_value_total[of 1 24 0] by auto
  have conflicts: "validate_block_slot_conflicts [first_mint] = Inr ()" by (simp add: slot_conflicts_iff first_mint_live)
  show ?thesis
    unfolding mint_checks_def first_header
    by (simp add: man stream conflicts body cb fees ceiling first_mint_live validate_tx_consensus_def)
qed

lemma first_chain: "\<exists>cs. accepted_chain False [blk_header genesis_block, blk_header first_block] cs"
proof -
  obtain cs0 where cs0: "with_log_slots 24 = Some cs0" "chain_repr cs0 (empty_ledger 24)" "ss_evicted (cs_state cs0) = {}"
    using with_log_slots_repr[of 24] by auto
  obtain cs1 where "try_state_root cs0 = Some (Inr (utxo_root (empty_ledger 24), cs1))" using try_state_root_repr[OF cs0(2)] by blast
  then have g: "apply_genesis_block genesis_block cs0 = Some (Inr (utxo_root (empty_ledger 24), cs1))"
    by (simp add: apply_genesis_block_def genesis_block_def example_genesis_def)
  have c1: "accepted_chain False [blk_header genesis_block] cs1"
    by (rule accept_genesis[OF _ _ _ g]) (use cs0 in \<open>simp_all add: first_header LOG_SLOTS_MAX_def\<close>)
  note R = genesis_empty[OF _ _ cs0(1) g, simplified]
  have "list_all (resident_at {} L) (blk_transactions first_block)" for L by (simp add: resident_at_def list_all_iff)
  then obtain root cs2 where a: "apply_block first_block cs1 = Some (Inr (root, cs2))"
    using apply_block_outcome[OF R(2), of first_block] first_block_step(1) wf_first_mint R(3)
    by (auto simp: first_header split: option.splits sum.splits)
  have "expected_child_log_slots 0 24 [] = 24" by (simp add: expected_child_log_slots_def window_None_iff)
  then have header: "validate_header_template (blk_header first_block) (blk_header genesis_block) [1787328000] [] 1787328020
      0 1787328000 GENESIS_TARGET = Inr ()"
    by (simp add: validate_header_template_def validate_header_inner_def first_block_def genesis_block_def example_child_def example_genesis_def
        example_header_def validate_median_time_past_def median_time_past_def MEDIAN_TIME_BLOCKS_def validate_future_drift_def
        saturating_add_def MAX_FUTURE_DRIFT_def)
  have "validate_block_checks_inner first_block (blk_header genesis_block) [1787328000] []
      \<lparr> ai_height = 0, ai_timestamp = 1787328000, ai_target = GENESIS_TARGET \<rparr> (Some 1787328020) False None = Some (Inr ())"
    using first_preflight first_mint_checks header by (auto simp: checks_inner_eq)
  from accept_block[OF c1 _ _ a, of "[]" "\<lparr> ai_height = 0, ai_timestamp = 1787328000, ai_target = GENESIS_TARGET \<rparr>" "Some 1787328020"] this
  show ?thesis using wf_first_mint by (auto simp: first_header)
qed

text \<open>
  C1: Money is never created beyond the schedule.  In every chain grown from a genesis block
  by blocks that pass the checks and apply, whatever finalized counts, ASERT anchors and
  clocks the callers supplied, the circulating supply is the sum of the amounts of all
  slots and never exceeds the sum of the block rewards of its heights: fees, burnt fees,
  coinbases and development payouts included.
\<close>

theorem supply_capped:
  assumes "accepted_chain pow hs cs" "length hs \<le> 2 ^ 64"
  shows "\<exists>F. state_repr (cs_state cs) F \<and>
    unat (cs_circulating_supply_micronoid cs) = slot_total (ss_log_slots (cs_state cs)) F \<and>
    unat (cs_circulating_supply_micronoid cs) \<le> (\<Sum>h = 1..<length hs. unat (block_reward_at_height (of_nat h) (hdr_log_slots (hs ! h))))"
proof -
  note inv = accepted_chain_invariant[OF assms(1)]
  then have hc: "header_chain pow hs" by blast
  obtain u where "chain_repr cs u" using inv by blast
  then have F: "state_repr (cs_state cs) (u_slots u)"
    "unat (cs_circulating_supply_micronoid cs) = slot_total (ss_log_slots (cs_state cs)) (u_slots u)" by (simp_all add: chain_repr_def)
  have ne: "hs \<noteq> []" by (rule header_chain_nonempty[OF hc])
  have range: "{1..<length hs} = {1..length hs - 1}" using ne by (cases hs) auto
  have "(\<Sum>h = 1..<length hs. issued_at_height (hdr_height (hs ! h)) (hdr_log_slots (hs ! h))) =
      (\<Sum>h = 1..<length hs. issued_at_height (of_nat h) (hdr_log_slots (hs ! h)))"
    by (intro sum.cong refl) (simp add: header_chain_heights[OF hc])
  also have "\<dots> \<le> (\<Sum>h = 1..<length hs. unat (block_reward_at_height (of_nat h) (hdr_log_slots (hs ! h))))"
    unfolding range
    by (rule issuance_bound) (use assms(2) ne header_chain_slots_mono[OF hc] in \<open>auto simp: less_diff_conv Suc_le_eq\<close>)
  finally show ?thesis using inv F by (intro exI[of _ "u_slots u"]) auto
qed

theorem supply_capped_witness:
  "\<exists>cs. accepted_chain False [blk_header genesis_block, blk_header first_block] cs \<and>
    unat (cs_circulating_supply_micronoid cs) \<le> 50000000"
proof -
  obtain cs where cs: "accepted_chain False [blk_header genesis_block, blk_header first_block] cs" using first_chain by blast
  have "unat (block_reward_at_height 1 24) = 50000000"
    using block_reward_eq[of 24] by (simp add: release_reward word_le_nat_alt)
  then show ?thesis using supply_capped[OF cs] cs by (auto simp: first_header intro!: exI[of _ cs])
qed



text \<open>
  C38: The resource preflight is exact.  It never panics, accepts exactly the blocks with a
  depth between 1 and 32, the canonical layout, all live slots below the depth and at most
  256 distinct segments, so that the later caps on pages, inputs, outputs and actions never
  fire.  All eight counts it returns are exact: the pages and logical transactions of the
  layout, the live inputs, the live outputs and their sum, the distinct touched slots, the
  distinct segments and the siblings of the frontier.
\<close>

theorem resource_preflight_exact:
  assumes "list_all wf_body (blk_transactions b)"
  shows "case validate_block_resource_preflight b of None \<Rightarrow> False
    | Some (Inl _) \<Rightarrow> \<not> resources_ok b
    | Some (Inr r) \<Rightarrow> resources_ok b \<and>
        (\<exists>cb sys gs. block_layout (blk_transactions b) cb sys gs \<and>
          brp_user_page_count r = length (concat gs) \<and> brp_logical_tx_count r = length gs) \<and>
        brp_live_input_count r = block_inputs (blk_transactions b) \<and> brp_output_count r = block_outputs (blk_transactions b) \<and>
        brp_action_count r = block_inputs (blk_transactions b) + block_outputs (blk_transactions b) \<and>
        brp_distinct_segment_count r = card (segment_of ` set (slots_of (blk_transactions b))) \<and>
        brp_touched_slot_count r = card (set (slots_of (blk_transactions b))) \<and>
        brp_state_frontier_node_count r = (if slots_of (blk_transactions b) = [] then 0
          else length (frontier (unat ` set (slots_of (blk_transactions b))) (unat (hdr_log_slots (blk_header b)))))"
  by (rule preflight_correct[OF assms])

theorem resource_preflight_exact_witness:
  "\<exists>r. validate_block_resource_preflight first_block = Some (Inr r) \<and> brp_live_input_count r = 0 \<and> brp_output_count r = 1 \<and>
    brp_action_count r = 1 \<and> brp_touched_slot_count r = 1 \<and> brp_distinct_segment_count r = 1"
proof -
  obtain r where r: "validate_block_resource_preflight first_block = Some (Inr r)" using first_preflight by blast
  have "list_all wf_body (blk_transactions first_block)" using wf_first_mint by (simp add: first_header)
  from resource_preflight_exact[OF this] show ?thesis
    using r by (auto simp: first_header first_mint_live block_inputs_def block_outputs_def)
qed

end
