(* ===== verification/StructuralPlan.thy ===== *)
theory StructuralPlan
  imports SparseMerkle
begin

text \<open>
  Structural-frontier plans (\<open>derive_structural_frontier_plan\<close> and
  \<open>evaluate_structural_frontier\<close> of \<open>noid_chain/src/sparse_merkle.rs\<close>).  The verifier
  derives the hash topology of a multiproof once, as a list of binary operations
  whose operands are touched leaves, frontier siblings or earlier operations, and
  evaluates it on the old and on the new leaves.  A derived plan is shown to refer
  only to values that exist when they are read, to carry the canonical frontier,
  and to evaluate to the root that direct reconstruction computes.  Slice indexing
  out of range is \<open>None\<close>.
\<close>

section \<open>Plans\<close>

datatype structural_node_ref = TouchedLeaf nat | FrontierSibling nat | Combine nat

record structural_combine =
  scb_left :: structural_node_ref
  scb_right :: structural_node_ref

record structural_frontier_plan =
  sfp_touched_leaf_count :: nat
  sfp_frontier_positions :: "frontier_sibling_position list"
  sfp_combines :: "structural_combine list"
  sfp_root :: structural_node_ref

record structural_frontier_evaluation =
  sfe_root :: digest
  sfe_combines :: "digest list"

text \<open>One parent of a level.  A parent is only visited when one of its children is known, so
  the last branch, \<open>unreachable!\<close> in the source, is never taken.\<close>

definition plan_operands :: "nat \<Rightarrow> (nat \<times> structural_node_ref) list \<Rightarrow> nat \<Rightarrow> frontier_sibling_position list
    \<Rightarrow> structural_combine \<times> frontier_sibling_position list" where
  "plan_operands level known base positions =
    (case (map_of known base, map_of known (base + 1)) of
       (Some left, Some right) \<Rightarrow> (\<lparr> scb_left = left, scb_right = right \<rparr>, positions)
     | (Some left, None) \<Rightarrow> (\<lparr> scb_left = left, scb_right = FrontierSibling (length positions) \<rparr>, positions @ [(level, base + 1)])
     | (None, Some right) \<Rightarrow> (\<lparr> scb_left = FrontierSibling (length positions), scb_right = right \<rparr>, positions @ [(level, base)])
     | (None, None) \<Rightarrow> (\<lparr> scb_left = Combine 0, scb_right = Combine 0 \<rparr>, positions))"

definition plan_level :: "nat \<Rightarrow> (nat \<times> structural_node_ref) list \<times> frontier_sibling_position list \<times> structural_combine list
    \<Rightarrow> (nat \<times> structural_node_ref) list \<times> frontier_sibling_position list \<times> structural_combine list" where
  "plan_level level = (\<lambda>(known, positions, combines).
    for_parents (map fst known) (\<lambda>base (next, positions, combines).
      let (combine, positions) = plan_operands level known base positions
      in (bt_insert (base div 2) (Combine (length combines)) next, positions, combines @ [combine]))
      ([], positions, combines))"

definition derive_structural_frontier_plan :: "u32 list \<Rightarrow> u32 \<Rightarrow> sparse_merkle_error + structural_frontier_plan" where
  "derive_structural_frontier_plan indices depth =
    bind_res (validate_indices indices depth) (\<lambda>_.
      let known = collect_leaves indices (map TouchedLeaf [0..<length indices]);
          (known, positions, combines) = fold plan_level [0..<unat depth] (known, [], [])
      in case known of
           (k, root) # _ \<Rightarrow>
             if k = 0
             then Inr \<lparr> sfp_touched_leaf_count = length indices, sfp_frontier_positions = positions, sfp_combines = combines, sfp_root = root \<rparr>
             else Inl (InvalidDepth depth)
         | [] \<Rightarrow> Inl (InvalidDepth depth))"

section \<open>Evaluation\<close>

fun structural_node_hash :: "structural_node_ref \<Rightarrow> digest list \<Rightarrow> digest list \<Rightarrow> digest list \<Rightarrow> digest option" where
  "structural_node_hash (TouchedLeaf ordinal) leaves siblings combines = slice_get leaves ordinal"
| "structural_node_hash (FrontierSibling ordinal) leaves siblings combines = slice_get siblings ordinal"
| "structural_node_hash (Combine ordinal) leaves siblings combines = slice_get combines ordinal"

fun combine_hashes :: "structural_combine list \<Rightarrow> digest list \<Rightarrow> digest list \<Rightarrow> digest list \<Rightarrow> digest list option" where
  "combine_hashes [] leaves siblings hashes = Some hashes"
| "combine_hashes (combine # combines) leaves siblings hashes =
    (case structural_node_hash (scb_left combine) leaves siblings hashes of
       None \<Rightarrow> None
     | Some left \<Rightarrow>
         (case structural_node_hash (scb_right combine) leaves siblings hashes of
            None \<Rightarrow> None
          | Some right \<Rightarrow> combine_hashes combines leaves siblings (hashes @ [state_node_hash left right])))"

definition evaluate_structural_frontier :: "structural_frontier_plan \<Rightarrow> digest list \<Rightarrow> digest list
    \<Rightarrow> (sparse_merkle_error + structural_frontier_evaluation) option" where
  "evaluate_structural_frontier plan leaves siblings =
    (if length leaves \<noteq> sfp_touched_leaf_count plan
     then Some (Inl (LeafCountMismatch (sfp_touched_leaf_count plan) (length leaves)))
     else if length siblings \<noteq> length (sfp_frontier_positions plan)
     then Some (Inl (ProofLengthMismatch (length (sfp_frontier_positions plan)) (length siblings)))
     else case combine_hashes (sfp_combines plan) leaves siblings [] of
            None \<Rightarrow> None
          | Some hashes \<Rightarrow>
              (case structural_node_hash (sfp_root plan) leaves siblings hashes of
                 None \<Rightarrow> None
               | Some root \<Rightarrow> Some (Inr \<lparr> sfe_root = root, sfe_combines = hashes \<rparr>)))"

section \<open>Derived plans are well formed and follow the reconstruction\<close>

text \<open>References below the numbers of leaves, siblings and operations that exist.\<close>

fun ref_ok :: "nat \<Rightarrow> nat \<Rightarrow> nat \<Rightarrow> structural_node_ref \<Rightarrow> bool" where
  "ref_ok n s c (TouchedLeaf i) \<longleftrightarrow> i < n"
| "ref_ok n s c (FrontierSibling i) \<longleftrightarrow> i < s"
| "ref_ok n s c (Combine i) \<longleftrightarrow> i < c"

definition combines_ok :: "nat \<Rightarrow> nat \<Rightarrow> structural_combine list \<Rightarrow> bool" where
  "combines_ok n s cs \<longleftrightarrow> (\<forall>i < length cs. ref_ok n s i (scb_left (cs ! i)) \<and> ref_ok n s i (scb_right (cs ! i)))"

fun ref_hash :: "digest list \<Rightarrow> digest list \<Rightarrow> digest list \<Rightarrow> structural_node_ref \<Rightarrow> digest" where
  "ref_hash leaves siblings hs (TouchedLeaf i) = leaves ! i"
| "ref_hash leaves siblings hs (FrontierSibling i) = siblings ! i"
| "ref_hash leaves siblings hs (Combine i) = hs ! i"

definition run_combines :: "digest list \<Rightarrow> digest list \<Rightarrow> structural_combine list \<Rightarrow> digest list" where
  "run_combines leaves siblings cs =
    fold (\<lambda>c hs. hs @ [state_node_hash (ref_hash leaves siblings hs (scb_left c)) (ref_hash leaves siblings hs (scb_right c))]) cs []"

lemma run_combines_snoc: "run_combines leaves siblings (cs @ [c]) = run_combines leaves siblings cs @
    [state_node_hash (ref_hash leaves siblings (run_combines leaves siblings cs) (scb_left c))
      (ref_hash leaves siblings (run_combines leaves siblings cs) (scb_right c))]"
  by (simp add: run_combines_def)

lemma length_run_combines [simp]: "length (run_combines leaves siblings cs) = length cs"
  by (induction cs rule: rev_induct) (simp_all add: run_combines_snoc, simp add: run_combines_def)

lemma ref_ok_mono: "ref_ok n s c r \<Longrightarrow> s \<le> s' \<Longrightarrow> c \<le> c' \<Longrightarrow> ref_ok n s' c' r"
  by (cases r) auto

lemma ref_hash_append: "ref_ok n s (length hs) r \<Longrightarrow> ref_hash leaves siblings (hs @ hs') r = ref_hash leaves siblings hs r"
  by (cases r) (auto simp: nth_append)

lemma combines_ok_snoc_iff:
  "combines_ok n s (cs @ [c]) \<longleftrightarrow> combines_ok n s cs \<and> ref_ok n s (length cs) (scb_left c) \<and> ref_ok n s (length cs) (scb_right c)"
  by (auto simp: combines_ok_def nth_append less_Suc_eq)

lemma combines_ok_mono: "combines_ok n s cs \<Longrightarrow> s \<le> s' \<Longrightarrow> combines_ok n s' cs"
  unfolding combines_ok_def using ref_ok_mono by blast

lemma structural_node_hash_ok:
  "ref_ok (length leaves) (length siblings) (length hs) r \<Longrightarrow>
    structural_node_hash r leaves siblings hs = Some (ref_hash leaves siblings hs r)"
  by (cases r) (simp_all add: slice_get_def)

lemma combine_hashes_append:
  "combine_hashes (cs @ ds) leaves siblings hs =
    (case combine_hashes cs leaves siblings hs of None \<Rightarrow> None | Some hs \<Rightarrow> combine_hashes ds leaves siblings hs)"
  by (induction cs arbitrary: hs) (auto split: option.splits)

lemma combine_hashes_ok:
  "combines_ok (length leaves) (length siblings) cs \<Longrightarrow> combine_hashes cs leaves siblings [] = Some (run_combines leaves siblings cs)"
proof (induction cs rule: rev_induct)
  case Nil
  then show ?case by (simp add: run_combines_def)
next
  case (snoc c cs)
  let ?n = "length leaves" and ?s = "length siblings"
  have ok: "combines_ok ?n ?s cs" "ref_ok ?n ?s (length cs) (scb_left c)" "ref_ok ?n ?s (length cs) (scb_right c)"
    using snoc.prems by (simp_all add: combines_ok_snoc_iff)
  show ?case using snoc.IH[OF ok(1)] ok(2,3) structural_node_hash_ok[of leaves siblings "run_combines leaves siblings cs"]
    by (simp add: combine_hashes_append run_combines_snoc)
qed

text \<open>The plan state beside the states of the two reference passes.\<close>

abbreviation same_nodes :: "digest list \<Rightarrow> digest list \<Rightarrow> digest list \<Rightarrow> (nat \<times> structural_node_ref) list \<Rightarrow> (nat \<times> digest) list \<Rightarrow> bool" where
  "same_nodes leaves siblings hs \<equiv> list_all2 (\<lambda>(k, r) (k', h). k = k' \<and> ref_hash leaves siblings hs r = h)"

definition plan_sim :: "digest list \<Rightarrow> digest list \<Rightarrow> (nat \<times> structural_node_ref) list \<Rightarrow> frontier_sibling_position list \<Rightarrow> structural_combine list
    \<Rightarrow> (nat \<times> digest) list \<Rightarrow> nat \<Rightarrow> bool" where
  "plan_sim leaves siblings known ps cs knownh cursor \<longleftrightarrow> cursor = length ps \<and> combines_ok (length leaves) (length ps) cs \<and>
    (\<forall>(k, r) \<in> set known. ref_ok (length leaves) (length ps) (length cs) r) \<and>
    same_nodes leaves siblings (run_combines leaves siblings cs) known knownh"

lemma same_nodes_keys: "same_nodes leaves siblings hs known knownh \<Longrightarrow> map fst known = map fst knownh"
  by (induction known knownh rule: list_all2_induct) auto

lemma same_nodes_get:
  "same_nodes leaves siblings hs known knownh \<Longrightarrow> map_of knownh k = map_option (ref_hash leaves siblings hs) (map_of known k)"
  by (induction known knownh rule: list_all2_induct) auto

lemma same_nodes_insert:
  "same_nodes leaves siblings hs known knownh \<Longrightarrow> h = ref_hash leaves siblings hs r \<Longrightarrow>
    same_nodes leaves siblings hs (bt_insert k r known) (bt_insert k h knownh)"
  by (induction known knownh rule: list_all2_induct) auto

lemma same_nodes_extend:
  assumes "same_nodes leaves siblings hs known knownh" "\<forall>(k, r) \<in> set known. ref_ok n s (length hs) r"
  shows "same_nodes leaves siblings (hs @ hs') known knownh"
  using assms by (induction known knownh rule: list_all2_induct) (auto simp: ref_hash_append)

text \<open>One visit, for the two children \<open>known\<close> of the level and the parents \<open>nx\<close> built so far.\<close>

lemma plan_visit:
  assumes sim: "plan_sim leaves siblings known ps cs knownh cursor" and nx: "same_nodes leaves siblings (run_combines leaves siblings cs) nx nxh"
      "\<forall>(k, r) \<in> set nx. ref_ok (length leaves) (length ps) (length cs) r"
    and child: "map_of known base \<noteq> None \<or> map_of known (base + 1) \<noteq> None"
    and step: "plan_operands l known base ps = (c, ps')"
    and rec: "(case (map_of knownh base, map_of knownh (base + 1)) of
           (Some left, Some right) \<Rightarrow> (state_node_hash left right, cursor)
         | (Some left, None) \<Rightarrow> (state_node_hash left (siblings ! cursor), cursor + 1)
         | (None, Some right) \<Rightarrow> (state_node_hash (siblings ! cursor) right, cursor + 1)
         | (None, None) \<Rightarrow> ([], cursor)) = (parent, cursor')"
  shows "plan_sim leaves siblings known ps' (cs @ [c]) knownh cursor' \<and>
    same_nodes leaves siblings (run_combines leaves siblings (cs @ [c])) (bt_insert k (Combine (length cs)) nx) (bt_insert k parent nxh) \<and>
    (\<forall>(k, r) \<in> set (bt_insert k (Combine (length cs)) nx). ref_ok (length leaves) (length ps') (length (cs @ [c])) r) \<and>
    ps' = (case (base \<in> set (map fst known), base + 1 \<in> set (map fst known)) of
         (True, False) \<Rightarrow> ps @ [(l, base + 1)] | (False, True) \<Rightarrow> ps @ [(l, base)] | _ \<Rightarrow> ps)"
proof -
  let ?n = "length leaves" and ?hs = "run_combines leaves siblings cs" and ?rh = "ref_hash leaves siblings"
  have S: "cursor = length ps" "combines_ok ?n (length ps) cs" "\<forall>(k, r) \<in> set known. ref_ok ?n (length ps) (length cs) r"
    "same_nodes leaves siblings ?hs known knownh" using sim by (simp_all add: plan_sim_def)
  note get = same_nodes_get[OF S(4)]
  have known_ok: "ref_ok ?n (length ps) (length cs) r" if "map_of known i = Some r" for i r
    using S(3) map_of_SomeD[OF that] by auto
  have dom: "i \<in> set (map fst known) \<longleftrightarrow> map_of known i \<noteq> None" for i by (auto simp: map_of_eq_None_iff)
  have up: "ref_ok ?n (length ps) (length cs) r \<Longrightarrow> ref_ok ?n (Suc (length ps)) (length cs) r" for r by (rule ref_ok_mono) auto
  have c: "length ps \<le> length ps'" "ref_ok ?n (length ps') (length cs) (scb_left c)" "ref_ok ?n (length ps') (length cs) (scb_right c)"
    "cursor' = length ps'" "parent = state_node_hash (?rh ?hs (scb_left c)) (?rh ?hs (scb_right c))"
    "ps' = (case (base \<in> set (map fst known), base + 1 \<in> set (map fst known)) of
         (True, False) \<Rightarrow> ps @ [(l, base + 1)] | (False, True) \<Rightarrow> ps @ [(l, base)] | _ \<Rightarrow> ps)"
    using step rec child S(1) known_ok up unfolding plan_operands_def get dom by (auto split: option.splits)
  have hs: "run_combines leaves siblings (cs @ [c]) = ?hs @ [parent]" by (simp add: run_combines_snoc c(5))
  have lift: "ref_ok ?n (length ps') (length (cs @ [c])) r" if "ref_ok ?n (length ps) (length cs) r" for r
    using that c(1) by (elim ref_ok_mono) auto
  have "same_nodes leaves siblings (?hs @ [parent]) known knownh" "same_nodes leaves siblings (?hs @ [parent]) nx nxh"
    using same_nodes_extend[OF S(4)] same_nodes_extend[OF nx(1)] S(3) nx(2) by (metis length_run_combines)+
  then have "plan_sim leaves siblings known ps' (cs @ [c]) knownh cursor'"
    "same_nodes leaves siblings (run_combines leaves siblings (cs @ [c])) (bt_insert k (Combine (length cs)) nx) (bt_insert k parent nxh)"
    unfolding plan_sim_def hs using S(3) c(2-4) combines_ok_mono[OF S(2) c(1)] combines_ok_snoc_iff lift
    by (fastforce, intro same_nodes_insert) (simp_all add: nth_append)
  moreover have "\<forall>(k, r) \<in> set (bt_insert k (Combine (length cs)) nx). ref_ok ?n (length ps') (length (cs @ [c])) r"
    using nx(2) lift by (induction k "Combine (length cs)" nx rule: bt_insert.induct) auto
  ultimately show ?thesis using c(6) by blast
qed

section \<open>Levels in lockstep\<close>

abbreviation keys_only :: "(nat \<times> 'v) list \<Rightarrow> (nat \<times> unit) list" where
  "keys_only \<equiv> map (\<lambda>(k, _). (k, ()))"

lemma keys_only_insert: "keys_only (bt_insert k v m) = bt_insert k () (keys_only m)"
  by (induction k v m rule: bt_insert.induct) auto

lemma plan_visits:
  fixes known :: "(nat \<times> structural_node_ref) list" and knownh :: "(nat \<times> digest) list" and l :: nat and siblings :: "digest list"
  defines "visit \<equiv> \<lambda>base (nx, ps, cs). let (c, ps) = plan_operands l known base ps
      in (bt_insert (base div 2) (Combine (length cs)) nx, ps, cs @ [c])"
    and "visith \<equiv> \<lambda>base (nx, cursor). let (parent, cursor) =
        (case (map_of knownh base, map_of knownh (base + 1)) of
           (Some left, Some right) \<Rightarrow> (state_node_hash left right, cursor)
         | (Some left, None) \<Rightarrow> (state_node_hash left (siblings ! cursor), cursor + 1)
         | (None, Some right) \<Rightarrow> (state_node_hash (siblings ! cursor) right, cursor + 1)
         | (None, None) \<Rightarrow> ([], cursor))
      in (bt_insert (base div 2) parent nx, cursor)"
    and "visitp \<equiv> \<lambda>base (nx, ps). (bt_insert (base div 2) () nx,
       case (base \<in> set (map fst known), base + 1 \<in> set (map fst known)) of
         (True, False) \<Rightarrow> ps @ [(l, base + 1)] | (False, True) \<Rightarrow> ps @ [(l, base)] | _ \<Rightarrow> ps)"
  assumes "\<forall>base \<in> set bases. map_of known base \<noteq> None \<or> map_of known (base + 1) \<noteq> None"
    and "plan_sim leaves siblings known ps cs knownh cursor" "same_nodes leaves siblings (run_combines leaves siblings cs) nx nxh"
      "\<forall>(k, r) \<in> set nx. ref_ok (length leaves) (length ps) (length cs) r"
  shows "\<exists>nx' ps' cs' nxh' cursor'. fold visit bases (nx, ps, cs) = (nx', ps', cs') \<and> fold visith bases (nxh, cursor) = (nxh', cursor') \<and>
    fold visitp bases (keys_only nx, ps) = (keys_only nx', ps') \<and>
    plan_sim leaves siblings nx' ps' cs' nxh' cursor'"
  using assms(4-7)
proof (induction bases arbitrary: nx ps cs nxh cursor)
  case Nil
  then show ?case by (simp add: plan_sim_def)
next
  case (Cons base bases)
  obtain c ps1 where c: "plan_operands l known base ps = (c, ps1)" by fastforce
  obtain parent cursor1 where p: "(case (map_of knownh base, map_of knownh (base + 1)) of
           (Some left, Some right) \<Rightarrow> (state_node_hash left right, cursor)
         | (Some left, None) \<Rightarrow> (state_node_hash left (siblings ! cursor), cursor + 1)
         | (None, Some right) \<Rightarrow> (state_node_hash (siblings ! cursor) right, cursor + 1)
         | (None, None) \<Rightarrow> ([], cursor)) = (parent, cursor1)" by (rule prod.exhaust)
  have "map_of known base \<noteq> None \<or> map_of known (base + 1) \<noteq> None" using Cons.prems(1) by simp
  note V = plan_visit[OF Cons.prems(2-4) this c p, of "base div 2"]
  have ps1: "ps1 = (case (base \<in> set (map fst known), base + 1 \<in> set (map fst known)) of
         (True, False) \<Rightarrow> ps @ [(l, base + 1)] | (False, True) \<Rightarrow> ps @ [(l, base)] | _ \<Rightarrow> ps)" using V by blast
  have steps: "visit base (nx, ps, cs) = (bt_insert (base div 2) (Combine (length cs)) nx, ps1, cs @ [c])"
    "visith base (nxh, cursor) = (bt_insert (base div 2) parent nxh, cursor1)"
    "visitp base (keys_only nx, ps) = (keys_only (bt_insert (base div 2) (Combine (length cs)) nx), ps1)"
    by (simp_all only: visit_def visith_def visitp_def prod.case c p[unfolded prod.case] Let_def keys_only_insert ps1)
  have V': "plan_sim leaves siblings known ps1 (cs @ [c]) knownh cursor1"
    "same_nodes leaves siblings (run_combines leaves siblings (cs @ [c])) (bt_insert (base div 2) (Combine (length cs)) nx) (bt_insert (base div 2) parent nxh)"
    "\<forall>(k, r) \<in> set (bt_insert (base div 2) (Combine (length cs)) nx). ref_ok (length leaves) (length ps1) (length (cs @ [c])) r"
    using V by blast+
  show ?case unfolding fold_simps steps by (rule Cons.IH[OF _ V']) (use Cons.prems(1) in simp)
qed

lemma plan_level_sim:
  assumes "plan_sim leaves siblings known ps cs knownh cursor" "ascending (map fst known)"
  shows "\<exists>known' ps' cs' knownh' cursor'. plan_level l (known, ps, cs) = (known', ps', cs') \<and>
    reconstruct_level siblings knownh cursor = (knownh', cursor') \<and> position_level l (map fst known) ps = (keys_only known', ps') \<and>
    plan_sim leaves siblings known' ps' cs' knownh' cursor'"
proof -
  let ?bases = "map ((*) 2) (parents (set (map fst known)))"
  have "same_nodes leaves siblings (run_combines leaves siblings cs) known knownh" using assms(1) by (simp add: plan_sim_def)
  then have keys: "map fst knownh = map fst known" using same_nodes_keys by metis
  have "map_of known base \<noteq> None \<or> map_of known (base + 1) \<noteq> None" if "base \<in> set ?bases" for base
  proof -
    obtain k where k: "k \<in> fst ` set known" "base = 2 * (k div 2)" using \<open>base \<in> set ?bases\<close> by auto
    then have "k = base \<or> k = base + 1" by (cases "even k") auto
    moreover have "map_of known k \<noteq> None" using k(1) by (simp add: map_of_eq_None_iff)
    ultimately show ?thesis by blast
  qed
  then show ?thesis
    using plan_visits[of ?bases known leaves siblings ps cs knownh cursor "[]" "[]" l] assms(1)
    unfolding plan_level_def reconstruct_level_def position_level_def keys for_parents_eq[OF assms(2)] prod.case by simp
qed

lemma plan_levels:
  fixes indices
  defines "K \<equiv> index_set indices"
  assumes v: "valid_indices indices depth" and len: "length leaves = length indices"
  shows "\<exists>known ps cs knownh cursor.
    fold plan_level [0..<n] (collect_leaves indices (map TouchedLeaf [0..<length indices]), [], []) = (known, ps, cs) \<and>
    fold (\<lambda>_ (known, cursor). reconstruct_level siblings known cursor) [0..<n] (collect_leaves indices leaves, 0) = (knownh, cursor) \<and>
    plan_sim leaves siblings known ps cs knownh cursor \<and> map fst known = sorted_list_of_set (keys_at K n) \<and> ps = frontier K n"
proof (induction n)
  case 0
  have c: "collect_leaves indices ls = zip (map unat indices) ls" if "length ls = length indices" for ls :: "'v list"
    using collect_leaves_zip[of indices ls] v that by (simp add: valid_indices_def)
  have "plan_sim leaves siblings (zip (map unat indices) (map TouchedLeaf [0..<length indices])) [] [] (zip (map unat indices) leaves) 0"
    using len by (auto simp: plan_sim_def combines_ok_def list_all2_conv_all_nth set_zip)
  then show ?case using len
    by (simp add: c frontier_def K_def valid_indices_keys[OF v, symmetric])
next
  case (Suc n)
  then obtain known ps cs knownh cursor where IH:
    "fold plan_level [0..<n] (collect_leaves indices (map TouchedLeaf [0..<length indices]), [], []) = (known, ps, cs)"
    "fold (\<lambda>_ (known, cursor). reconstruct_level siblings known cursor) [0..<n] (collect_leaves indices leaves, 0) = (knownh, cursor)"
    "plan_sim leaves siblings known ps cs knownh cursor" "map fst known = sorted_list_of_set (keys_at K n)" "ps = frontier K n" by blast
  have asc: "ascending (map fst known)" unfolding IH(4) by simp
  obtain known' ps' cs' knownh' cursor' where L: "plan_level n (known, ps, cs) = (known', ps', cs')"
    "reconstruct_level siblings knownh cursor = (knownh', cursor')" "position_level n (map fst known) ps = (keys_only known', ps')"
    "plan_sim leaves siblings known' ps' cs' knownh' cursor'"
    using plan_level_sim[OF IH(3) asc, of n] by blast
  have "finite K" by (simp add: K_def)
  from position_level_eq[OF this, of n ps] have "map fst known' = sorted_list_of_set (keys_at K (Suc n))" "ps' = frontier K (Suc n)"
    unfolding IH(4)[symmetric] L(3) by (simp_all add: IH(5) frontier_Suc comp_def split_def)
  then show ?case using IH(1,2) L(1,2,4) by simp
qed

lemma structural_plan:
  assumes "valid_indices indices depth"
  shows "\<exists>plan. derive_structural_frontier_plan indices depth = Inr plan \<and>
    frontier_sibling_positions indices depth = Inr (sfp_frontier_positions plan) \<and>
    (\<forall>leaves siblings. length leaves = length indices \<longrightarrow> length siblings = length (sfp_frontier_positions plan) \<longrightarrow>
      (\<exists>evaluation. evaluate_structural_frontier plan leaves siblings = Some (Inr evaluation) \<and>
        reconstruct_root indices leaves siblings depth = Inr (sfe_root evaluation)))"
proof -
  let ?K = "index_set indices" and ?d = "unat depth"
  let ?run = "fold plan_level [0..<?d] (collect_leaves indices (map TouchedLeaf [0..<length indices]), [], [])"
  obtain known ps cs where run: "?run = (known, ps, cs)" by (rule prod_cases3)
  have L: "\<exists>knownh cursor. fold (\<lambda>_ (known, cursor). reconstruct_level siblings known cursor) [0..<?d] (collect_leaves indices leaves, 0) = (knownh, cursor) \<and>
      plan_sim leaves siblings known ps cs knownh cursor \<and> map fst known = sorted_list_of_set (keys_at ?K ?d) \<and> ps = frontier ?K ?d"
    if "length leaves = length indices" for leaves siblings
    using plan_levels[OF assms that, of ?d siblings] unfolding run by auto
  have "keys_at ?K ?d = {0}" using assms by (intro keys_at_top) (auto simp: valid_indices_def)
  moreover have keys: "map fst known = sorted_list_of_set (keys_at ?K ?d)" "ps = frontier ?K ?d"
    using L[of "replicate (length indices) []" "[]"] by auto
  ultimately obtain r where known: "known = [(0, r)]" by auto
  define plan where "plan = \<lparr> sfp_touched_leaf_count = length indices, sfp_frontier_positions = ps, sfp_combines = cs, sfp_root = r \<rparr>"
  obtain ks where "validate_indices indices depth = Inr ks" using assms validate_indices_iff[of indices depth] by (auto simp: valid_indices_def)
  then have derive: "derive_structural_frontier_plan indices depth = Inr plan"
    by (simp add: derive_structural_frontier_plan_def run known plan_def)
  have "\<exists>evaluation. evaluate_structural_frontier plan leaves siblings = Some (Inr evaluation) \<and>
      reconstruct_root indices leaves siblings depth = Inr (sfe_root evaluation)"
    if len: "length leaves = length indices" "length siblings = length ps" for leaves siblings
  proof -
    let ?hs = "run_combines leaves siblings cs"
    obtain knownh cursor where R: "fold (\<lambda>_ (known, cursor). reconstruct_level siblings known cursor) [0..<?d] (collect_leaves indices leaves, 0) = (knownh, cursor)"
      "plan_sim leaves siblings known ps cs knownh cursor" using L[OF len(1)] by blast
    have ok: "combines_ok (length leaves) (length siblings) cs" "ref_ok (length leaves) (length siblings) (length ?hs) r"
      and "same_nodes leaves siblings ?hs known knownh" using R(2) len by (simp_all add: plan_sim_def known)
    then have "knownh = [(0, ref_hash leaves siblings ?hs r)]" by (auto simp: known list_all2_Cons1)
    moreover have "evaluate_structural_frontier plan leaves siblings = Some (Inr \<lparr> sfe_root = ref_hash leaves siblings ?hs r, sfe_combines = ?hs \<rparr>)"
      using len by (simp add: evaluate_structural_frontier_def plan_def combine_hashes_ok[OF ok(1)] structural_node_hash_ok[OF ok(2)])
    moreover have "expected_sibling_count indices depth = Inr (length siblings)"
      using assms keys(2) len by (simp add: expected_sibling_count_iff)
    ultimately show ?thesis using R(1) len by (simp add: reconstruct_root_def)
  qed
  then show ?thesis using derive assms keys(2) by (intro exI[of _ plan]) (simp add: plan_def frontier_sibling_positions_iff)
qed

text \<open>
  C40: Structural plans agree with direct reconstruction.  For every strictly
  increasing list of slots within the domain a plan is derived, its positions are the
  canonical frontier, and on any
  leaves and siblings of the right numbers it evaluates, without reading out of range,
  to the root that the multiproof reconstructs.
\<close>

theorem structural_plan_correct:
  assumes "valid_indices indices depth"
  shows "\<exists>plan. derive_structural_frontier_plan indices depth = Inr plan \<and>
    frontier_sibling_positions indices depth = Inr (sfp_frontier_positions plan) \<and>
    (\<forall>leaves siblings. length leaves = length indices \<longrightarrow> length siblings = length (sfp_frontier_positions plan) \<longrightarrow>
      (\<exists>evaluation. evaluate_structural_frontier plan leaves siblings = Some (Inr evaluation) \<and>
        reconstruct_root indices leaves siblings depth = Inr (sfe_root evaluation)))"
  by (rule structural_plan[OF assms])

theorem structural_plan_correct_witness:
  "\<exists>plan evaluation. derive_structural_frontier_plan [1, 2] 2 = Inr plan \<and>
    evaluate_structural_frontier plan [empty_leaf, empty_leaf] [empty_leaf, empty_leaf] = Some (Inr evaluation) \<and>
    reconstruct_root [1, 2] [empty_leaf, empty_leaf] [empty_leaf, empty_leaf] 2 = Inr (sfe_root evaluation)"
proof -
  have v: "valid_indices [1, 2] 2" by (simp add: valid_indices_def)
  obtain plan where p: "derive_structural_frontier_plan [1, 2] 2 = Inr plan"
    "frontier_sibling_positions [1, 2] 2 = Inr (sfp_frontier_positions plan)"
    "\<And>leaves siblings. length leaves = length [1 :: u32, 2] \<Longrightarrow> length siblings = length (sfp_frontier_positions plan) \<Longrightarrow>
      \<exists>evaluation. evaluate_structural_frontier plan leaves siblings = Some (Inr evaluation) \<and>
        reconstruct_root [1, 2] leaves siblings 2 = Inr (sfe_root evaluation)"
    using structural_plan_correct[OF v] by blast
  have "frontier_sibling_positions [1, 2] 2 = Inr [(0, 0), (0, 3)]" by code_simp
  then have "length (sfp_frontier_positions plan) = 2" using p(2) by simp
  then show ?thesis using p(1) p(3)[of "[empty_leaf, empty_leaf]" "[empty_leaf, empty_leaf]"] by auto
qed

end
