(* ===== verification/HistoryWitness.thy ===== *)
theory HistoryWitness
  imports Validation StructuralPlan
begin

text \<open>
  The exact-state part of the witness of a block (\<open>noid_block/src/history_step_witness.rs\<close>):
  the check of the parent state against its header, the nonce-independent checks of a
  template, and \<open>build_exact_state_frontier\<close>, which derives the touched slots of a block, reads
  their frontier from the parent state, or from a grown copy of it, and evaluates the
  structural plan on the old and on the new values.  The builder is shown to accept
  exactly the blocks that the ledger accepts with the root and counters of the header, and
  committing its updates as a verified transition to reach the same ledger as the
  sequential interpreter.  Errors raised only by the proof systems are left out of the error type.
\<close>

section \<open>Types\<close>

datatype history_step_witness_error =
    HwTemplateParentMismatch
  | HwParentStateBoundary string
  | HwConsensus consensus_error
  | HwStateSurface state_delta_error
  | HwStateFrontier exact_frontier_error
  | HwSparseMerkle sparse_merkle_error
  | HwTransactionRootMismatch
  | HwEmptyExactStateSurface
  | HwInvalidStateDepthTransition
  | HwParentStateRootMismatch
  | HwChildStateRootMismatch
  | HwActiveSlotCountMismatch
  | HwAllocCounterMismatch
  | HwStateCounterOverflow

record slot_leaf_inputs =
  sli_packed_value :: u128
  sli_owner_hi :: u128
  sli_owner_lo :: u128
  sli_expected_leaf :: "u128 list"

record exact_state_structural_frontier_inputs =
  esf_touched_indices :: "u32 list"
  esf_active_depth :: u32
  esf_old_slot_leaves :: "slot_leaf_inputs list"
  esf_new_slot_leaves :: "slot_leaf_inputs list"
  esf_live_sibling_digests :: "digest list"
  esf_old_combine_digests :: "digest list"
  esf_new_combine_digests :: "digest list"
  esf_old_root :: digest
  esf_new_root :: digest

section \<open>Boundary and template checks\<close>

definition validate_parent_state_boundary :: "block_header \<Rightarrow> chain_state \<Rightarrow> history_step_witness_error + unit" where
  "validate_parent_state_boundary parent state =
    (if cs_utxo_root state \<noteq> state_root parent then Inl (HwParentStateBoundary ''state_root'')
     else if of_nat (ss_log_slots (cs_state state)) \<noteq> hdr_log_slots parent then Inl (HwParentStateBoundary ''log_slots'')
     else if cs_active_slot_count state \<noteq> hdr_active_slot_count parent then Inl (HwParentStateBoundary ''active_slot_count'')
     else if cs_alloc_counter state \<noteq> hdr_alloc_counter parent then Inl (HwParentStateBoundary ''alloc_counter'')
     else Inr ())"

text \<open>The context supplies the parent header and the height and epoch anchor of the start accumulator.\<close>

definition validate_nonce_independent_block :: "block \<Rightarrow> block_header \<Rightarrow> u64 \<Rightarrow> digest \<Rightarrow> (history_step_witness_error, unit) outcome" where
  "validate_nonce_independent_block block parent_header start_height start_epoch_anchor_id =
    (if prev_block_hash (blk_header block) \<noteq> hash_block_header parent_header \<or>
       (case checked_add start_height 1 of None \<Rightarrow> True | Some height \<Rightarrow> hdr_height (blk_header block) \<noteq> height)
     then Some (Inl HwTemplateParentMismatch)
     else
       bind_out (map_option (map_err HwConsensus) (validate_block_resource_preflight block)) (\<lambda>_.
       bind_out (Some (map_err HwConsensus (validate_mandatory_coinbase block parent_header))) (\<lambda>_.
       bind_out (Some (map_err HwConsensus (validate_block_slot_conflicts (blk_transactions block)))) (\<lambda>_.
       bind_out (Some (map_err HwConsensus (validate_tx_consensus (blk_transactions block ! 0)))) (\<lambda>_.
       bind_out (Some (map_err (\<lambda>_. HwConsensus (InvalidPagedSpend ''page stream'')) (validate_block_page_stream (blk_transactions block)))) (\<lambda>_.
       let parent_block_id = hash_block_header parent_header;
           user_epoch_anchor = (if start_height mod TX_EPOCH_BLOCKS = 0 then parent_block_id else start_epoch_anchor_id)
       in bind_out (Some (map_err HwConsensus
              (validate_block_epoch_anchors (blk_transactions block) user_epoch_anchor parent_block_id))) (\<lambda>_.
          case compute_tx_root (blk_transactions block) of
            None \<Rightarrow> None
          | Some root \<Rightarrow> if tx_root (blk_header block) \<noteq> root then Some (Inl HwTransactionRootMismatch) else Some (Inr ()))))))))"

section \<open>The exact-state frontier\<close>

definition digest_to_fields :: "digest \<Rightarrow> u128 list" where
  "digest_to_fields d = [from_le (take 16 d), from_le (drop 16 d)]"

definition slot_leaf_input :: "slot_value \<Rightarrow> slot_leaf_inputs" where
  "slot_leaf_input slot =
    \<lparr> sli_packed_value = sv_value slot, sli_owner_hi = sv_owner_hi slot, sli_owner_lo = sv_owner_lo slot,
      sli_expected_leaf = digest_to_fields (slot_leaf_hash slot) \<rparr>"

definition build_exact_state_frontier ::
  "block \<Rightarrow> chain_state \<Rightarrow> (history_step_witness_error, exact_state_structural_frontier_inputs) outcome" where
  "build_exact_state_frontier block parent_state =
    (let header = blk_header block
     in bind_out (Some (map_err HwStateSurface (build_exact_action_surface_for_transactions_at_log_slots
            (cs_state parent_state) (hdr_log_slots header) (blk_transactions block) (cs_alloc_counter parent_state) (hdr_height header)))) (\<lambda>surface.
        if eas_touched_indices surface = [] then Some (Inl HwEmptyExactStateSurface)
        else
          bind_out
            (if hdr_log_slots header = of_nat (ss_log_slots (cs_state parent_state)) then
               bind_out (map_option (map_err HwStateFrontier)
                 (exact_frontier_siblings (eas_touched_indices surface) (hdr_log_slots header) parent_state)) (\<lambda>siblings.
               Some (Inr (siblings, cs_utxo_root parent_state)))
             else if hdr_log_slots header > of_nat (ss_log_slots (cs_state parent_state)) \<and>
               hdr_log_slots header = of_nat (ss_log_slots (cs_state parent_state)) + 1 then
               let expanded = chain_expand_one parent_state
               in bind_out (map_option (map_err HwStateFrontier)
                    (exact_frontier_siblings (eas_touched_indices surface) (hdr_log_slots header) expanded)) (\<lambda>siblings.
                  Some (Inr (siblings, cs_utxo_root expanded)))
             else Some (Inl HwInvalidStateDepthTransition)) (\<lambda>(siblings, expected_old_root).
          bind_out (Some (map_err HwSparseMerkle (derive_structural_frontier_plan (eas_touched_indices surface) (hdr_log_slots header)))) (\<lambda>plan.
          bind_out (map_option (map_err HwSparseMerkle)
            (evaluate_structural_frontier plan (map slot_leaf_hash (eas_old_slots surface)) siblings)) (\<lambda>old_evaluation.
          if sfe_root old_evaluation \<noteq> expected_old_root then Some (Inl HwParentStateRootMismatch)
          else
            bind_out (map_option (map_err HwSparseMerkle)
              (evaluate_structural_frontier plan (map slot_leaf_hash (eas_new_slots surface)) siblings)) (\<lambda>new_evaluation.
            if sfe_root new_evaluation \<noteq> state_root header then Some (Inl HwChildStateRootMismatch)
            else
              bind_out (Some (ok_or HwStateCounterOverflow (Option.bind
                (checked_sub (cs_active_slot_count parent_state) (ucast (eas_spends surface))) (\<lambda>count.
                 checked_add count (ucast (eas_mints surface)))))) (\<lambda>expected_active.
              if expected_active \<noteq> hdr_active_slot_count header then Some (Inl HwActiveSlotCountMismatch)
              else
                bind_out (Some (ok_or HwStateCounterOverflow
                  (checked_add (cs_alloc_counter parent_state) (ucast (eas_mints surface))))) (\<lambda>expected_alloc.
                if expected_alloc \<noteq> hdr_alloc_counter header then Some (Inl HwAllocCounterMismatch)
                else
                  Some (Inr \<lparr> esf_touched_indices = eas_touched_indices surface, esf_active_depth = hdr_log_slots header,
                    esf_old_slot_leaves = map slot_leaf_input (eas_old_slots surface),
                    esf_new_slot_leaves = map slot_leaf_input (eas_new_slots surface),
                    esf_live_sibling_digests = siblings, esf_old_combine_digests = sfe_combines old_evaluation,
                    esf_new_combine_digests = sfe_combines new_evaluation, esf_old_root = expected_old_root,
                    esf_new_root = state_root header \<rparr>)))))))))"

section \<open>Counters of a block\<close>

lemma resident_at_down:
  assumes "resident_at evicted T body" "T = L \<or> T = Suc L"
  shows "resident_at evicted L body"
  unfolding resident_at_def
proof (intro ballI impI)
  fix s assume s: "s \<in> set (body_slots body)" "unat s < 2 ^ L"
  have "unat s < 2 ^ T" using s(2) assms(2) by auto
  then have "unat s div 2 ^ min T 16 \<notin> evicted" using assms(1) s(1) by (simp add: resident_at_def)
  moreover have "unat s div 2 ^ min T 16 = unat s div 2 ^ min L 16"
  proof (cases "16 \<le> L")
    case False
    then show ?thesis using s(2) \<open>unat s < 2 ^ T\<close> assms(2) by (cases "T = L") (auto simp: min_def)
  qed (use assms(2) in \<open>auto simp: min_def\<close>)
  ultimately show "unat s div 2 ^ min L 16 \<notin> evicted" by simp
qed

lemma utxo_block_counters:
  "utxo_block h txs u = Some u' \<Longrightarrow> u_active u < 2 ^ 64 \<Longrightarrow>
    u_active u' + sum_list (map (length \<circ> live_input_slots) txs) = u_active u + sum_list (map (length \<circ> live_output_slots) txs) \<and>
    u_alloc u' = u_alloc u + sum_list (map (length \<circ> live_output_slots) txs) \<and> u_active u' < 2 ^ 64"
proof (induction txs arbitrary: u)
  case (Cons tx txs)
  then have acc: "utxo_accepts u tx (Some h)" and rest: "utxo_block h txs (utxo_after u tx (Some h)) = Some u'" by (auto split: if_splits)
  have n: "length (live_inputs tx) \<le> u_active u" "u_active u - length (live_inputs tx) + length (live_outputs tx) < 2 ^ 64"
    using acc unfolding utxo_accepts_def by blast+
  have "u_active (utxo_after u tx (Some h)) < 2 ^ 64" unfolding utxo_after_def utxo.simps by (rule n(2))
  from Cons.IH[OF rest this] show ?case using n(1) by (auto simp: utxo_after_def live_input_slots_def live_output_slots_def)
qed simp

lemma block_spends_live:
  "utxo_block h txs u = Some u' \<Longrightarrow> distinct (concat (map body_slots txs)) \<Longrightarrow> list_all claims_live txs \<Longrightarrow>
    s \<in> set (concat (map live_input_slots txs)) \<Longrightarrow> u_slots u (unat s) \<noteq> EMPTY"
proof (induction txs arbitrary: u)
  case (Cons tx txs)
  then have acc: "utxo_accepts u tx (Some h)" and rest: "utxo_block h txs (utxo_after u tx (Some h)) = Some u'" by (auto split: if_splits)
  show ?case
  proof (cases "s \<in> set (live_input_slots tx)")
    case True
    then show ?thesis using acc Cons.prems(3) by (fastforce simp: live_input_slots_def utxo_accepts_def claims_live_def)
  next
    case False
    then have s: "s \<in> set (concat (map live_input_slots txs))" using Cons.prems(4) by simp
    then have "s \<notin> set (body_slots tx)" using Cons.prems(2) by auto
    moreover have "fst ` set (utxo_deltas u tx (Some h)) = set (body_slots tx)"
      unfolding set_map[symmetric] by (simp only: utxo_deltas_slots)
    ultimately have "unat s \<notin> unat ` fst ` set (utxo_deltas u tx (Some h))" by (auto simp flip: word_unat_eq_iff)
    from write_map_notin[OF this, of "u_slots u"] have "u_slots (utxo_after u tx (Some h)) (unat s) = u_slots u (unat s)"
      by (simp add: utxo_after_def)
    then show ?thesis using Cons.IH[OF rest _ _ s] Cons.prems by auto
  qed
qed simp

lemma block_spends_bound:
  assumes "utxo_block h txs u = Some u'" "distinct (concat (map body_slots txs))" "list_all claims_live txs" "utxo_inv u"
  shows "sum_list (map (length \<circ> live_input_slots) txs) \<le> u_active u"
proof -
  let ?xs = "concat (map live_input_slots txs)"
  have "distinct (concat (map live_input_slots txs))" if "distinct (concat (map body_slots txs))" for txs
    using that by (induction txs) auto
  then have d: "distinct (map unat ?xs)" using assms(2) by (simp add: distinct_map inj_on_def word_unat_eq_iff)
  have "sum_list (map (length \<circ> live_input_slots) txs) = length (map unat ?xs)" by (simp add: length_concat comp_def)
  also have "\<dots> = card (set (map unat ?xs))" using distinct_card[OF d] by simp
  also have "\<dots> \<le> card {k. u_slots u k \<noteq> EMPTY}"
    by (rule card_mono) (use assms(4) block_spends_live[OF assms(1-3)] in \<open>auto simp: utxo_inv_def\<close>)
  finally show ?thesis using assms(4) by (simp add: utxo_inv_def live_count_def)
qed

section \<open>The frontier at the depth of the header\<close>

text \<open>The state whose frontier is read: the parent state or its grown copy.\<close>

definition state_at :: "u32 \<Rightarrow> chain_state \<Rightarrow> chain_state" where
  "state_at T cs = (if unat T = ss_log_slots (cs_state cs) then cs else chain_expand_one cs)"

lemma state_at_repr:
  assumes R: "chain_repr cs u" and sealed: "ss_exact_dirty (cs_state cs) = {}"
    and T: "unat T = u_log u \<or> unat T = Suc (u_log u)" "unat T \<le> 32"
  shows "chain_repr (state_at T cs) (u\<lparr> u_log := unat T \<rparr>)" "ss_exact_dirty (cs_state (state_at T cs)) = {}"
    "ss_evicted (cs_state (state_at T cs)) = ss_evicted (cs_state cs)"
proof -
  have log: "ss_log_slots (cs_state cs) = u_log u" using R by (simp add: chain_repr_def)
  have "chain_repr (state_at T cs) (u\<lparr> u_log := unat T \<rparr>) \<and> ss_exact_dirty (cs_state (state_at T cs)) = {} \<and>
    ss_evicted (cs_state (state_at T cs)) = ss_evicted (cs_state cs)"
  proof (cases "unat T = u_log u")
    case True
    then show ?thesis using R sealed by (simp add: state_at_def log)
  next
    case False
    then have T': "unat T = Suc (u_log u)" "u_log u < 32" using T by auto
    then show ?thesis using chain_expand_repr[OF R T'(2)] chain_expand_sealed[OF R sealed] False by (simp add: state_at_def log)
  qed
  then show "chain_repr (state_at T cs) (u\<lparr> u_log := unat T \<rparr>)" "ss_exact_dirty (cs_state (state_at T cs)) = {}"
    "ss_evicted (cs_state (state_at T cs)) = ss_evicted (cs_state cs)" by blast+
qed

lemma frontier_evaluates:
  assumes "chain_repr cs u" "ss_exact_dirty (cs_state cs) = {}" "valid_indices indices depth" "unat depth = u_log u"
    "\<forall>i \<in> set indices. seg_id_of (cs_state cs) i \<notin> ss_evicted (cs_state cs)"
  shows "\<exists>siblings plan. exact_frontier_siblings indices depth cs = Some (Inr siblings) \<and> derive_structural_frontier_plan indices depth = Inr plan \<and>
    (\<forall>G. (\<forall>k. k \<notin> unat ` set indices \<longrightarrow> G k = u_slots u k) \<longrightarrow>
      (\<exists>ev. evaluate_structural_frontier plan (map (\<lambda>i. slot_leaf_hash (G (unat i))) indices) siblings = Some (Inr ev) \<and>
        sfe_root ev = node_of (leaves_of G) (u_log u) 0))"
proof -
  obtain siblings where s: "exact_frontier_siblings indices depth cs = Some (Inr siblings)"
    "length siblings = length (frontier (unat ` set indices) (unat depth))"
    "\<And>G. \<forall>k. k \<notin> unat ` set indices \<longrightarrow> G k = u_slots u k \<Longrightarrow>
      reconstruct_root indices (map (\<lambda>i. slot_leaf_hash (G (unat i))) indices) siblings depth = Inr (node_of (leaves_of G) (u_log u) 0)"
    using frontier_multiproof[OF assms] by blast
  obtain plan where p: "derive_structural_frontier_plan indices depth = Inr plan"
    "frontier_sibling_positions indices depth = Inr (sfp_frontier_positions plan)"
    "\<And>leaves siblings. length leaves = length indices \<Longrightarrow> length siblings = length (sfp_frontier_positions plan) \<Longrightarrow>
      \<exists>ev. evaluate_structural_frontier plan leaves siblings = Some (Inr ev) \<and> reconstruct_root indices leaves siblings depth = Inr (sfe_root ev)"
    using structural_plan[OF assms(3)] by blast
  have len: "length siblings = length (sfp_frontier_positions plan)" using p(2) s(2) by (simp add: frontier_sibling_positions_iff)
  have "\<exists>ev. evaluate_structural_frontier plan (map (\<lambda>i. slot_leaf_hash (G (unat i))) indices) siblings = Some (Inr ev) \<and>
      sfe_root ev = node_of (leaves_of G) (u_log u) 0" if "\<forall>k. k \<notin> unat ` set indices \<longrightarrow> G k = u_slots u k" for G
    using p(3)[OF _ len, of "map (\<lambda>i. slot_leaf_hash (G (unat i))) indices"] s(3)[OF that] by auto
  then show ?thesis using s(1) p(1) by blast
qed

lemma active_counter:
  assumes "unat a = A" "unat s \<le> A" "n + unat s = A + unat m" "n < 2 ^ 64"
  shows "\<exists>x. Option.bind (checked_sub a (ucast (s :: u32))) (\<lambda>c. checked_add c (ucast (m :: u32))) = Some x \<and> unat (x :: u64) = n"
proof -
  have "checked_sub a (ucast s) = Some (a - ucast s)" "unat (a - ucast s) = A - unat s"
    using assms(1,2) by (simp_all add: checked_sub_def word_le_nat_alt unat_minus_le)
  moreover have "unat (of_nat n :: u64) = n" by (rule unat_of_nat_lt) (use assms(4) in simp)
  moreover from this have "checked_add (a - ucast s) (ucast m) = Some (of_nat n)"
    using assms(2,3) calculation(2) by (simp add: checked_add_Some_iff)
  ultimately show ?thesis by simp
qed

lemma witness_counters:
  assumes run: "utxo_block h txs (u\<lparr> u_log := L \<rparr>) = Some u'" and d: "distinct (concat (map body_slots txs))" and live: "list_all claims_live txs"
    and inv: "utxo_inv u" "utxo_inv u'" and cnt: "unat (a :: u64) = u_active u" "unat (c :: u64) = u_alloc u"
    and moves: "u_active u' + unat (s :: u32) = u_active u + unat (m :: u32)" "u_alloc u' = u_alloc u + unat m"
  shows "\<exists>x. Option.bind (checked_sub a (ucast s)) (\<lambda>c. checked_add c (ucast m)) = Some x \<and> unat (x :: u64) = u_active u'"
    and "checked_add c (ucast m) = Some (of_nat (u_alloc u'))" "unat (of_nat (u_alloc u') :: u64) = u_alloc u'"
proof -
  have inv0: "utxo_inv (u\<lparr> u_log := L \<rparr>)" using inv by (simp add: utxo_inv_def)
  have act: "u_active (u\<lparr> u_log := L \<rparr>) < 2 ^ 64" using unat_lt_pow[of a] cnt(1) by simp
  note C = utxo_block_counters[OF run act]
  have "unat s = sum_list (map (length \<circ> live_input_slots) txs)" using C moves by simp
  then have "unat s \<le> u_active u" using block_spends_bound[OF run d live inv0] by simp
  then show "\<exists>x. Option.bind (checked_sub a (ucast s)) (\<lambda>c. checked_add c (ucast m)) = Some x \<and> unat (x :: u64) = u_active u'"
    using active_counter[OF cnt(1) _ moves(1)] C by blast
  have "u_alloc u' < 2 ^ 64" using inv(2) by (simp add: utxo_inv_def)
  then show "checked_add c (ucast m) = Some (of_nat (u_alloc u'))" "unat (of_nat (u_alloc u') :: u64) = u_alloc u'"
    using moves(2) cnt(2) unat_of_nat_lt[of "u_alloc u'", where 'a = 64] by (simp_all add: checked_add_Some_iff)
qed

lemma depth_branch:
  assumes "unat (T :: u32) = L \<or> unat T = Suc L" "unat T \<le> 32"
  shows "T = of_nat L \<longleftrightarrow> unat T = L" "unat T \<noteq> L \<Longrightarrow> T > of_nat L \<and> T = of_nat L + 1"
proof -
  have L: "unat (of_nat L :: u32) = L" by (rule unat_of_nat_lt) (use assms in auto)
  then show "T = of_nat L \<longleftrightarrow> unat T = L" by (simp add: word_unat_eq_iff)
  have "unat (of_nat (Suc L) :: u32) = Suc L" by (rule unat_of_nat_lt) (use assms in auto)
  moreover have "of_nat L + 1 = (of_nat (Suc L) :: u32)" by (simp only: of_nat_Suc add.commute)
  ultimately show "T > of_nat L \<and> T = of_nat L + 1" if "unat T \<noteq> L"
    using that assms(1) L by (simp only: word_unat_eq_iff word_less_nat_alt) simp
qed

text \<open>The match on the depths reads the frontier of \<^const>\<open>state_at\<close>.\<close>

lemma read_frontier:
  assumes T: "unat T = ss_log_slots (cs_state cs) \<or> unat T = Suc (ss_log_slots (cs_state cs))" "unat T \<le> 32"
    and read: "exact_frontier_siblings idx T (state_at T cs) = Some (Inr siblings)"
  shows "(if T = of_nat (ss_log_slots (cs_state cs)) then
         bind_out (map_option (map_err HwStateFrontier) (exact_frontier_siblings idx T cs)) (\<lambda>siblings. Some (Inr (siblings, cs_utxo_root cs)))
       else if T > of_nat (ss_log_slots (cs_state cs)) \<and> T = of_nat (ss_log_slots (cs_state cs)) + 1 then
         bind_out (map_option (map_err HwStateFrontier) (exact_frontier_siblings idx T (chain_expand_one cs))) (\<lambda>siblings.
           Some (Inr (siblings, cs_utxo_root (chain_expand_one cs))))
       else Some (Inl HwInvalidStateDepthTransition)) = Some (Inr (siblings, cs_utxo_root (state_at T cs)))"
  using depth_branch[OF T] read by (auto simp: state_at_def split: if_splits)

definition leaf_slot :: "slot_leaf_inputs \<Rightarrow> slot_value" where
  "leaf_slot l = \<lparr> sv_value = sli_packed_value l, sv_owner_hi = sli_owner_hi l, sv_owner_lo = sli_owner_lo l \<rparr>"

lemma leaf_slot_input [simp]: "leaf_slot (slot_leaf_input v) = v"
  by (simp add: leaf_slot_def slot_leaf_input_def)

text \<open>The block, as far as the builder sees it: touched slots, ledger, root and counters.\<close>

definition frontier_step :: "utxo \<Rightarrow> block \<Rightarrow> utxo \<Rightarrow> bool" where
  "frontier_step u b u' \<longleftrightarrow> slots_of (blk_transactions b) \<noteq> [] \<and> distinct (slots_of (blk_transactions b)) \<and>
    utxo_block (hdr_height (blk_header b)) (blk_transactions b) (u\<lparr> u_log := unat (hdr_log_slots (blk_header b)) \<rparr>) = Some u' \<and>
    state_root (blk_header b) = utxo_root u' \<and> unat (hdr_active_slot_count (blk_header b)) = u_active u' \<and>
    unat (hdr_alloc_counter (blk_header b)) = u_alloc u'"

lemma frontier_outcome:
  fixes b :: block and u :: utxo
  defines "T \<equiv> hdr_log_slots (blk_header b)"
  assumes R: "chain_repr cs u" and sealed: "ss_exact_dirty (cs_state cs) = {}" and inv: "utxo_inv u"
    and T: "unat T = u_log u \<or> unat T = Suc (u_log u)" "unat T \<le> 32"
    and bodies: "list_all wf_body (blk_transactions b)" "list_all claims_live (blk_transactions b)"
      "list_all (resident_at (ss_evicted (cs_state cs)) (unat T)) (blk_transactions b)" "length (blk_transactions b) < 2 ^ 28"
  shows "case build_exact_state_frontier b cs of None \<Rightarrow> False
    | Some (Inl _) \<Rightarrow> \<nexists>u'. frontier_step u b u'
    | Some (Inr w) \<Rightarrow> \<exists>u'. frontier_step u b u' \<and> utxo_inv u' \<and> u_log u' = unat T \<and> esf_old_root w = utxo_root (u\<lparr> u_log := unat T \<rparr>) \<and>
        esf_new_root w = utxo_root u' \<and> set (esf_touched_indices w) = set (slots_of (blk_transactions b)) \<and>
        (\<forall>i \<in> set (esf_touched_indices w). unat i < 2 ^ unat T) \<and>
        u_slots u' = write_map (zip (esf_touched_indices w) (map leaf_slot (esf_new_slot_leaves w))) (u_slots u)"
proof -
  let ?txs = "blk_transactions b" and ?h = "hdr_height (blk_header b)" and ?u0 = "u\<lparr> u_log := unat T \<rparr>"
  let ?S = "build_exact_action_surface_for_transactions_at_log_slots (cs_state cs) T ?txs (cs_alloc_counter cs) ?h"
  have log: "ss_log_slots (cs_state cs) = u_log u" and cnt: "unat (cs_active_slot_count cs) = u_active u" "unat (cs_alloc_counter cs) = u_alloc u"
    using R by (auto simp: chain_repr_def)
  have ok: "\<forall>body \<in> set ?txs. wf_body body \<and> claims_live body \<and> touched_resident body cs"
    using bodies resident_at_down[OF _ T(1)] touched_resident_at[OF R] by (auto simp: list_all_iff)
  have com: "\<forall>(k, body) \<in> set (enumerate 0 ?txs). commitment_ok (\<lambda>_. None) k body" by (simp add: commitment_ok_def)
  note F = surface_follows[OF R inv T ok bodies(4) com, of ?h,
    folded slots_of_def build_exact_action_surface_for_transactions_at_log_slots_def]
  show ?thesis
  proof (cases ?S)
    case (Inl e)
    then have "\<nexists>u'. frontier_step u b u'"
      using F unfolding Inl sum.case frontier_step_def T_def[symmetric] by auto
    moreover have "build_exact_state_frontier b cs = Some (Inl (HwStateSurface e))"
      using Inl by (simp add: build_exact_state_frontier_def Let_def T_def)
    ultimately show ?thesis by simp
  next
    case (Inr e)
    let ?is = "eas_touched_indices e"
    obtain u' where d: "distinct (slots_of ?txs)" and u': "utxo_block ?h ?txs ?u0 = Some u'" "sorted_wrt (<) ?is" "\<forall>i \<in> set ?is. unat i < 2 ^ unat T"
      "set ?is = set (slots_of ?txs)" "eas_old_slots e = map (\<lambda>i. u_slots u (unat i)) ?is" "eas_new_slots e = map (\<lambda>i. u_slots u' (unat i)) ?is"
      "u_slots u' = write_map (zip ?is (eas_new_slots e)) (u_slots u)" "u_log u' = unat T" "utxo_inv u'"
      "u_active u' + unat (eas_spends e) = u_active u + unat (eas_mints e)" "u_alloc u' = u_alloc u + unat (eas_mints e)"
      using F unfolding Inr sum.case by (elim conjE exE) (rule that; assumption)
    show ?thesis
    proof (cases "?is = []")
      case True
      then have "build_exact_state_frontier b cs = Some (Inl HwEmptyExactStateSurface)"
        using Inr by (simp add: build_exact_state_frontier_def Let_def T_def)
      moreover have "slots_of ?txs = []" using True u'(4) by simp
      ultimately show ?thesis by (simp add: frontier_step_def)
    next
      case False
      have valid: "valid_indices ?is T" using u'(2,3) False T(2) by (auto simp: valid_indices_def word_le_nat_alt)
      note A = state_at_repr[OF R sealed T]
      have eff: "ss_effective_log_seg (cs_state (state_at T cs)) = min (unat T) 16" using chain_repr_eff[OF A(1)] by simp
      have "\<forall>i \<in> set ?is. seg_id_of (cs_state (state_at T cs)) i \<notin> ss_evicted (cs_state (state_at T cs))"
      proof
        fix i assume i: "i \<in> set ?is"
        then obtain tx where "tx \<in> set ?txs" "i \<in> set (body_slots tx)" unfolding u'(4) slots_of_def by auto
        then show "seg_id_of (cs_state (state_at T cs)) i \<notin> ss_evicted (cs_state (state_at T cs))"
          using bodies(3) u'(3) i by (auto simp: list_all_iff resident_at_def seg_id_of_def eff A(3))
      qed
      then obtain siblings plan where sp: "exact_frontier_siblings ?is T (state_at T cs) = Some (Inr siblings)" "derive_structural_frontier_plan ?is T = Inr plan"
        "\<And>G. \<forall>k. k \<notin> unat ` set ?is \<longrightarrow> G k = u_slots u k \<Longrightarrow>
          \<exists>ev. evaluate_structural_frontier plan (map (\<lambda>i. slot_leaf_hash (G (unat i))) ?is) siblings = Some (Inr ev) \<and>
            sfe_root ev = node_of (leaves_of G) (unat T) 0"
        using frontier_evaluates[OF A(1,2) valid] by auto
      obtain old where old: "evaluate_structural_frontier plan (map slot_leaf_hash (eas_old_slots e)) siblings = Some (Inr old)" "sfe_root old = utxo_root ?u0"
        using sp(3)[of "u_slots u"] by (auto simp: u'(5) comp_def)
      have "\<forall>k. k \<notin> unat ` set ?is \<longrightarrow> u_slots u' k = u_slots u k"
        unfolding u'(7) by (auto intro!: write_map_notin dest: set_zip_leftD)
      then obtain new where new: "evaluate_structural_frontier plan (map slot_leaf_hash (eas_new_slots e)) siblings = Some (Inr new)" "sfe_root new = utxo_root u'"
        using sp(3)[of "u_slots u'"] by (auto simp: u'(6,8) comp_def)
      have root: "cs_utxo_root (state_at T cs) = utxo_root ?u0" using A(1,2) by (simp add: chain_repr_def)
      note W = witness_counters[OF u'(1) d[unfolded slots_of_def] bodies(2) inv u'(9) cnt u'(10,11)]
      from W(1) obtain x where x: "Option.bind (checked_sub (cs_active_slot_count cs) (ucast (eas_spends e))) (\<lambda>c. checked_add c (ucast (eas_mints e))) = Some x"
        "unat x = u_active u'" by blast
      note y = W(2,3)
      note read = read_frontier[OF T[folded log] sp(1), unfolded root]
      have step: "frontier_step u b w \<longleftrightarrow> w = u' \<and> state_root (blk_header b) = utxo_root u' \<and> hdr_active_slot_count (blk_header b) = x \<and>
        hdr_alloc_counter (blk_header b) = of_nat (u_alloc u')" for w
        unfolding frontier_step_def T_def[symmetric] using u'(1,4) d False x(2) y(2) by (auto simp: word_unat_eq_iff)
      have run: "build_exact_state_frontier b cs = (if utxo_root u' \<noteq> state_root (blk_header b) then Some (Inl HwChildStateRootMismatch)
          else if x \<noteq> hdr_active_slot_count (blk_header b) then Some (Inl HwActiveSlotCountMismatch)
          else if of_nat (u_alloc u') \<noteq> hdr_alloc_counter (blk_header b) then Some (Inl HwAllocCounterMismatch)
          else Some (Inr \<lparr> esf_touched_indices = ?is, esf_active_depth = T, esf_old_slot_leaves = map slot_leaf_input (eas_old_slots e),
            esf_new_slot_leaves = map slot_leaf_input (eas_new_slots e), esf_live_sibling_digests = siblings,
            esf_old_combine_digests = sfe_combines old, esf_new_combine_digests = sfe_combines new, esf_old_root = utxo_root ?u0,
            esf_new_root = state_root (blk_header b) \<rparr>))"
        unfolding build_exact_state_frontier_def Let_def T_def[symmetric] Inr
        using False by (simp add: read sp(2) old new x(1) y(1))
      have "map leaf_slot (map slot_leaf_input (eas_new_slots e)) = eas_new_slots e" by (simp add: comp_def)
      then show ?thesis unfolding run step using u'(3,4,7-9) by auto
    qed
  qed
qed

section \<open>The template checks\<close>

lemma mandatory_canonical:
  assumes wf: "list_all wf_body (blk_transactions b)" and L: "block_layout (blk_transactions b) cb sys gs"
    and ok: "validate_mandatory_coinbase b parent = Inr ()"
  shows "list_all canonical_body (cb # sys)"
proof -
  have txs: "blk_transactions b = cb # sys @ map page_body (concat gs)" and sys: "length sys \<le> 1" using L by (simp_all add: block_layout_def)
  have stream: "validate_block_page_stream (blk_transactions b) = Inr (layout_facts sys gs)" using layout_iff[OF wf] L by blast
  have "validate_body_semantics_no_hash (blk_transactions b ! 0) = Inr ()"
    using ok by (auto simp: validate_mandatory_coinbase_def validate_mandatory_coinbase_with_schedule_def Let_def stream bind_res_Inr_iff split: sum.splits)
  then have "canonical_body cb" using wf validate_canonical_body_iff[of cb] by (simp add: txs)
  moreover have "canonical_body p" if "sys = [p]" for p
  proof -
    have "validate_body_semantics_no_hash (blk_transactions b ! 1) = Inr ()"
      using ok that by (auto simp: validate_mandatory_coinbase_def validate_mandatory_coinbase_with_schedule_def Let_def stream layout_facts_def bind_res_Inr_iff
          split: option.splits if_splits)
    then show ?thesis using wf validate_canonical_body_iff[of p] that by (simp add: txs)
  qed
  ultimately show ?thesis using sys by (cases sys) auto
qed

lemma nonce_independent_parts:
  assumes wf: "list_all wf_body (blk_transactions b)" and ok: "validate_nonce_independent_block b parent height anchor = Some (Inr ())"
  obtains cb sys gs where "block_layout (blk_transactions b) cb sys gs" "list_all canonical_body (cb # sys)"
    "try_compute_tx_root (blk_transactions b) = Some (Inr (tx_root (blk_header b)))" "unat (hdr_log_slots (blk_header b)) \<le> 32"
proof -
  from ok obtain r where r: "validate_block_resource_preflight b = Some (Inr r)" and man: "validate_mandatory_coinbase b parent = Inr ()"
    and root: "compute_tx_root (blk_transactions b) = Some (tx_root (blk_header b))"
    by (auto simp: validate_nonce_independent_block_def Let_def bind_out_Inr_iff split: if_splits option.splits)
  have res: "resources_ok b" using preflight_correct[OF wf] r by auto
  then obtain cb sys gs where L: "block_layout (blk_transactions b) cb sys gs" by (auto simp: resources_ok_def)
  have "try_compute_tx_root (blk_transactions b) = Some (Inr (tx_root (blk_header b)))"
    using root by (auto simp: compute_tx_root_def split: option.splits sum.splits)
  moreover have "unat (hdr_log_slots (blk_header b)) \<le> 32" using res by (simp add: resources_ok_def word_le_nat_alt)
  ultimately show ?thesis using that[OF L mandatory_canonical[OF wf L man]] by blast
qed

lemma frontier_step_iff:
  assumes wf: "list_all wf_body (blk_transactions b)" and L: "block_layout (blk_transactions b) cb sys gs" and can: "list_all canonical_body (cb # sys)"
    and root: "try_compute_tx_root (blk_transactions b) = Some (Inr (tx_root (blk_header b)))" and T: "u_log u \<le> unat (hdr_log_slots (blk_header b))"
  shows "frontier_step u b u' \<longleftrightarrow> block_step u b u'"
proof -
  have txs: "blk_transactions b = cb # sys @ map page_body (concat gs)" and cb: "is_primary_coinbase_shape cb" using L by (simp_all add: block_layout_def)
  have "live_output_slots cb \<noteq> []" using primary_outputs[of cb] wf cb by (simp add: txs live_output_slots_def)
  then have "slots_of (blk_transactions b) \<noteq> []" by (simp add: txs)
  moreover have "take (Suc (length sys)) (blk_transactions b) = cb # sys" by (simp add: txs)
  ultimately show ?thesis unfolding frontier_step_def block_step_iff[OF wf L] using can root T by (auto simp: slots_of_def)
qed

lemma frontier_other_depth:
  assumes "chain_repr cs u" "unat (hdr_log_slots (blk_header b)) \<noteq> u_log u" "unat (hdr_log_slots (blk_header b)) \<noteq> Suc (u_log u)"
  shows "build_exact_state_frontier b cs = Some (Inl (HwStateSurface SdInvalidSlotDomain))"
proof -
  have "ss_log_slots (cs_state cs) = u_log u" using assms(1) by (simp add: chain_repr_def)
  then show ?thesis using assms(2,3)
    by (simp add: build_exact_state_frontier_def Let_def build_exact_action_surface_for_transactions_at_log_slots_def
        build_exact_action_surface_at_log_slots_from_source_def)
qed

section \<open>Properties\<close>

text \<open>
  C4: Witness, interpreter and commit agree.  Take a sealed state that represents a ledger in its
  invariant, and a template of well-formed bodies, with live claims and touched segments in
  memory, that passes the nonce-independent checks.  The builder of the exact-state frontier
  never panics.  If the header keeps the depth or grows it by one, the builder rejects exactly
  the blocks that \<open>apply_block\<close> rejects; a header of any other depth it rejects.  When it accepts,
  its roots are those of the ledger before and after the block, and committing its updates as
  a verified transition leads to the same ledger as applying the block.
\<close>

theorem witness_agrees:
  assumes R: "chain_repr cs u" and sealed: "ss_exact_dirty (cs_state cs) = {}" and inv: "utxo_inv u"
    and wf: "list_all wf_body (blk_transactions b)" and live: "list_all claims_live (blk_transactions b)"
    and res: "list_all (resident_at (ss_evicted (cs_state cs)) (unat (hdr_log_slots (blk_header b)))) (blk_transactions b)"
    and ok: "validate_nonce_independent_block b parent height anchor = Some (Inr ())"
  shows "case build_exact_state_frontier b cs of None \<Rightarrow> False
    | Some (Inl _) \<Rightarrow> unat (hdr_log_slots (blk_header b)) \<notin> {u_log u, Suc (u_log u)} \<or> (\<exists>e. apply_block b cs = Some (Inl e))
    | Some (Inr w) \<Rightarrow> unat (hdr_log_slots (blk_header b)) \<in> {u_log u, Suc (u_log u)} \<and> (\<exists>u' applied committed. esf_new_root w = utxo_root u' \<and>
        esf_old_root w = utxo_root (u\<lparr> u_log := unat (hdr_log_slots (blk_header b)) \<rparr>) \<and>
        apply_block b cs = Some (Inr (esf_new_root w, applied)) \<and> chain_repr applied u' \<and>
        apply_verified_exact_transition (hdr_log_slots (blk_header b)) (esf_new_root w)
          (zip (esf_touched_indices w) (map leaf_slot (esf_new_slot_leaves w)))
          (hdr_active_slot_count (blk_header b)) (hdr_alloc_counter (blk_header b)) cs = Some (Inr (esf_new_root w, committed)) \<and>
        chain_repr committed u')"
proof (cases "unat (hdr_log_slots (blk_header b)) = u_log u \<or> unat (hdr_log_slots (blk_header b)) = Suc (u_log u)")
  case False
  then show ?thesis using frontier_other_depth[OF R, of b] by auto
next
  case T: True
  let ?T = "hdr_log_slots (blk_header b)"
  obtain cb sys gs where L: "block_layout (blk_transactions b) cb sys gs" "list_all canonical_body (cb # sys)"
    "try_compute_tx_root (blk_transactions b) = Some (Inr (tx_root (blk_header b)))" and T32: "unat ?T \<le> 32"
    by (rule nonce_independent_parts[OF wf ok])
  have "length (blk_transactions b) < 2 ^ 28" using L(1) by (simp add: block_layout_def)
  note F = frontier_outcome[OF R sealed inv T T32 wf live res this]
  have le: "u_log u \<le> unat ?T" "max (u_log u) (unat ?T) = unat ?T" using T by auto
  note step = frontier_step_iff[OF wf L le(1)]
  have res': "list_all (resident_at (ss_evicted (cs_state cs)) (max (u_log u) (unat ?T))) (blk_transactions b)" using res le(2) by simp
  note A = apply_block_accepts[OF R wf T32 res']
  consider (reject) e where "build_exact_state_frontier b cs = Some (Inl e)" | (accept) w where "build_exact_state_frontier b cs = Some (Inr w)"
    using F by (cases "build_exact_state_frontier b cs"; cases "the (build_exact_state_frontier b cs)") auto
  then show ?thesis
  proof cases
    case reject
    then have "\<nexists>u'. block_step u b u'" using F step by simp
    then show ?thesis using A(2) reject by simp
  next
    case accept
    then obtain u' where u': "frontier_step u b u'" "u_log u' = unat ?T" "esf_old_root w = utxo_root (u\<lparr> u_log := unat ?T \<rparr>)"
      "esf_new_root w = utxo_root u'" "set (esf_touched_indices w) = set (slots_of (blk_transactions b))" "\<forall>i \<in> set (esf_touched_indices w). unat i < 2 ^ unat ?T"
      "u_slots u' = write_map (zip (esf_touched_indices w) (map leaf_slot (esf_new_slot_leaves w))) (u_slots u)" using F by auto
    then have "block_step u b u'" using step by simp
    from A(1)[OF this] obtain applied where applied: "apply_block b cs = Some (Inr (utxo_root u', applied))" "chain_repr applied u'" by blast
    let ?ups = "zip (esf_touched_indices w) (map leaf_slot (esf_new_slot_leaves w))"
    have ups: "\<forall>(i, v) \<in> set ?ups. unat i < 2 ^ unat ?T \<and> unat i div 2 ^ min (unat ?T) 16 \<notin> ss_evicted (cs_state cs)"
      using u'(5,6) res by (fastforce simp: slots_of_def list_all_iff resident_at_def dest: set_zip_leftD)
    have "u' = \<lparr> u_log = unat ?T, u_slots = write_map ?ups (u_slots u), u_active = unat (hdr_active_slot_count (blk_header b)),
        u_alloc = unat (hdr_alloc_counter (blk_header b)) \<rparr>" using u'(1,2,7) by (simp add: frontier_step_def)
    from verified_transition_ok[OF R sealed T T32 ups this, of "utxo_root u'"] obtain committed where
      "apply_verified_exact_transition ?T (utxo_root u') ?ups (hdr_active_slot_count (blk_header b)) (hdr_alloc_counter (blk_header b)) cs =
        Some (Inr (utxo_root u', committed))" "chain_repr committed u'" by auto
    then show ?thesis unfolding accept option.case sum.case u'(3,4) using applied T by blast
  qed
qed

lemma first_template: "validate_nonce_independent_block first_block (blk_header genesis_block) 0 anchor = Some (Inr ())"
proof -
  obtain r where r: "validate_block_resource_preflight first_block = Some (Inr r)" using first_preflight by blast
  from first_mint_checks obtain f where man: "validate_mandatory_coinbase first_block (blk_header genesis_block) = Inr ()"
    and stream: "validate_block_page_stream [first_mint] = Inr f" and conflicts: "validate_block_slot_conflicts [first_mint] = Inr ()"
    and tx: "validate_tx_consensus first_mint = Inr ()"
    by (auto simp: mint_checks_def bind_out_Inr_iff first_header)
  have anchors: "is_coinbase first_mint" "epoch_anchor first_mint = hash_block_header (blk_header genesis_block)"
    by (simp_all add: first_mint_def example_mint_def block_id_def)
  have "list_all wf_body [first_mint]" using wf_first_mint by simp
  note root = tx_root_layout[OF this first_block_step(2)]
  have "compute_tx_root [first_mint] = Some (tx_root (blk_header first_block))"
    using root by (auto simp: compute_tx_root_def first_block_def)
  moreover have "prev_block_hash (blk_header first_block) = hash_block_header (blk_header genesis_block)"
    by (simp add: first_block_def block_id_def)
  moreover have "checked_add 0 1 = Some (1 :: u64)" by (simp add: checked_add_def)
  ultimately show ?thesis
    by (simp add: validate_nonce_independent_block_def Let_def first_header r man stream conflicts tx anchors)
qed

theorem witness_agrees_witness:
  "\<exists>cs w applied committed. with_log_slots 24 = Some cs \<and> build_exact_state_frontier first_block cs = Some (Inr w) \<and>
    apply_block first_block cs = Some (Inr (esf_new_root w, applied)) \<and>
    apply_verified_exact_transition 24 (esf_new_root w) (zip (esf_touched_indices w) (map leaf_slot (esf_new_slot_leaves w)))
      (hdr_active_slot_count (blk_header first_block)) (hdr_alloc_counter (blk_header first_block)) cs = Some (Inr (esf_new_root w, committed))"
proof -
  obtain cs where cs: "with_log_slots 24 = Some cs" "chain_repr cs (empty_ledger 24)" "ss_exact_dirty (cs_state cs) = {}" "ss_evicted (cs_state cs) = {}"
    using with_log_slots_repr[of 24] by auto
  have inv: "utxo_inv (empty_ledger 24)" by (simp add: utxo_inv_def empty_ledger_def ids_ok_def)
  have T: "unat (hdr_log_slots (blk_header first_block)) = u_log (empty_ledger 24) \<or> unat (hdr_log_slots (blk_header first_block)) = Suc (u_log (empty_ledger 24))"
    by (simp add: first_header empty_ledger_def)
  have wf: "list_all wf_body (blk_transactions first_block)" "list_all claims_live (blk_transactions first_block)"
    using wf_first_mint by (simp_all add: first_header claims_live_def first_mint_live)
  have res: "list_all (resident_at (ss_evicted (cs_state cs)) L) (blk_transactions first_block)" for L
    by (simp add: cs(4) resident_at_def list_all_iff)
  note W = witness_agrees[OF cs(2,3) inv wf res first_template]
  have "\<exists>cs'. apply_block first_block cs = Some (Inr (utxo_root first_ledger, cs')) \<and> chain_repr cs' first_ledger"
    by (rule apply_block_accepts(1)[OF cs(2) wf(1) _ res first_block_step(1)]) (simp add: first_header)
  then have ok: "\<nexists>e. apply_block first_block cs = Some (Inl e)" by auto
  obtain r where r: "build_exact_state_frontier first_block cs = Some r" using W by (cases "build_exact_state_frontier first_block cs") auto
  with W ok T obtain w where "r = Inr w" by (cases r) auto
  then show ?thesis using W cs(1) r by (auto simp: first_header)
qed

text \<open>The parent check fixes the ledger: a parent header that passes states its root, depth and counters.\<close>

lemma parent_state_boundary_iff:
  assumes "chain_repr cs u" "ss_exact_dirty (cs_state cs) = {}"
  shows "validate_parent_state_boundary parent cs = Inr () \<longleftrightarrow> state_root parent = utxo_root u \<and> unat (hdr_log_slots parent) = u_log u \<and>
    unat (hdr_active_slot_count parent) = u_active u \<and> unat (hdr_alloc_counter parent) = u_alloc u"
proof -
  have "u_log u \<le> 32" "ss_log_slots (cs_state cs) = u_log u" using assms(1) by (auto simp: chain_repr_def state_repr_def geometry_def)
  moreover from this have "unat (of_nat (u_log u) :: u32) = u_log u" by (intro unat_of_nat_lt) simp
  ultimately show ?thesis using assms by (auto simp: validate_parent_state_boundary_def chain_repr_def word_unat_eq_iff)
qed

end
