(* ===== verification/Spec2Isabelle.thy ===== *)
theory Spec2Isabelle
  imports Hardware TxWire HistoryWitness
begin

text \<open>
  A verification development of the Parano1d chain: a transparent UTXO ledger kept as a
  vector of slots under a sparse Merkle root, with ASERT difficulty, a Poseidon2b proof of
  work and blocks made of fixed-size transaction pages.  Paths below are under \<open>src/\<close>;
  \<open>consensus/\<close> stands for \<open>noid_chain/src/consensus/\<close>.

  \<^bold>\<open>The program and its parts.\<close>  A block is a header and a list of records: a coinbase, at some
  heights a development payout, and the pages of user transactions.  A node checks a block in
  stages.  The native checks look at the header against its parent, at the layout, the fees
  and the mints; they read no state.  The state engine then applies the records to the slots,
  or commits the batch of slot updates that a proof has established, and compares the root
  and the counters stated by the header.  The witness builder of a proof derives the same
  updates from the parent state alone.

  \<^bold>\<open>Conventions.\<close>  Machine integers are words of their width, signed ones \<open>int\<close> with the casts
  written out; array indices, depths and segment numbers are naturals.  A \<open>Result\<close> is a sum
  with the error on the left; a call that can also panic is an \<open>option\<close> of such a sum, \<open>None\<close>
  being the panic.  A \<open>&mut\<close> receiver is passed and returned.  All loops are total functions,
  with a termination measure where the recursion is not structural; no fuel is used.

  \<^bold>\<open>Theories.\<close>
  \<^item> \<open>Prelude\<close>: words, checked and saturating arithmetic, results, little-endian bytes.
    \<open>Codec\<close>: the contract of an encoder and decoder pair as the locales \<open>codec\<close> and
    \<open>fixed_codec\<close>, interpreted for inputs, outputs, bodies, pages, intents and headers.
  \<^item> \<open>Hardware\<close> (\<open>noid_core/src/hardware.rs\<close>) and \<open>Poseidon2b\<close> (\<open>noid_poseidon2b\<close>): the portable
    field arithmetic, with linearity over XOR as the locale \<open>gf2_linear\<close>, interpreted for both
    basis conversions; the permutation, the sponge and the typed hashes.
  \<^item> \<open>Tx\<close>, \<open>TxWire\<close>, \<open>PagedSpend\<close> (\<open>noid_tx/src\<close>): bodies, their checks and ids, wire formats and
    multi-page spends.  The checks accept exactly the canonical values and every encoding is
    canonical.
  \<^item> \<open>U256\<close>, \<open>Params\<close>, \<open>Difficulty\<close>, \<open>Fees\<close>, \<open>Emission\<close> (\<open>consensus/\<close>): the arithmetic of targets and
    work, the fork schedule, the fee and reward rules; exactness, monotonicity and the bound
    of all issuance by the rewards.
  \<^item> \<open>Header\<close>, \<open>HeaderRules\<close>, \<open>Assembly\<close> (\<open>noid_chain/src/block_header.rs\<close>, \<open>wire.rs\<close>, \<open>consensus/\<close>):
    header identities, header validation and anchors, fork choice, slot conflicts and
    ordering; invariants of chains of accepted headers.
  \<^item> \<open>TxTree\<close> (\<open>tx_tree.rs\<close>), \<open>StateTree\<close>, \<open>SparseMerkle\<close>, \<open>StructuralPlan\<close>, \<open>SegmentTree\<close>
    (\<open>exact_state_hash.rs\<close>, \<open>sparse_merkle.rs\<close>, \<open>exact_segment_cache.rs\<close>): each optimised tree routine
    equals the dense reference tree \<open>node_of\<close>, and proofs bind their leaves,
    both to the tree and to each other.
  \<^item> \<open>ChainState\<close>, \<open>Ledger\<close>, \<open>ExactTransition\<close>, \<open>StateDelta\<close> (\<open>segmented_state.rs\<close>, \<open>state.rs\<close>,
    \<open>state_delta.rs\<close>): the engine, the abstract ledger it refines through \<open>chain_repr\<close>, the
    step relation \<open>engine_step\<close> with its invariant, verified transitions and action surfaces.
  \<^item> \<open>PageStream\<close>, \<open>Block\<close>, \<open>Validation\<close> (\<open>consensus/paged_spend.rs\<close>, \<open>block.rs\<close>,
    \<open>consensus/validation.rs\<close>): the page stream, \<open>apply_block\<close>, the native checks and the sequential
    path.  Both refine the ledger step \<open>block_step\<close>; chains of accepted blocks
    (\<open>accepted_chain\<close>) keep the supply below the sum of the rewards.
  \<^item> \<open>HistoryWitness\<close> (\<open>noid_block/src/history_step_witness.rs\<close>): the exact-state part of a witness;
    witness, interpreter and commit reach the same ledger.

  \<^bold>\<open>Hypotheses to keep in mind.\<close>  Hashes are concrete functions and are nowhere assumed to be
  injective: a binding theorem has the alternative that a collision is exhibited.  Theorems on
  the engine ask that the touched segments are in memory.  The invariant of the engine, the action
  surface and the agreement of the witness builder are for records whose claims are live
  (\<open>claims_live\<close>): the engine compares a claim with the slot only, so a claim of amount zero, creation id zero and
  the all-zero owner matches an empty slot.  An evicted segment can be restored
  unless the state has grown since from a depth below 16, one full segment; the production
  state starts at 24.  \<open>apply_block\<close> grows the state by any number of levels, the witness
  builder and the commit by at most one.  Byte sizes of the hot-segment cache take the
  capacity of a vector to be its length.

  \<^bold>\<open>Not modelled.\<close>  The proof systems, their provers and the parts of the witness that feed them
  (spine inputs, authorizations, recursive inputs), which are cryptographic arguments; SIMD
  back ends and the nonce search on them; the raw column state and the segment commitments of
  the storage layer, which no consensus rule reads; shrinking the state and bulk imports; the
  wire format of whole blocks; the expansion of a multiproof into single paths.  The mempool
  store (\<open>noid_chain/src/mempool.rs\<close>) is deterministic and could be modelled; it and the
  admission around it are node-local policy and are left for later work.  Mining, storage,
  networking, the node, wallets and user interfaces are threads and I/O.
\<close>

end
